(* ===== verification/OT_Prelude.thy ===== *)
theory OT_Prelude
  imports Main "HOL-Library.Word" "HOL-Library.List_Lexorder" "HOL-Library.Multiset"
begin

text \<open>
  Shared vocabulary of the development: bytes and machine integers, C's
  \<^verbatim>\<open>memcmp\<close> and \<^verbatim>\<open>memmove\<close> on byte sequences, string literals as bytes, the
  answers of the allocator, and the generic facts on sorted lists, lists
  updated in place and multisets that the component theories use.
\<close>

unbundle bit_operations_syntax

section \<open>Machine types\<close>

type_synonym byte = "8 word"
type_synonym bytes = "byte list"
type_synonym u16 = "16 word"
type_synonym u32 = "32 word"
type_synonym size_t = "64 word"

named_theorems ot_defs \<open>small definitions that the component proofs unfold\<close>

text \<open>A C string literal as the bytes the compiler stores for it (without the final NUL).\<close>

definition lit :: "string \<Rightarrow> bytes" where
  "lit s = map of_char s"

lemma length_lit [simp]: "length (lit s) = length s"
  by (simp add: lit_def)

lemma lit_append: "lit (s @ t) = lit s @ lit t"
  by (simp add: lit_def)

text \<open>Big-endian bytes of machine words (what \<^verbatim>\<open>htonl\<close>/\<^verbatim>\<open>htons\<close> and a \<^verbatim>\<open>memcpy\<close> leave in a packet).\<close>

definition be32 :: "u32 \<Rightarrow> bytes" where
  "be32 w = [ucast (drop_bit 24 w), ucast (drop_bit 16 w), ucast (drop_bit 8 w), ucast w]"

definition be16 :: "u16 \<Rightarrow> bytes" where
  "be16 w = [ucast (drop_bit 8 w), ucast w]"

definition rd32 :: "bytes \<Rightarrow> u32" where
  "rd32 bs = push_bit 24 (ucast (bs ! 0)) OR push_bit 16 (ucast (bs ! 1)) OR
             push_bit 8 (ucast (bs ! 2)) OR ucast (bs ! 3)"

definition rd16 :: "bytes \<Rightarrow> u16" where
  "rd16 bs = push_bit 8 (ucast (bs ! 0)) OR ucast (bs ! 1)"

lemma length_be32 [simp]: "length (be32 w) = 4"
  by (simp add: be32_def)

lemma length_be16 [simp]: "length (be16 w) = 2"
  by (simp add: be16_def)

lemma rd32_be32 [simp]: "rd32 (be32 w @ xs) = w"
proof (rule bit_word_eqI)
  fix n assume "n < LENGTH(32)"
  then consider "n < 8" | "8 \<le> n" "n < 16" | "16 \<le> n" "n < 24" | "24 \<le> n" "n < 32"
    by fastforce
  then show "bit (rd32 (be32 w @ xs)) n \<longleftrightarrow> bit w n"
    by cases (auto simp add: rd32_def be32_def bit_simps less_diff_conv2)
qed

lemma rd16_be16 [simp]: "rd16 (be16 w @ xs) = w"
  unfolding rd16_def be16_def
  by (rule bit_word_eqI) (auto simp add: bit_simps)

lemma unat_ucast_byte: "unat (ucast (w :: 'a::len word) :: byte) = unat w mod 256"
  by (simp add: unsigned_ucast_eq unsigned_take_bit_eq take_bit_eq_mod)

lemma unat_size_t: "n < 2 ^ 64 \<Longrightarrow> unat (of_nat n :: size_t) = n"
  by (simp add: unat_of_nat)

lemma of_nat_minus_word: "a + b = c \<Longrightarrow> (of_nat c :: size_t) - of_nat b = of_nat a"
  by auto

section \<open>The C library routines the sources rely on\<close>

text \<open>
  \<^verbatim>\<open>memcmp\<close> on two operands of the same length: the sign of the first difference, as
  unsigned bytes. The two equations for operands of different lengths only make the
  function total: every caller compares sequences of \<^verbatim>\<open>compare_size\<close> bytes.
\<close>

fun memcmp :: "bytes \<Rightarrow> bytes \<Rightarrow> int" where
  "memcmp [] [] = 0"
| "memcmp [] (b # bs) = -1"
| "memcmp (a # as) [] = 1"
| "memcmp (a # as) (b # bs) = (if a = b then memcmp as bs else if a < b then -1 else 1)"

lemma memcmp_eq_0 [simp]: "memcmp xs ys = 0 \<longleftrightarrow> xs = ys"
  by (induction xs ys rule: memcmp.induct) auto

lemma memcmp_less_0 [simp]: "memcmp xs ys < 0 \<longleftrightarrow> xs < ys"
  by (induction xs ys rule: memcmp.induct) auto

text \<open>
  The allocator: each \<^verbatim>\<open>malloc\<close> and each insertion into a vector (which may call \<^verbatim>\<open>realloc\<close>) consumes one answer, True for
  success; past the end of the list every call succeeds.
\<close>

type_synonym allocs = "bool list"

fun alloc :: "allocs \<Rightarrow> bool \<times> allocs" where
  "alloc [] = (True, [])"
| "alloc (a # as) = (a, as)"

text \<open>Opening and closing a gap with \<^verbatim>\<open>memmove\<close> inside an array of members.\<close>

definition insert_at :: "nat \<Rightarrow> 'a \<Rightarrow> 'a list \<Rightarrow> 'a list" where
  "insert_at i x xs = take i xs @ x # drop i xs"

definition remove_at :: "nat \<Rightarrow> 'a list \<Rightarrow> 'a list" where
  "remove_at i xs = take i xs @ drop (Suc i) xs"

lemma length_insert_at [simp]: "length (insert_at i x xs) = Suc (length xs)"
  by (simp add: insert_at_def)

lemma length_remove_at [simp]: "i < length xs \<Longrightarrow> length (remove_at i xs) = length xs - 1"
  by (simp add: remove_at_def)

lemma mset_insert_at [simp]: "mset (insert_at i x xs) = add_mset x (mset xs)"
proof -
  have "mset (insert_at i x xs) = add_mset x (mset (take i xs @ drop i xs))"
    unfolding insert_at_def mset_append by simp
  then show ?thesis
    by simp
qed

lemma insert_at_update [simp]: "i \<le> length xs \<Longrightarrow> (insert_at i x xs)[i := y] = insert_at i y xs"
  by (simp add: insert_at_def list_update_append)

lemma nth_insert_at [simp]: "i \<le> length xs \<Longrightarrow> insert_at i x xs ! i = x"
  by (simp add: insert_at_def nth_append)

lemma mset_remove_at: "i < length xs \<Longrightarrow> add_mset (xs ! i) (mset (remove_at i xs)) = mset xs"
proof -
  assume "i < length xs"
  then have "mset xs = mset (take i xs @ xs ! i # drop (Suc i) xs)"
    by (simp add: id_take_nth_drop[symmetric])
  then show ?thesis
    by (simp add: remove_at_def)
qed

section \<open>Lists sorted by a key\<close>

abbreviation ksorted :: "('a \<Rightarrow> bytes) \<Rightarrow> 'a list \<Rightarrow> bool" where
  "ksorted key xs \<equiv> sorted_wrt (<) (map key xs)"

lemma ksorted_nth_less:
  "ksorted key xs \<Longrightarrow> i < j \<Longrightarrow> j < length xs \<Longrightarrow> key (xs ! i) < key (xs ! j)"
  by (auto simp: sorted_wrt_iff_nth_less)

lemma ksorted_distinct: "ksorted key xs \<Longrightarrow> distinct (map key xs)"
  using strict_sorted_iff by blast

lemma ksorted_key_inj:
  assumes "ksorted key xs" "x \<in> set xs" "y \<in> set xs" "key x = key y"
  shows "x = y"
  using ksorted_distinct[OF assms(1)] assms(2-4) by (auto simp: distinct_map inj_on_def)

lemma ksorted_insert_at:
  assumes "ksorted key xs"
    and "\<forall>y \<in> set (take i xs). key y < key x" and "\<forall>y \<in> set (drop i xs). key x < key y"
  shows "ksorted key (insert_at i x xs)"
proof -
  let ?R = "\<lambda>x y. key x < key y"
  have "sorted_wrt ?R (take i xs @ drop i xs)"
    using assms(1) by (simp add: sorted_wrt_map)
  then have "sorted_wrt ?R (take i xs)" "sorted_wrt ?R (drop i xs)"
      "\<forall>y \<in> set (take i xs). \<forall>z \<in> set (drop i xs). ?R y z"
    unfolding sorted_wrt_append by blast+
  then show ?thesis
    using assms(2,3) unfolding insert_at_def sorted_wrt_map sorted_wrt_append by simp
qed

lemma ksorted_remove_at: "ksorted key xs \<Longrightarrow> ksorted key (remove_at i xs)"
  unfolding remove_at_def sorted_wrt_map
proof -
  let ?R = "\<lambda>x y. key x < key y"
  assume "sorted_wrt ?R xs"
  then have "sorted_wrt ?R (take i xs @ drop i xs)"
    by simp
  moreover have "drop (Suc i) xs = drop 1 (drop i xs)"
    by simp
  ultimately show "sorted_wrt ?R (take i xs @ drop (Suc i) xs)"
    unfolding sorted_wrt_append by (metis in_set_dropD sorted_wrt_drop)
qed

lemma ksorted_update:
  "ksorted key xs \<Longrightarrow> i < length xs \<Longrightarrow> key x = key (xs ! i) \<Longrightarrow> ksorted key (xs[i := x])"
  by (metis list_update_id map_update nth_map)

lemma ksorted_filter: "ksorted key xs \<Longrightarrow> ksorted key (filter P xs)"
  by (metis sorted_wrt_filter sorted_wrt_map)

lemma ksorted_map: "(\<And>x. x \<in> set xs \<Longrightarrow> key (f x) = key x) \<Longrightarrow> ksorted key xs \<Longrightarrow> ksorted key (map f xs)"
  by (simp add: comp_def cong: map_cong)

lemma ksorted_sort_key:
  "distinct (map key xs) \<Longrightarrow> ksorted key (sort_key key xs)"
  by (simp add: strict_sorted_iff distinct_map)

lemma filter_key_absent: "k \<notin> key ` set xs \<Longrightarrow> filter_mset (\<lambda>y. key y \<noteq> k) (mset xs) = mset xs"
proof -
  assume "k \<notin> key ` set xs"
  then have "filter (\<lambda>y. key y \<noteq> k) xs = xs"
    by (auto simp: filter_id_conv)
  then show ?thesis
    by (metis mset_filter)
qed

lemma mset_remove_key:
  assumes "ksorted key xs" "i < length xs"
  shows "mset (remove_at i xs) = filter_mset (\<lambda>y. key y \<noteq> key (xs ! i)) (mset xs)"
proof -
  have xs: "xs = take i xs @ xs ! i # drop (Suc i) xs"
    using assms(2) by (rule id_take_nth_drop)
  have "distinct (map key (take i xs @ xs ! i # drop (Suc i) xs))"
    using ksorted_distinct[OF assms(1)] xs by simp
  then have "key (xs ! i) \<notin> key ` set (take i xs @ drop (Suc i) xs)"
    unfolding map_append by auto
  then have "filter_mset (\<lambda>y. key y \<noteq> key (xs ! i)) (mset (take i xs @ drop (Suc i) xs)) = mset (take i xs @ drop (Suc i) xs)"
    by (rule filter_key_absent)
  then show ?thesis
    by (subst (3) xs) (simp add: remove_at_def)
qed

lemma find_unique:
  assumes "distinct (map key xs)" "x \<in> set xs"
  shows "find (\<lambda>y. key y = key x) xs = Some x"
  using assms by (induction xs) auto

lemma find_key_None: "find (\<lambda>y. key y = k) xs = None \<longleftrightarrow> k \<notin> key ` set xs"
  by (auto simp: find_None_iff)

lemma find_key_cong_mset:
  assumes "distinct (map key xs)" "mset xs = mset ys"
  shows "find (\<lambda>y. key y = k) xs = find (\<lambda>y. key y = k) ys"
proof -
  have d: "distinct (map key ys)"
    using assms(1) mset_eq_imp_distinct_iff[of "map key xs" "map key ys"] assms(2) by simp
  have s: "set xs = set ys"
    using assms(2) by (rule mset_eq_setD)
  show ?thesis
  proof (cases "k \<in> key ` set xs")
    case True
    then obtain x where "x \<in> set xs" "k = key x" by auto
    then show ?thesis using find_unique[OF assms(1)] find_unique[OF d] s by simp
  next
    case False
    then have "find (\<lambda>y. key y = k) xs = None" "find (\<lambda>y. key y = k) ys = None"
      unfolding find_key_None using s by simp_all
    then show ?thesis by simp
  qed
qed

end
