(* ===== verification/OT_Types.thy ===== *)
theory OT_Types
  imports OT_Prelude
begin

text \<open>
  The data of the tracker, from \<^verbatim>\<open>include/trackerlogic.h\<close> and \<^verbatim>\<open>include/ot_vector.h\<close>: the growable
  vector, a peer (address, port, flags and age), the peer list of a torrent and the
  torrent itself, with the tunables of the two headers.
\<close>

section \<open>Vectors\<close>

abbreviation (input) OT_VECTOR_MIN_MEMBERS :: nat where "OT_VECTOR_MIN_MEMBERS \<equiv> 2"
abbreviation (input) OT_VECTOR_GROW_RATIO :: nat where "OT_VECTOR_GROW_RATIO \<equiv> 2"
abbreviation (input) OT_VECTOR_SHRINK_THRESH :: nat where "OT_VECTOR_SHRINK_THRESH \<equiv> 4"
abbreviation (input) OT_VECTOR_SHRINK_RATIO :: nat where "OT_VECTOR_SHRINK_RATIO \<equiv> 2"
abbreviation (input) OT_PEER_BUCKET_MINCOUNT :: nat where "OT_PEER_BUCKET_MINCOUNT \<equiv> 512"

text \<open>
  \<^verbatim>\<open>data\<close> points to \<^verbatim>\<open>space\<close> slots of which the first \<^verbatim>\<open>size\<close> are in use: the list holds the used
  slots, so the field \<^verbatim>\<open>size\<close> of the struct is its length.
\<close>

record 'a ot_vector =
  vdata :: "'a list"
  vspace :: nat

abbreviation vsize :: "'a ot_vector \<Rightarrow> nat" where
  "vsize v \<equiv> length (vdata v)"

section \<open>Peers\<close>

abbreviation (input) OT_IP_SIZE :: nat where "OT_IP_SIZE \<equiv> 4"
abbreviation (input) OT_PEER_COMPARE_SIZE :: nat where "OT_PEER_COMPARE_SIZE \<equiv> 6"
abbreviation (input) OT_PEER_TIMEOUT :: int where "OT_PEER_TIMEOUT \<equiv> 45"
abbreviation (input) OT_TORRENT_TIMEOUT :: int where "OT_TORRENT_TIMEOUT \<equiv> 1440"

record ot_peer =
  peer_ip :: bytes
  peer_port :: bytes
  peer_flag :: byte
  peer_time :: byte

abbreviation (input) PEER_FLAG_SEEDING :: byte where "PEER_FLAG_SEEDING \<equiv> 0x80"
abbreviation (input) PEER_FLAG_COMPLETED :: byte where "PEER_FLAG_COMPLETED \<equiv> 0x40"
abbreviation (input) PEER_FLAG_STOPPED :: byte where "PEER_FLAG_STOPPED \<equiv> 0x20"
abbreviation (input) PEER_FLAG_FROM_SYNC :: byte where "PEER_FLAG_FROM_SYNC \<equiv> 0x10"
abbreviation (input) PEER_FLAG_LEECHING :: byte where "PEER_FLAG_LEECHING \<equiv> 0x00"

text \<open>The first \<^verbatim>\<open>OT_PEER_COMPARE_SIZE\<close> bytes of a peer, what two peers are compared on.\<close>

definition peer_key :: "ot_peer \<Rightarrow> bytes" where
  "peer_key p = peer_ip p @ peer_port p"

definition is_seeding :: "ot_peer \<Rightarrow> bool" where
  "is_seeding p \<longleftrightarrow> peer_flag p AND PEER_FLAG_SEEDING \<noteq> 0"

definition peer_wf :: "ot_peer \<Rightarrow> bool" where
  "peer_wf p \<longleftrightarrow> length (peer_ip p) = OT_IP_SIZE \<and> length (peer_port p) = 2"

lemma peer_key_time [simp]: "peer_key (p\<lparr>peer_time := t\<rparr>) = peer_key p"
  by (simp add: peer_key_def)

lemma peer_key_flag [simp]: "peer_key (p\<lparr>peer_flag := t\<rparr>) = peer_key p"
  by (simp add: peer_key_def)

lemma is_seeding_time [simp]: "is_seeding (p\<lparr>peer_time := t\<rparr>) = is_seeding p"
  by (simp add: is_seeding_def)

lemma peer_wf_time [simp]: "peer_wf (p\<lparr>peer_time := t\<rparr>) = peer_wf p"
  by (simp add: peer_wf_def)

lemma peer_wf_flag [simp]: "peer_wf (p\<lparr>peer_flag := t\<rparr>) = peer_wf p"
  by (simp add: peer_wf_def)

lemma length_peer_key: "peer_wf p \<Longrightarrow> length (peer_key p) = OT_PEER_COMPARE_SIZE"
  by (simp add: peer_wf_def peer_key_def)

section \<open>Peer lists and torrents\<close>

text \<open>
  The \<^verbatim>\<open>peers\<close> field is either a vector of peers or, when its \<^verbatim>\<open>space\<close> is 0 and its \<^verbatim>\<open>size\<close> is not, a
  pointer to \<^verbatim>\<open>size\<close> vectors of peers. The two readings of the untyped \<^verbatim>\<open>data\<close> pointer are the two
  constructors; \<^verbatim>\<open>peers_size\<close> and \<^verbatim>\<open>peers_space\<close> are the fields the code looks at, and
  \<^verbatim>\<open>has_buckets\<close> the test \<^verbatim>\<open>OT_PEERLIST_HASBUCKETS\<close> by which it tells the two apart.
\<close>

datatype peers_vector = Flat "ot_peer ot_vector" | Buckets "ot_peer ot_vector list"

fun peers_size :: "peers_vector \<Rightarrow> nat" where
  "peers_size (Flat v) = vsize v"
| "peers_size (Buckets bs) = length bs"

fun peers_space :: "peers_vector \<Rightarrow> nat" where
  "peers_space (Flat v) = vspace v"
| "peers_space (Buckets bs) = 0"

definition has_buckets :: "peers_vector \<Rightarrow> bool" where
  "has_buckets pv \<longleftrightarrow> peers_size pv > peers_space pv"

fun bucket_list :: "peers_vector \<Rightarrow> ot_peer ot_vector list" where
  "bucket_list (Flat v) = [v]"
| "bucket_list (Buckets bs) = bs"

fun set_bucket :: "peers_vector \<Rightarrow> nat \<Rightarrow> ot_peer ot_vector \<Rightarrow> peers_vector" where
  "set_bucket (Flat v) i b = Flat b"
| "set_bucket (Buckets bs) i b = Buckets (bs[i := b])"

definition peers_entries :: "peers_vector \<Rightarrow> ot_peer list" where
  "peers_entries pv = concat (map vdata (bucket_list pv))"

record ot_peerlist =
  pl_base :: int
  seed_count :: size_t
  peer_count :: size_t
  down_count :: size_t
  pl_peers :: peers_vector

record ot_torrent =
  t_hash :: bytes
  peer_list :: ot_peerlist

lemma peers_entries_simps [simp]:
  "peers_entries (Flat v) = vdata v"
  "peers_entries (Buckets bs) = concat (map vdata bs)"
  by (simp_all add: peers_entries_def)

end
