(* ===== verification/OT_Store.thy ===== *)
theory OT_Store
  imports OT_Prelude
begin

text \<open>
  The contract of the tracker's containers. Torrents are kept in sorted vectors, one per
  bucket of the info hash; the peers of a torrent in one sorted vector, or in an array of
  sorted vectors once there are many. All three promise the same thing to their clients:
  they hold at most one member per key, looking up a key finds that member, putting a
  member replaces the one with its key, deleting removes it. The locale
  \<^verbatim>\<open>keyed_store\<close> states that contract on the collection of members; \<^verbatim>\<open>bucketed_store\<close> shows once
  and for all that an array of such stores, addressed by a hash of the key, is again one.
\<close>

locale keyed_store =
  fixes invar :: "'s \<Rightarrow> bool"
    and entries :: "'s \<Rightarrow> 'a list"
    and key :: "'a \<Rightarrow> bytes"
    and lookup :: "'s \<Rightarrow> bytes \<Rightarrow> 'a option"
    and put :: "'a \<Rightarrow> 's \<Rightarrow> 's"
    and del :: "bytes \<Rightarrow> 's \<Rightarrow> 's"
  assumes distinct_keys: "invar s \<Longrightarrow> distinct (map key (entries s))"
    and lookup_entries: "invar s \<Longrightarrow> lookup s k = find (\<lambda>x. key x = k) (entries s)"
    and invar_put: "invar s \<Longrightarrow> invar (put x s)"
    and entries_put:
      "invar s \<Longrightarrow> mset (entries (put x s)) = add_mset x (filter_mset (\<lambda>y. key y \<noteq> key x) (mset (entries s)))"
    and invar_del: "invar s \<Longrightarrow> invar (del k s)"
    and entries_del:
      "invar s \<Longrightarrow> mset (entries (del k s)) = filter_mset (\<lambda>y. key y \<noteq> k) (mset (entries s))"
begin

lemma lookup_Some_iff: "invar s \<Longrightarrow> lookup s k = Some x \<longleftrightarrow> x \<in> set (entries s) \<and> key x = k"
  using find_unique[OF distinct_keys, of s x]
  by (auto simp: lookup_entries find_Some_iff)

lemma lookup_None_iff: "invar s \<Longrightarrow> lookup s k = None \<longleftrightarrow> (\<forall>x \<in> set (entries s). key x \<noteq> k)"
  by (auto simp: lookup_entries find_None_iff)

lemma set_entries_put:
  "invar s \<Longrightarrow> set (entries (put x s)) = insert x {y \<in> set (entries s). key y \<noteq> key x}"
  by (simp add: entries_put flip: set_mset_mset)

lemma set_entries_del:
  "invar s \<Longrightarrow> set (entries (del k s)) = {y \<in> set (entries s). key y \<noteq> k}"
  by (simp add: entries_del flip: set_mset_mset)

lemma lookup_eqI:
  assumes "invar s" "invar t"
    and "{x \<in> set (entries s). key x = k} = {x \<in> set (entries t). key x = j}"
  shows "lookup s k = lookup t j"
proof (cases "lookup t j")
  case None
  then have "lookup s k = None"
    using assms by (auto simp: lookup_None_iff)
  with None show ?thesis by simp
next
  case (Some y)
  then have "lookup s k = Some y"
    using assms by (auto simp: lookup_Some_iff)
  with Some show ?thesis by simp
qed

lemma lookup_put:
  assumes "invar s"
  shows "lookup (put x s) k = (if k = key x then Some x else lookup s k)"
proof (cases "k = key x")
  case True
  then show ?thesis
    using assms by (simp add: lookup_Some_iff invar_put set_entries_put)
next
  case False
  then have "lookup (put x s) k = lookup s k"
    using assms by (intro lookup_eqI invar_put) (auto simp: set_entries_put)
  with False show ?thesis by simp
qed

lemma lookup_del:
  assumes "invar s"
  shows "lookup (del k s) j = (if j = k then None else lookup s j)"
proof (cases "j = k")
  case True
  then show ?thesis
    using assms by (simp add: lookup_None_iff invar_del set_entries_del)
next
  case False
  then have "lookup (del k s) j = lookup s j"
    using assms by (intro lookup_eqI invar_del) (auto simp: set_entries_del)
  with False show ?thesis by simp
qed

lemma entries_with_key:
  assumes "distinct (map key xs)"
  shows "filter_mset (\<lambda>y. key y = k) (mset xs) = (case find (\<lambda>x. key x = k) xs of None \<Rightarrow> {#} | Some y \<Rightarrow> {#y#})"
  using assms
proof (induction xs)
  case (Cons x xs)
  then show ?case
    using find_key_None[of key k xs] by (cases "key x = k") auto
qed simp

lemma entries_without_key:
  assumes "invar s"
  shows "mset (entries s) =
    (case lookup s k of None \<Rightarrow> {#} | Some y \<Rightarrow> {#y#}) + filter_mset (\<lambda>y. key y \<noteq> k) (mset (entries s))"
proof -
  have "filter_mset (\<lambda>y. key y = k) (mset (entries s)) = (case lookup s k of None \<Rightarrow> {#} | Some y \<Rightarrow> {#y#})"
    unfolding lookup_entries[OF assms] by (rule entries_with_key[OF distinct_keys[OF assms]])
  then show ?thesis
    using multiset_partition[of "mset (entries s)" "\<lambda>y. key y = k"] by simp
qed

text \<open>How a put and a delete change the number of members with a property.\<close>

lemma count_with_key:
  assumes "invar s"
  shows "length (filter P (entries s)) = (case lookup s k of None \<Rightarrow> 0 | Some y \<Rightarrow> of_bool (P y))
       + size (filter_mset P (filter_mset (\<lambda>y. key y \<noteq> k) (mset (entries s))))"
proof -
  have "length (filter P (entries s)) = size (filter_mset P (mset (entries s)))"
    by (metis mset_filter size_mset)
  also have "mset (entries s) = (case lookup s k of None \<Rightarrow> {#} | Some y \<Rightarrow> {#y#})
       + filter_mset (\<lambda>y. key y \<noteq> k) (mset (entries s))"
    by (rule entries_without_key[OF assms])
  finally show ?thesis
    by (auto split: option.split)
qed

lemma count_put:
  assumes "invar s"
  shows "length (filter P (entries (put x s))) + (case lookup s (key x) of None \<Rightarrow> 0 | Some y \<Rightarrow> of_bool (P y))
       = length (filter P (entries s)) + of_bool (P x)"
proof -
  have "length (filter P (entries (put x s))) = size (filter_mset P (mset (entries (put x s))))"
    by (metis mset_filter size_mset)
  then show ?thesis
    using count_with_key[OF assms, of P "key x"] by (simp add: entries_put[OF assms])
qed

lemma count_del:
  assumes "invar s"
  shows "length (filter P (entries (del k s))) + (case lookup s k of None \<Rightarrow> 0 | Some y \<Rightarrow> of_bool (P y))
       = length (filter P (entries s))"
proof -
  have "length (filter P (entries (del k s))) = size (filter_mset P (mset (entries (del k s))))"
    by (metis mset_filter size_mset)
  then show ?thesis
    using count_with_key[OF assms, of P k] by (simp add: entries_del[OF assms])
qed

lemmas size_put = count_put[where P = "\<lambda>_. True", simplified]
lemmas size_del = count_del[where P = "\<lambda>_. True", simplified]

end

section \<open>An array of stores addressed by a hash of the key\<close>

definition arr_inv ::
  "(nat \<Rightarrow> bool) \<Rightarrow> (nat \<Rightarrow> bytes \<Rightarrow> nat) \<Rightarrow> ('s \<Rightarrow> bool) \<Rightarrow> ('s \<Rightarrow> 'a list) \<Rightarrow> ('a \<Rightarrow> bytes) \<Rightarrow> 's list \<Rightarrow> bool" where
  "arr_inv valid h invar entries key bs \<longleftrightarrow>
     valid (length bs) \<and> (\<forall>i < length bs. invar (bs ! i) \<and> (\<forall>x \<in> set (entries (bs ! i)). h (length bs) (key x) = i))"

definition arr_entries :: "('s \<Rightarrow> 'a list) \<Rightarrow> 's list \<Rightarrow> 'a list" where
  "arr_entries entries bs = concat (map entries bs)"

definition arr_lookup :: "(nat \<Rightarrow> bytes \<Rightarrow> nat) \<Rightarrow> ('s \<Rightarrow> bytes \<Rightarrow> 'a option) \<Rightarrow> 's list \<Rightarrow> bytes \<Rightarrow> 'a option" where
  "arr_lookup h lookup bs k = lookup (bs ! h (length bs) k) k"

definition arr_put :: "(nat \<Rightarrow> bytes \<Rightarrow> nat) \<Rightarrow> ('a \<Rightarrow> bytes) \<Rightarrow> ('a \<Rightarrow> 's \<Rightarrow> 's) \<Rightarrow> 'a \<Rightarrow> 's list \<Rightarrow> 's list" where
  "arr_put h key put x bs = (let i = h (length bs) (key x) in bs[i := put x (bs ! i)])"

definition arr_del :: "(nat \<Rightarrow> bytes \<Rightarrow> nat) \<Rightarrow> (bytes \<Rightarrow> 's \<Rightarrow> 's) \<Rightarrow> bytes \<Rightarrow> 's list \<Rightarrow> 's list" where
  "arr_del h del k bs = (let i = h (length bs) k in bs[i := del k (bs ! i)])"

lemma arr_entries_split:
  "i < length bs \<Longrightarrow> arr_entries entries bs
     = arr_entries entries (take i bs) @ entries (bs ! i) @ arr_entries entries (drop (Suc i) bs)"
  by (subst id_take_nth_drop[of i bs]) (simp_all add: arr_entries_def)

lemma mset_arr_entries_update:
  "i < length bs \<Longrightarrow> mset (arr_entries entries (bs[i := b]))
     = mset (entries b) + (mset (arr_entries entries bs) - mset (entries (bs ! i)))"
  by (subst (2) arr_entries_split[of i]) (auto simp: upd_conv_take_nth_drop arr_entries_def)

lemma set_arr_entries: "set (arr_entries entries bs) = (\<Union>i < length bs. set (entries (bs ! i)))"
proof -
  have "set (arr_entries entries bs) = (\<Union>b \<in> set bs. set (entries b))"
    by (simp add: arr_entries_def)
  also have "\<dots> = (\<Union>i < length bs. set (entries (bs ! i)))"
    by (auto simp: set_conv_nth[of bs])
  finally show ?thesis .
qed

locale bucketed_store = keyed_store +
  fixes valid :: "nat \<Rightarrow> bool" and h :: "nat \<Rightarrow> bytes \<Rightarrow> nat"
  assumes h_bound: "valid n \<Longrightarrow> h n k < n"
begin

abbreviation ainv where "ainv \<equiv> arr_inv valid h invar entries key"

lemma ainv_nth: "ainv bs \<Longrightarrow> i < length bs \<Longrightarrow> invar (bs ! i)"
  by (simp add: arr_inv_def)

lemma ainv_home: "ainv bs \<Longrightarrow> i < length bs \<Longrightarrow> x \<in> set (entries (bs ! i)) \<Longrightarrow> h (length bs) (key x) = i"
  by (simp add: arr_inv_def)

lemma ainv_h: "ainv bs \<Longrightarrow> h (length bs) k < length bs"
  by (simp add: arr_inv_def h_bound)

lemma ainv_update:
  assumes "ainv bs" "invar b" "\<And>x. x \<in> set (entries b) \<Longrightarrow> h (length bs) (key x) = i"
  shows "ainv (bs[i := b])"
  using assms unfolding arr_inv_def by (cases "i < length bs") (auto simp: nth_list_update list_update_beyond)

lemma home_bucket_only:
  assumes "ainv bs"
  shows "{x \<in> set (arr_entries entries bs). key x = k} = {x \<in> set (entries (bs ! h (length bs) k)). key x = k}"
  using ainv_h[OF assms, of k] ainv_home[OF assms] by (auto simp: set_arr_entries)

lemma arr_distinct_keys:
  assumes "ainv bs"
  shows "distinct (map key (arr_entries entries bs))"
proof -
  have "distinct (map key (arr_entries entries (take n bs)))" if "n \<le> length bs" for n
    using that
  proof (induction n)
    case (Suc n)
    have "take (Suc n) bs = take n bs @ [bs ! n]"
      using Suc.prems by (simp add: take_Suc_conv_app_nth)
    moreover have "distinct (map key (entries (bs ! n)))"
      using assms Suc.prems by (simp add: distinct_keys ainv_nth)
    moreover have "key x \<noteq> key y"
      if "x \<in> set (arr_entries entries (take n bs))" "y \<in> set (entries (bs ! n))" for x y
    proof -
      obtain i where "i < n" "x \<in> set (entries (bs ! i))"
        using \<open>x \<in> set (arr_entries entries (take n bs))\<close> Suc.prems by (auto simp: set_arr_entries)
      then have "h (length bs) (key x) = i" "h (length bs) (key y) = n"
        using ainv_home[OF assms] Suc.prems that(2) by simp_all
      then show ?thesis using \<open>i < n\<close> by auto
    qed
    ultimately show ?case
      using Suc by (auto simp: arr_entries_def)
  qed (simp add: arr_entries_def)
  from this[of "length bs"] show ?thesis by simp
qed

lemma arr_filter_home:
  assumes "ainv bs" and i: "i = h (length bs) k"
  shows "filter_mset (\<lambda>y. key y \<noteq> k) (mset (arr_entries entries bs))
       = filter_mset (\<lambda>y. key y \<noteq> k) (mset (entries (bs ! i))) + (mset (arr_entries entries bs) - mset (entries (bs ! i)))"
proof -
  have il: "i < length bs"
    using ainv_h[OF assms(1)] i by simp
  have "filter_mset (\<lambda>y. key y \<noteq> k) (mset (arr_entries entries bs) - mset (entries (bs ! i)))
      = mset (arr_entries entries bs) - mset (entries (bs ! i))"
  proof (rule filter_mset_cong[THEN trans, OF refl _ filter_mset_True])
    fix y assume "y \<in># mset (arr_entries entries bs) - mset (entries (bs ! i))"
    then have "y \<in> set (arr_entries entries (take i bs)) \<or> y \<in> set (arr_entries entries (drop (Suc i) bs))"
      unfolding arr_entries_split[OF il] by simp
    then obtain j where "j < length bs" "j \<noteq> i" "y \<in> set (entries (bs ! j))"
    proof
      assume "y \<in> set (arr_entries entries (drop (Suc i) bs))"
      then obtain j where "j < length bs - Suc i" "y \<in> set (entries (bs ! (Suc i + j)))"
        by (auto simp: set_arr_entries)
      then show thesis
        using that[of "Suc i + j"] by simp
    next
      assume "y \<in> set (arr_entries entries (take i bs))"
      then obtain j where "j < i" "y \<in> set (entries (bs ! j))"
        by (auto simp: set_arr_entries)
      then show thesis
        using that[of j] il by simp
    qed
    then show "(key y \<noteq> k) = True"
      using ainv_home[OF assms(1)] i by auto
  qed
  then have "filter_mset (\<lambda>y. key y \<noteq> k) (mset (entries (bs ! i)) + (mset (arr_entries entries bs) - mset (entries (bs ! i))))
      = filter_mset (\<lambda>y. key y \<noteq> k) (mset (entries (bs ! i))) + (mset (arr_entries entries bs) - mset (entries (bs ! i)))"
    by simp
  moreover have "mset (entries (bs ! i)) + (mset (arr_entries entries bs) - mset (entries (bs ! i))) = mset (arr_entries entries bs)"
    unfolding arr_entries_split[OF il] by simp
  ultimately show ?thesis by simp
qed

end

sublocale bucketed_store \<subseteq> arr: keyed_store "arr_inv valid h invar entries key" "arr_entries entries" key
    "arr_lookup h lookup" "arr_put h key put" "arr_del h del"
proof (standard, goal_cases)
  case (1 s)
  then show ?case by (rule arr_distinct_keys)
next
  case (2 s k)
  let ?b = "s ! h (length s) k"
  have "invar ?b"
    using 2 by (simp add: ainv_nth ainv_h)
  then show ?case
  proof (cases "lookup ?b k")
    case None
    then have "\<forall>x \<in> set (arr_entries entries s). key x \<noteq> k"
      using home_bucket_only[OF 2, of k] \<open>invar ?b\<close> by (auto simp: lookup_None_iff)
    then have "find (\<lambda>x. key x = k) (arr_entries entries s) = None"
      by (simp add: find_None_iff)
    with None show ?thesis by (simp add: arr_lookup_def)
  next
    case (Some x)
    then have "x \<in> set (arr_entries entries s)" "key x = k"
      using home_bucket_only[OF 2, of k] \<open>invar ?b\<close> by (auto simp: lookup_Some_iff)
    then have "find (\<lambda>x. key x = k) (arr_entries entries s) = Some x"
      using find_unique[OF arr_distinct_keys[OF 2]] by blast
    with Some show ?thesis by (simp add: arr_lookup_def)
  qed
next
  case (3 s x)
  show ?case
    unfolding arr_put_def Let_def
    by (rule ainv_update[OF 3]) (auto simp: invar_put set_entries_put ainv_nth[OF 3] ainv_h[OF 3] ainv_home[OF 3])
next
  case (4 s x)
  then show ?case
    using ainv_h[OF 4, of "key x"]
    by (simp add: arr_put_def Let_def mset_arr_entries_update arr_filter_home[OF 4 refl] entries_put ainv_nth)
next
  case (5 s k)
  show ?case
    unfolding arr_del_def Let_def
    by (rule ainv_update[OF 5]) (auto simp: invar_del set_entries_del ainv_nth[OF 5] ainv_h[OF 5] ainv_home[OF 5])
next
  case (6 s k)
  then show ?case
    using ainv_h[OF 6, of k]
    by (simp add: arr_del_def Let_def mset_arr_entries_update arr_filter_home[OF 6 refl] entries_del ainv_nth)
qed

end
