(* ===== verification/OT_Vector.thy ===== *)
theory OT_Vector
  imports OT_Types OT_Store
begin

text \<open>
  \<^verbatim>\<open>src/ot_vector.c\<close>: the binary search that also yields the insertion point, insertion into and
  removal from a sorted growable vector, and the conversion of a torrent's peers
  between one vector and an array of hashed buckets. Vectors are shown to implement the
  \<^verbatim>\<open>keyed_store\<close> contract, flat or bucketed.
\<close>

section \<open>Binary search\<close>

text \<open>
  The loop of \<^verbatim>\<open>binary_search\<close>; \<^verbatim>\<open>base\<close> and \<^verbatim>\<open>lookat\<close> are indices of members where the code has pointers
  to them. \<^verbatim>\<open>key\<close> reads the first \<^verbatim>\<open>compare_size\<close> bytes of a member.
\<close>

function bsearch_loop :: "('a \<Rightarrow> bytes) \<Rightarrow> bytes \<Rightarrow> 'a list \<Rightarrow> nat \<Rightarrow> nat \<Rightarrow> nat \<times> nat" where
  "bsearch_loop key k xs base interval =
    (if interval = 0 then (base, 0)
     else let lookat = base + interval div 2; cmp = memcmp (key (xs ! lookat)) k in
       if cmp = 0 then (lookat, interval)
       else if cmp < 0 then bsearch_loop key k xs (lookat + 1) ((interval - 1) div 2)
       else bsearch_loop key k xs base (interval div 2))"
  by pat_completeness auto
termination
  by (relation "measure (\<lambda>(key, k, xs, base, interval). interval)") auto

declare bsearch_loop.simps [simp del]

definition binary_search :: "('a \<Rightarrow> bytes) \<Rightarrow> bytes \<Rightarrow> 'a list \<Rightarrow> nat \<times> bool" where
  "binary_search key k xs =
    (let (base, interval) = bsearch_loop key k xs 0 (length xs) in (base, interval \<noteq> 0))"

lemma bsearch_loop_correct:
  assumes "ksorted key xs" "base + interval \<le> length xs"
    and "\<forall>j < base. key (xs ! j) < k"
    and "\<forall>j. base + interval \<le> j \<longrightarrow> j < length xs \<longrightarrow> k < key (xs ! j)"
    and "bsearch_loop key k xs base interval = (i, e)"
  shows "if e \<noteq> 0 then i < length xs \<and> key (xs ! i) = k
         else i \<le> length xs \<and> (\<forall>j < i. key (xs ! j) < k) \<and> (\<forall>j. i \<le> j \<longrightarrow> j < length xs \<longrightarrow> k < key (xs ! j))"
  using assms
proof (induction key k xs base interval rule: bsearch_loop.induct)
  case (1 key k xs base interval)
  let ?m = "base + interval div 2"
  note step = bsearch_loop.simps[of key k xs base interval]
  have lo: "key (xs ! j) \<le> key (xs ! ?m)" if "j \<le> ?m" "?m < length xs" for j
    using ksorted_nth_less[OF "1.prems"(1), of j ?m] that by (cases "j = ?m") auto
  have hi: "key (xs ! ?m) \<le> key (xs ! j)" if "?m \<le> j" "j < length xs" for j
    using ksorted_nth_less[OF "1.prems"(1), of ?m j] that by (cases "j = ?m") auto
  consider "interval = 0" | "interval \<noteq> 0" "key (xs ! ?m) = k"
    | "interval \<noteq> 0" "key (xs ! ?m) < k" | "interval \<noteq> 0" "k < key (xs ! ?m)"
    using linorder_less_linear[of "key (xs ! ?m)" k] by blast
  then show ?case
  proof cases
    case 1
    then show ?thesis using "1.prems" step by auto
  next
    case 2
    then show ?thesis using "1.prems"(2,5) step by auto
  next
    case 3
    have m: "?m < length xs" using 3 "1.prems"(2) by linarith
    have e: "?m + 1 + (interval - 1) div 2 = base + interval" if "odd interval" using that
      by (auto elim!: oddE)
    have e': "?m + 1 + (interval - 1) div 2 = base + interval" if "even interval" using that 3(1)
      by (auto elim!: evenE)
    have "bsearch_loop key k xs (?m + 1) ((interval - 1) div 2) = (i, e)"
      using 3 less_imp_neq[OF 3(2)] "1.prems"(5) step by (simp add: Let_def)
    moreover have "\<forall>j < ?m + 1. key (xs ! j) < k"
      using le_less_trans[OF lo[OF _ m] 3(2)] by simp
    ultimately show ?thesis
      using "1.IH"(1)[of ?m "memcmp (key (xs ! ?m)) k"] "1.prems"(1,2,4) 3 less_imp_neq[OF 3(2)] e e'
      by (cases "even interval") simp_all
  next
    case 4
    have m: "?m < length xs" using 4 "1.prems"(2) by linarith
    have "bsearch_loop key k xs base (interval div 2) = (i, e)"
      using 4 less_imp_neq[OF 4(2)] less_not_sym[OF 4(2)] "1.prems"(5) step by (simp add: Let_def)
    moreover have "\<forall>j. ?m \<le> j \<longrightarrow> j < length xs \<longrightarrow> k < key (xs ! j)"
      using less_le_trans[OF 4(2) hi] by simp
    ultimately show ?thesis
      using "1.IH"(2)[OF 4(1) refl refl _ _ "1.prems"(1) _ "1.prems"(3)] 4(2) m
      by (metis less_imp_le_nat less_not_sym less_irrefl memcmp_eq_0 memcmp_less_0)
  qed
qed

lemma binary_search_correct:
  assumes "ksorted key xs" "binary_search key k xs = (i, b)"
  shows "if b then i < length xs \<and> key (xs ! i) = k
         else i \<le> length xs \<and> (\<forall>j < i. key (xs ! j) < k) \<and> (\<forall>j. i \<le> j \<longrightarrow> j < length xs \<longrightarrow> k < key (xs ! j))"
proof -
  obtain e where e: "bsearch_loop key k xs 0 (length xs) = (i, e)" "b = (e \<noteq> 0)"
    using assms(2) by (auto simp: binary_search_def split: prod.splits)
  show ?thesis
    using bsearch_loop_correct[OF assms(1) _ _ _ e(1)] e(2) by simp
qed

lemma binary_search_found:
  assumes "ksorted key xs" "binary_search key k xs = (i, True)"
  shows "i < length xs" "key (xs ! i) = k"
  using binary_search_correct[OF assms] by simp_all

lemma binary_search_not_found:
  assumes "ksorted key xs" "binary_search key k xs = (i, False)"
  shows "i \<le> length xs" "\<forall>x \<in> set (take i xs). key x < k" "\<forall>x \<in> set (drop i xs). k < key x"
  using binary_search_correct[OF assms] by (simp_all add: all_set_conv_all_nth)

lemma binary_search_exact_iff:
  assumes "ksorted key xs"
  shows "snd (binary_search key k xs) \<longleftrightarrow> k \<in> key ` set xs"
proof (cases "binary_search key k xs")
  case (Pair i b)
  show ?thesis
  proof (cases b)
    case True
    then show ?thesis
      using binary_search_found[OF assms, of k i] Pair by force
  next
    case False
    then have "\<forall>x \<in> set (take i xs). key x < k" "\<forall>x \<in> set (drop i xs). k < key x"
      using binary_search_not_found(2,3)[OF assms] Pair by simp_all
    then have "\<forall>x \<in> set (take i xs) \<union> set (drop i xs). key x \<noteq> k"
      by auto
    then have "\<forall>x \<in> set xs. key x \<noteq> k"
      by (simp flip: set_append)
    then show ?thesis
      using False Pair by auto
  qed
qed

section \<open>Insertion\<close>

text \<open>
  \<^verbatim>\<open>vector_find_or_insert\<close>: the result is the vector, the index of the member and whether it was
  there. \<^verbatim>\<open>ok\<close> answers the \<^verbatim>\<open>realloc\<close> of a full vector; \<^verbatim>\<open>stale\<close> is what the slot opened by
  \<^verbatim>\<open>memmove\<close> happens to hold until the caller fills it.
\<close>

definition vector_find_or_insert ::
  "('a \<Rightarrow> bytes) \<Rightarrow> bool \<Rightarrow> 'a \<Rightarrow> 'a ot_vector \<Rightarrow> bytes \<Rightarrow> ('a ot_vector \<times> nat \<times> bool) option" where
  "vector_find_or_insert key ok stale v k =
    (let (m, exactmatch) = binary_search key k (vdata v) in
     if exactmatch then Some (v, m, True)
     else if vsize v + 1 > vspace v then
       let new_space = (if vspace v \<noteq> 0 then OT_VECTOR_GROW_RATIO * vspace v else OT_VECTOR_MIN_MEMBERS) in
       if \<not> ok then None
       else Some (v\<lparr>vdata := insert_at m stale (vdata v), vspace := new_space\<rparr>, m, False)
     else Some (v\<lparr>vdata := insert_at m stale (vdata v)\<rparr>, m, False))"

text \<open>The hash that distributes peers over buckets, on 32-bit unsigned integers; the result is a \<^verbatim>\<open>uint8_t\<close>.\<close>

definition vector_hash_peer :: "bytes \<Rightarrow> nat \<Rightarrow> nat" where
  "vector_hash_peer pk bucket_count =
    (let h = fold (\<lambda>b (h::u32). h + (push_bit 5 h + ucast b)) pk 5381
     in unat (ucast (h mod of_nat bucket_count) :: byte))"

text \<open>
  The vector of a peer: \<^verbatim>\<open>peers\<close> itself or, when its space is smaller than its size, the bucket
  its hash selects. \<^verbatim>\<open>vector_find_or_insert_peer\<close> then repeats the generic insertion on it.
\<close>

definition peer_bucket :: "peers_vector \<Rightarrow> bytes \<Rightarrow> nat" where
  "peer_bucket pv pk = (if peers_space pv < peers_size pv then vector_hash_peer pk (peers_size pv) else 0)"

definition vector_find_or_insert_peer ::
  "bool \<Rightarrow> ot_peer \<Rightarrow> peers_vector \<Rightarrow> ot_peer \<Rightarrow> (peers_vector \<times> (nat \<times> nat) \<times> bool) option" where
  "vector_find_or_insert_peer ok stale pv p =
    (let b = peer_bucket pv (peer_key p) in
     case vector_find_or_insert peer_key ok stale (bucket_list pv ! b) (peer_key p) of
       None \<Rightarrow> None
     | Some (v, m, exactmatch) \<Rightarrow> Some (set_bucket pv b v, (b, m), exactmatch))"

text \<open>Reading and writing the slot an insertion returned.\<close>

definition peer_at :: "peers_vector \<Rightarrow> nat \<times> nat \<Rightarrow> ot_peer" where
  "peer_at pv loc = (case loc of (b, m) \<Rightarrow> vdata (bucket_list pv ! b) ! m)"

definition peer_write :: "peers_vector \<Rightarrow> nat \<times> nat \<Rightarrow> ot_peer \<Rightarrow> peers_vector" where
  "peer_write pv loc p = (case loc of (b, m) \<Rightarrow>
     set_bucket pv b ((bucket_list pv ! b)\<lparr>vdata := (vdata (bucket_list pv ! b))[m := p]\<rparr>))"

section \<open>Removal\<close>

function shrink_space :: "nat \<Rightarrow> nat \<Rightarrow> nat" where
  "shrink_space sz space =
    (if sz * OT_VECTOR_SHRINK_THRESH < space \<and> space \<ge> OT_VECTOR_SHRINK_RATIO * OT_VECTOR_MIN_MEMBERS
     then shrink_space sz (space div OT_VECTOR_SHRINK_RATIO) else space)"
  by pat_completeness auto
termination
  by (relation "measure snd") auto

declare shrink_space.simps [simp del]

definition vector_fixup_peers :: "'a ot_vector \<Rightarrow> 'a ot_vector" where
  "vector_fixup_peers v =
    (if vsize v = 0 then v\<lparr>vdata := [], vspace := 0\<rparr>
     else v\<lparr>vspace := shrink_space (vsize v) (vspace v)\<rparr>)"

definition vector_remove_peer :: "peers_vector \<Rightarrow> bytes \<Rightarrow> peers_vector \<times> nat" where
  "vector_remove_peer pv pk =
    (if peers_size pv = 0 then (pv, 0)
     else
       let b = peer_bucket pv pk; v = bucket_list pv ! b;
           (m, exactmatch) = binary_search peer_key pk (vdata v) in
       if \<not> exactmatch then (pv, 0)
       else (set_bucket pv b (vector_fixup_peers (v\<lparr>vdata := remove_at m (vdata v)\<rparr>)),
             if is_seeding (vdata v ! m) then 2 else 1))"

definition vector_remove_torrent :: "'a ot_vector \<Rightarrow> nat \<Rightarrow> 'a ot_vector" where
  "vector_remove_torrent v m =
    (if vsize v = 0 then v
     else
       let v' = v\<lparr>vdata := remove_at m (vdata v)\<rparr> in
       if vsize v' * OT_VECTOR_SHRINK_THRESH < vspace v' \<and>
          vspace v' \<ge> OT_VECTOR_SHRINK_RATIO * OT_VECTOR_MIN_MEMBERS
       then v'\<lparr>vspace := vspace v' div OT_VECTOR_SHRINK_RATIO\<rparr> else v')"

section \<open>Redistribution over buckets\<close>

definition num_buckets_new :: "nat \<Rightarrow> nat \<Rightarrow> nat" where
  "num_buckets_new pc num_buckets_old =
    (if pc < 255 then 1
     else if pc > 8192 then 64
     else if pc \<ge> 512 \<and> pc < 4096 then 16
     else if pc < 512 \<and> num_buckets_old \<le> 16 then num_buckets_old
     else if pc < 512 then 1
     else if pc < 8192 \<and> num_buckets_old > 1 then num_buckets_old
     else 16)"

function grow_bucket :: "nat \<Rightarrow> nat \<Rightarrow> nat" where
  "grow_bucket b tmp = (if 0 < b \<and> b < tmp then grow_bucket (b * OT_VECTOR_GROW_RATIO) tmp else b)"
  by pat_completeness auto
termination
  by (relation "measure (\<lambda>(b, tmp). tmp - b)") auto

declare grow_bucket.simps [simp del]

fun prealloc :: "nat \<Rightarrow> allocs \<Rightarrow> bool \<times> allocs" where
  "prealloc 0 as = (True, as)"
| "prealloc (Suc n) as = (case alloc as of (ok, as') \<Rightarrow> if ok then prealloc n as' else (False, as'))"

definition dest_bucket :: "nat \<Rightarrow> ot_peer \<Rightarrow> nat" where
  "dest_bucket n p = (if n > 1 then vector_hash_peer (peer_key p) n else 0)"

fun distribute :: "nat \<Rightarrow> ot_peer list \<Rightarrow> ot_peer ot_vector list \<Rightarrow> allocs \<Rightarrow> ot_peer ot_vector list option \<times> allocs" where
  "distribute n [] bs as = (Some bs, as)"
| "distribute n (p # ps) bs as =
    (let dest = dest_bucket n p; b = bs ! dest in
     if vsize b + 1 > vspace b then
       case alloc as of (ok, as') \<Rightarrow>
         if \<not> ok then (None, as')
         else distribute n ps (bs[dest := b\<lparr>vdata := vdata b @ [p], vspace := vspace b * OT_VECTOR_GROW_RATIO\<rparr>]) as'
     else distribute n ps (bs[dest := b\<lparr>vdata := vdata b @ [p]\<rparr>]) as)"

definition vector_sort :: "ot_peer ot_vector \<Rightarrow> ot_peer ot_vector" where
  "vector_sort v = v\<lparr>vdata := sort_key peer_key (vdata v)\<rparr>"

definition vector_redistribute_buckets :: "ot_peerlist \<Rightarrow> allocs \<Rightarrow> ot_peerlist \<times> allocs" where
  "vector_redistribute_buckets pl as =
    (let pv = pl_peers pl;
         num_old = (if has_buckets pv then peers_size pv else 1);
         num_new = num_buckets_new (unat (peer_count pl)) num_old in
     if num_new = num_old then (pl, as)
     else case alloc as of (ok, as1) \<Rightarrow>
       if \<not> ok then (pl, as1)
       else
         let bucket_size_new = grow_bucket OT_VECTOR_MIN_MEMBERS (unat (peer_count pl) div num_new) in
         case prealloc num_new as1 of (ok, as2) \<Rightarrow>
           if \<not> ok then (pl, as2)
           else
             (case distribute num_new (peers_entries pv)
                    (replicate num_new \<lparr>vdata = [], vspace = bucket_size_new\<rparr>) as2 of
                (None, as3) \<Rightarrow> (pl, as3)
              | (Some bs, as3) \<Rightarrow>
                  let bs' = map vector_sort bs in
                  (pl\<lparr>pl_peers := if num_new > 1 then Buckets bs' else Flat (bs' ! 0)\<rparr>, as3)))"

section \<open>Vectors are keyed stores\<close>

definition vec_wf :: "('a \<Rightarrow> bytes) \<Rightarrow> 'a ot_vector \<Rightarrow> bool" where
  "vec_wf key v \<longleftrightarrow> ksorted key (vdata v) \<and> vsize v \<le> vspace v"

definition vector_find :: "('a \<Rightarrow> bytes) \<Rightarrow> 'a ot_vector \<Rightarrow> bytes \<Rightarrow> 'a option" where
  "vector_find key v k =
    (let (m, exactmatch) = binary_search key k (vdata v) in if exactmatch then Some (vdata v ! m) else None)"

lemma vector_find_eq_find:
  assumes "vec_wf key v"
  shows "vector_find key v k = find (\<lambda>x. key x = k) (vdata v)"
proof (cases "binary_search key k (vdata v)")
  case (Pair m e)
  have s: "ksorted key (vdata v)" using assms by (simp add: vec_wf_def)
  show ?thesis
  proof (cases e)
    case True
    then have "m < vsize v" "key (vdata v ! m) = k"
      using binary_search_found[OF s] Pair by auto
    then show ?thesis
      using find_unique[OF ksorted_distinct[OF s], of "vdata v ! m"] True Pair by (simp add: vector_find_def)
  next
    case False
    then have "find (\<lambda>x. key x = k) (vdata v) = None"
      using binary_search_exact_iff[OF s, of k] Pair by (simp add: find_key_None)
    then show ?thesis
      using False Pair by (simp add: vector_find_def)
  qed
qed

text \<open>The three outcomes of an insertion.\<close>

lemma vector_find_or_insert_cases:
  assumes "vec_wf key v"
  obtains (found) m where "vector_find_or_insert key ok stale v k = Some (v, m, True)"
      "m < vsize v" "key (vdata v ! m) = k" "vector_find key v k = Some (vdata v ! m)"
  | (nomem) "vector_find_or_insert key ok stale v k = None" "\<not> ok" "vector_find key v k = None"
  | (new) v' m where "vector_find_or_insert key ok stale v k = Some (v', m, False)"
      "vdata v' = insert_at m stale (vdata v)" "vsize v' \<le> vspace v'" "m \<le> vsize v"
      "\<forall>x \<in> set (take m (vdata v)). key x < k" "\<forall>x \<in> set (drop m (vdata v)). k < key x"
      "vector_find key v k = None"
proof (cases "binary_search key k (vdata v)")
  case (Pair m e)
  have s: "ksorted key (vdata v)" and le: "vsize v \<le> vspace v" using assms by (simp_all add: vec_wf_def)
  show thesis
  proof (cases e)
    case True
    then show thesis
      using binary_search_found[OF s] Pair
      by (intro found[of m]) (auto simp: vector_find_or_insert_def vector_find_def)
  next
    case False
    have P: "binary_search key k (vdata v) = (m, False)" using Pair False by simp
    note nf = binary_search_not_found[OF s P]
    have none: "vector_find key v k = None"
      using Pair False by (simp add: vector_find_def)
    show thesis
    proof (cases "vsize v + 1 > vspace v \<and> \<not> ok")
      case True
      then show thesis
        using Pair False none by (intro nomem) (auto simp: vector_find_or_insert_def)
    next
      case F: False
      let ?space = "if vsize v + 1 > vspace v then (if vspace v \<noteq> 0 then 2 * vspace v else 2) else vspace v"
      have "vector_find_or_insert key ok stale v k
          = Some (v\<lparr>vdata := insert_at m stale (vdata v), vspace := ?space\<rparr>, m, False)"
        using Pair False F by (auto simp: vector_find_or_insert_def)
      then show thesis
        by (rule new) (use nf none le in auto)
    qed
  qed
qed

text \<open>Inserting a member and filling its slot: what the callers do with the returned slot.\<close>

definition vector_put :: "('a \<Rightarrow> bytes) \<Rightarrow> 'a \<Rightarrow> 'a ot_vector \<Rightarrow> 'a ot_vector" where
  "vector_put key x v =
    (case vector_find_or_insert key True x v (key x) of
       None \<Rightarrow> v
     | Some (v', m, _) \<Rightarrow> v'\<lparr>vdata := (vdata v')[m := x]\<rparr>)"

definition vector_del :: "('a \<Rightarrow> bytes) \<Rightarrow> ('a ot_vector \<Rightarrow> nat \<Rightarrow> 'a ot_vector) \<Rightarrow> bytes \<Rightarrow> 'a ot_vector \<Rightarrow> 'a ot_vector" where
  "vector_del key rm k v =
    (let (m, exactmatch) = binary_search key k (vdata v) in if exactmatch then rm v m else v)"

definition vector_remove_member :: "'a ot_vector \<Rightarrow> nat \<Rightarrow> 'a ot_vector" where
  "vector_remove_member v m = vector_fixup_peers (v\<lparr>vdata := remove_at m (vdata v)\<rparr>)"

lemma vector_put_write:
  assumes "vector_find_or_insert key ok stale v (key x) = Some (v', m, e)" "vec_wf key v"
  shows "v'\<lparr>vdata := (vdata v')[m := x]\<rparr> = vector_put key x v"
proof -
  have "m \<le> vsize v" if "binary_search key (key x) (vdata v) = (m, False)" for m
    using binary_search_not_found(1)[OF _ that] assms(2) by (simp add: vec_wf_def)
  then show ?thesis
    using assms(1) unfolding vector_put_def vector_find_or_insert_def
    by (auto simp: Let_def split: prod.splits if_splits)
qed

lemma mset_update_key:
  assumes "ksorted key xs" "i < length xs" "key x = key (xs ! i)"
  shows "mset (xs[i := x]) = add_mset x (filter_mset (\<lambda>y. key y \<noteq> key x) (mset xs))"
proof -
  have "filter_mset (\<lambda>y. key y \<noteq> key x) (mset xs) = mset (remove_at i xs)"
    using mset_remove_key[OF assms(1,2)] assms(3) by simp
  moreover have "mset (xs[i := x]) = add_mset x (mset (remove_at i xs))"
    using assms(2) by (simp add: upd_conv_take_nth_drop remove_at_def)
  ultimately show ?thesis by simp
qed

lemma vector_put_wf:
  assumes "vec_wf key v"
  shows "vec_wf key (vector_put key x v)"
    and "mset (vdata (vector_put key x v)) = add_mset x (filter_mset (\<lambda>y. key y \<noteq> key x) (mset (vdata v)))"
proof -
  have s: "ksorted key (vdata v)" "vsize v \<le> vspace v" using assms by (simp_all add: vec_wf_def)
  have "vec_wf key (vector_put key x v) \<and>
    mset (vdata (vector_put key x v)) = add_mset x (filter_mset (\<lambda>y. key y \<noteq> key x) (mset (vdata v)))"
  proof (rule vector_find_or_insert_cases[OF assms, of True x "key x"], goal_cases)
    case (1 m)
    then show ?case
      using s ksorted_update[OF s(1)] mset_update_key[OF s(1)] by (simp add: vector_put_def vec_wf_def)
  next
    case (3 v' m)
    then show ?case
      using s ksorted_insert_at[OF s(1), of m x] filter_key_absent[of "key x" key "vdata v"]
      by (simp add: vector_put_def vec_wf_def vector_find_eq_find[OF assms] find_key_None)
  qed simp
  then show "vec_wf key (vector_put key x v)"
    "mset (vdata (vector_put key x v)) = add_mset x (filter_mset (\<lambda>y. key y \<noteq> key x) (mset (vdata v)))"
    by simp_all
qed

lemma shrink_space_bound: "sz \<le> space \<Longrightarrow> sz \<le> shrink_space sz space \<and> shrink_space sz space \<le> space"
proof (induction sz space rule: shrink_space.induct)
  case (1 sz space)
  show ?case
  proof (cases "sz * 4 < space \<and> 4 \<le> space")
    case True
    then have "sz \<le> space div 2" by linarith
    moreover have "shrink_space sz space = shrink_space sz (space div 2)"
      using True by (simp add: shrink_space.simps[of sz space])
    ultimately show ?thesis
      using 1 True by fastforce
  qed (use 1 in \<open>auto simp: shrink_space.simps[of sz space]\<close>)
qed

lemma vector_fixup_peers_data [simp]: "vdata (vector_fixup_peers v) = vdata v"
  by (simp add: vector_fixup_peers_def)

lemma vector_fixup_peers_wf: "vec_wf key v \<Longrightarrow> vec_wf key (vector_fixup_peers v)"
  using shrink_space_bound[of "vsize v" "vspace v"] by (auto simp: vec_wf_def vector_fixup_peers_def)

lemma vector_remove_torrent_data [simp]:
  "m < vsize v \<Longrightarrow> vdata (vector_remove_torrent v m) = remove_at m (vdata v)"
  by (auto simp: vector_remove_torrent_def Let_def)

lemma vector_remove_torrent_wf:
  "vec_wf key v \<Longrightarrow> m < vsize v \<Longrightarrow> vec_wf key (vector_remove_torrent v m)"
  by (auto simp: vec_wf_def vector_remove_torrent_def Let_def ksorted_remove_at)

lemma vector_remove_member_wf:
  "vec_wf key v \<Longrightarrow> m < vsize v \<Longrightarrow> vec_wf key (vector_remove_member v m)"
  unfolding vector_remove_member_def
  by (rule vector_fixup_peers_wf) (auto simp: vec_wf_def ksorted_remove_at)

lemma vector_del_wf:
  assumes "vec_wf key v" and rm: "\<And>m. m < vsize v \<Longrightarrow> vec_wf key (rm v m) \<and> vdata (rm v m) = remove_at m (vdata v)"
  shows "vec_wf key (vector_del key rm k v)"
    and "mset (vdata (vector_del key rm k v)) = filter_mset (\<lambda>y. key y \<noteq> k) (mset (vdata v))"
proof -
  obtain m e where bs: "binary_search key k (vdata v) = (m, e)"
    by fastforce
  have s: "ksorted key (vdata v)" using assms(1) by (simp add: vec_wf_def)
  have "vec_wf key (vector_del key rm k v) \<and>
    mset (vdata (vector_del key rm k v)) = filter_mset (\<lambda>y. key y \<noteq> k) (mset (vdata v))"
  proof (cases e)
    case True
    then have "m < vsize v" "key (vdata v ! m) = k"
      using binary_search_found[OF s] bs by simp_all
    then show ?thesis
      using True bs rm mset_remove_key[OF s, of m] by (simp add: vector_del_def)
  next
    case False
    then show ?thesis
      using assms(1) bs binary_search_exact_iff[OF s, of k] filter_key_absent[of k key "vdata v"]
      by (simp add: vector_del_def)
  qed
  then show "vec_wf key (vector_del key rm k v)"
    "mset (vdata (vector_del key rm k v)) = filter_mset (\<lambda>y. key y \<noteq> k) (mset (vdata v))"
    by simp_all
qed

interpretation torrent_vec: keyed_store "vec_wf t_hash" vdata t_hash
    "vector_find t_hash" "vector_put t_hash" "vector_del t_hash vector_remove_torrent"
proof (standard, goal_cases)
  case 1 then show ?case by (simp add: vec_wf_def ksorted_distinct)
next
  case 2 then show ?case by (rule vector_find_eq_find)
next
  case 3 then show ?case by (rule vector_put_wf)
next
  case 4 then show ?case by (rule vector_put_wf)
next
  case (5 s k) then show ?case by (intro vector_del_wf) (auto simp: vector_remove_torrent_wf)
next
  case (6 s k) then show ?case by (intro vector_del_wf) (auto simp: vector_remove_torrent_wf)
qed

lemma vector_remove_member_data [simp]: "vdata (vector_remove_member v m) = remove_at m (vdata v)"
  by (simp add: vector_remove_member_def)

text \<open>An array of 2 to 256 peer vectors addressed by the peer hash is a store as well.\<close>

definition bucket_num :: "nat \<Rightarrow> bool" where
  "bucket_num n \<longleftrightarrow> 1 < n \<and> n \<le> 256"

lemma vector_hash_peer_bound:
  assumes "0 < n" "n \<le> 256"
  shows "vector_hash_peer pk n < n"
proof -
  have lt: "unat ((w :: u32) mod of_nat n) < n" for w
    using assms by (simp add: unat_mod unat_of_nat)
  have "unat (ucast ((w :: u32) mod of_nat n) :: byte) < n" for w
    unfolding unat_ucast_byte by (rule le_less_trans[OF mod_less_eq_dividend lt])
  then show ?thesis
    by (simp add: vector_hash_peer_def Let_def)
qed

interpretation peer_arr: bucketed_store "vec_wf peer_key" vdata peer_key
    "vector_find peer_key" "vector_put peer_key" "vector_del peer_key vector_remove_member"
    bucket_num "\<lambda>n k. vector_hash_peer k n"
proof (standard, goal_cases)
  case 1 then show ?case by (simp add: vec_wf_def ksorted_distinct)
next
  case 2 then show ?case by (rule vector_find_eq_find)
next
  case 3 then show ?case by (rule vector_put_wf)
next
  case 4 then show ?case by (rule vector_put_wf)
next
  case (5 s k) then show ?case by (intro vector_del_wf) (auto simp: vector_remove_member_wf)
next
  case (6 s k) then show ?case by (intro vector_del_wf) (auto simp: vector_remove_member_wf)
next
  case 7 then show ?case by (simp add: vector_hash_peer_bound bucket_num_def)
qed

section \<open>The peers of a torrent, flat or bucketed\<close>

abbreviation peer_arr_wf :: "ot_peer ot_vector list \<Rightarrow> bool" where
  "peer_arr_wf \<equiv> arr_inv bucket_num (\<lambda>n k. vector_hash_peer k n) (vec_wf peer_key) vdata peer_key"

fun peers_wf :: "peers_vector \<Rightarrow> bool" where
  "peers_wf (Flat v) = vec_wf peer_key v"
| "peers_wf (Buckets bs) = peer_arr_wf bs"

definition peers_lookup :: "peers_vector \<Rightarrow> bytes \<Rightarrow> ot_peer option" where
  "peers_lookup pv k = vector_find peer_key (bucket_list pv ! peer_bucket pv k) k"

definition peers_put :: "ot_peer \<Rightarrow> peers_vector \<Rightarrow> peers_vector" where
  "peers_put p pv = set_bucket pv (peer_bucket pv (peer_key p))
     (vector_put peer_key p (bucket_list pv ! peer_bucket pv (peer_key p)))"

definition peers_del :: "bytes \<Rightarrow> peers_vector \<Rightarrow> peers_vector" where
  "peers_del k pv = fst (vector_remove_peer pv k)"

text \<open>
  The marker that tells buckets from a plain vector is reliable: on well-formed peers the
  test on size and space is true exactly for an array of buckets, so no code path reads one
  as the other.
\<close>

lemma has_buckets_iff: "peers_wf pv \<Longrightarrow> has_buckets pv \<longleftrightarrow> (\<exists>bs. pv = Buckets bs)"
  by (cases pv) (auto simp: has_buckets_def vec_wf_def arr_inv_def bucket_num_def)

lemma peer_bucket_Flat: "vec_wf peer_key v \<Longrightarrow> peer_bucket (Flat v) k = 0"
  by (simp add: peer_bucket_def vec_wf_def)

lemma peer_bucket_Buckets: "peer_arr_wf bs \<Longrightarrow> peer_bucket (Buckets bs) k = vector_hash_peer k (length bs)"
  by (auto simp: peer_bucket_def arr_inv_def bucket_num_def)

lemma peers_lookup_simps:
  "vec_wf peer_key v \<Longrightarrow> peers_lookup (Flat v) k = vector_find peer_key v k"
  "peer_arr_wf bs \<Longrightarrow> peers_lookup (Buckets bs) k = arr_lookup (\<lambda>n k. vector_hash_peer k n) (vector_find peer_key) bs k"
  by (simp_all add: peers_lookup_def peer_bucket_Flat peer_bucket_Buckets arr_lookup_def)

lemma peers_put_simps:
  "vec_wf peer_key v \<Longrightarrow> peers_put p (Flat v) = Flat (vector_put peer_key p v)"
  "peer_arr_wf bs \<Longrightarrow> peers_put p (Buckets bs)
     = Buckets (arr_put (\<lambda>n k. vector_hash_peer k n) peer_key (vector_put peer_key) p bs)"
  by (simp_all add: peers_put_def peer_bucket_Flat peer_bucket_Buckets arr_put_def Let_def)

lemma peers_del_simps:
  "vec_wf peer_key v \<Longrightarrow> peers_del k (Flat v) = Flat (vector_del peer_key vector_remove_member k v)"
  "peer_arr_wf bs \<Longrightarrow> peers_del k (Buckets bs)
     = Buckets (arr_del (\<lambda>n k. vector_hash_peer k n) (vector_del peer_key vector_remove_member) k bs)"
proof -
  assume "vec_wf peer_key v"
  then show "peers_del k (Flat v) = Flat (vector_del peer_key vector_remove_member k v)"
    by (auto simp: peers_del_def vector_remove_peer_def peer_bucket_Flat vector_del_def
        vector_remove_member_def binary_search_def bsearch_loop.simps split: prod.split)
next
  assume wf: "peer_arr_wf bs"
  then have "length bs \<noteq> 0" by (auto simp: arr_inv_def bucket_num_def)
  then show "peers_del k (Buckets bs)
     = Buckets (arr_del (\<lambda>n k. vector_hash_peer k n) (vector_del peer_key vector_remove_member) k bs)"
    using wf by (simp add: peers_del_def vector_remove_peer_def peer_bucket_Buckets arr_del_def
        vector_del_def vector_remove_member_def Let_def split: prod.split)
qed

interpretation pstore: keyed_store peers_wf peers_entries peer_key peers_lookup peers_put peers_del
proof (standard, goal_cases)
  case (1 s) then show ?case
    using peer_arr.distinct_keys peer_arr.arr.distinct_keys by (cases s) (auto simp: arr_entries_def)
next
  case (2 s k) then show ?case
    using peer_arr.lookup_entries peer_arr.arr.lookup_entries
    by (cases s) (auto simp: arr_entries_def peers_lookup_simps)
next
  case (3 s x) then show ?case
    using peer_arr.invar_put peer_arr.arr.invar_put by (cases s) (auto simp: peers_put_simps)
next
  case (4 s x) then show ?case
    using peer_arr.entries_put peer_arr.arr.entries_put
    by (cases s) (auto simp: peers_put_simps arr_entries_def)
next
  case (5 s k) then show ?case
    using peer_arr.invar_del peer_arr.arr.invar_del by (cases s) (auto simp: peers_del_simps)
next
  case (6 s k) then show ?case
    using peer_arr.entries_del peer_arr.arr.entries_del
    by (cases s) (auto simp: peers_del_simps arr_entries_def)
qed

section \<open>Redistribution keeps the peers\<close>

lemma dest_bucket_bound: "0 < n \<Longrightarrow> n \<le> 256 \<Longrightarrow> dest_bucket n p < n"
  by (simp add: dest_bucket_def vector_hash_peer_bound)

lemma grow_bucket_pos: "0 < b \<Longrightarrow> 0 < grow_bucket b tmp"
  by (induction b tmp rule: grow_bucket.induct) (subst grow_bucket.simps, simp)

lemma distribute_spec:
  assumes "distribute n ps bs as = (Some bs', as')"
    and n: "0 < n" "n \<le> 256"
    and "length bs = n" "\<forall>i < n. vsize (bs ! i) \<le> vspace (bs ! i) \<and> 0 < vspace (bs ! i)"
  shows "length bs' = n \<and> (\<forall>i < n. vsize (bs' ! i) \<le> vspace (bs' ! i)
      \<and> vdata (bs' ! i) = vdata (bs ! i) @ filter (\<lambda>p. dest_bucket n p = i) ps)"
  using assms(1,4,5)
proof (induction ps arbitrary: bs as)
  case (Cons p ps)
  let ?d = "dest_bucket n p"
  have d: "?d < n" using n by (rule dest_bucket_bound)
  define sp where "sp = (if vsize (bs ! ?d) + 1 > vspace (bs ! ?d) then vspace (bs ! ?d) * 2 else vspace (bs ! ?d))"
  define bs1 where "bs1 = bs[?d := (bs ! ?d)\<lparr>vdata := vdata (bs ! ?d) @ [p], vspace := sp\<rparr>]"
  obtain as1 where rec: "distribute n ps bs1 as1 = (Some bs', as')"
    using Cons.prems(1) by (auto simp: bs1_def sp_def Let_def split: if_splits prod.splits)
  have "\<forall>i < n. vsize (bs1 ! i) \<le> vspace (bs1 ! i) \<and> 0 < vspace (bs1 ! i)"
    using Cons.prems(2,3) d by (auto simp: bs1_def sp_def nth_list_update)
  moreover have "length bs1 = n"
    using Cons.prems(2) by (simp add: bs1_def)
  ultimately have IH: "length bs' = n \<and> (\<forall>i < n. vsize (bs' ! i) \<le> vspace (bs' ! i)
      \<and> vdata (bs' ! i) = vdata (bs1 ! i) @ filter (\<lambda>p. dest_bucket n p = i) ps)"
    using Cons.IH[OF rec] by blast
  moreover have "vdata (bs1 ! i) = vdata (bs ! i) @ (if ?d = i then [p] else [])" if "i < n" for i
    using that Cons.prems(2) d by (auto simp: bs1_def nth_list_update)
  ultimately show ?case
    by auto
qed simp

lemma mset_concat_filter:
  assumes "\<And>x. x \<in> set xs \<Longrightarrow> f x < n"
  shows "mset (concat (map (\<lambda>i. filter (\<lambda>x. f x = i) xs) [0..<n])) = mset xs"
  using assms
proof (induction n arbitrary: xs)
  case (Suc n)
  let ?ys = "filter (\<lambda>x. f x \<noteq> n) xs"
  have e: "map (\<lambda>i. filter (\<lambda>x. f x = i) xs) [0..<n] = map (\<lambda>i. filter (\<lambda>x. f x = i) ?ys) [0..<n]"
    by (auto intro!: map_cong filter_cong)
  have "mset (concat (map (\<lambda>i. filter (\<lambda>x. f x = i) xs) [0..<n])) = mset ?ys"
    unfolding e by (rule Suc.IH) (use Suc.prems less_antisym in fastforce)
  then show ?case
    using multiset_partition[of "mset xs" "\<lambda>x. f x = n"] by (simp add: add.commute)
next
  case 0
  then show ?case by (cases xs) auto
qed

lemma distribute_sorted_wf:
  assumes "distribute n ps (replicate n \<lparr>vdata = [], vspace = sp\<rparr>) as = (Some bs, as')"
    and n: "0 < n" "n \<le> 256" and sp: "0 < sp" and ps: "distinct (map peer_key ps)"
  shows "length bs = n" "\<forall>i < n. vec_wf peer_key (vector_sort (bs ! i))"
    "\<forall>i < n. \<forall>p \<in> set (vdata (vector_sort (bs ! i))). dest_bucket n p = i"
    "mset (concat (map vdata (map vector_sort bs))) = mset ps"
proof -
  have spec: "length bs = n" "\<And>i. i < n \<Longrightarrow> vsize (bs ! i) \<le> vspace (bs ! i)"
    "\<And>i. i < n \<Longrightarrow> vdata (bs ! i) = filter (\<lambda>p. dest_bucket n p = i) ps"
    using distribute_spec[OF assms(1) n, simplified] sp by auto
  show "length bs = n" by (rule spec)
  show "\<forall>i < n. vec_wf peer_key (vector_sort (bs ! i))"
    using ps spec(2,3) by (auto simp: vector_sort_def vec_wf_def intro!: ksorted_sort_key distinct_map_filter)
  show "\<forall>i < n. \<forall>p \<in> set (vdata (vector_sort (bs ! i))). dest_bucket n p = i"
    using spec(3) by (simp add: vector_sort_def)
  have "map vdata bs = map (\<lambda>i. filter (\<lambda>p. dest_bucket n p = i) ps) [0..<n]"
    using spec(1,3) by (intro nth_equalityI) auto
  then have "mset (concat (map vdata bs)) = mset ps"
    using mset_concat_filter[of ps "dest_bucket n" n] dest_bucket_bound[OF n] by simp
  moreover have "mset (concat (map vdata (map vector_sort bs))) = mset (concat (map vdata bs))"
    by (simp add: mset_concat comp_def vector_sort_def)
  ultimately show "mset (concat (map vdata (map vector_sort bs))) = mset ps"
    by simp
qed

lemma num_buckets_new_bound:
  "0 < old \<Longrightarrow> old \<le> 256 \<Longrightarrow> 0 < num_buckets_new pc old \<and> num_buckets_new pc old \<le> 256"
  by (auto simp: num_buckets_new_def)

lemma peers_wf_num_old:
  "peers_wf pv \<Longrightarrow> 0 < (if has_buckets pv then peers_size pv else 1) \<and> (if has_buckets pv then peers_size pv else 1) \<le> 256"
  by (cases pv) (auto simp: has_buckets_def vec_wf_def arr_inv_def bucket_num_def)

lemma vector_redistribute_buckets_cases:
  assumes "peers_wf (pl_peers pl)"
  obtains (same) as' where "vector_redistribute_buckets pl as = (pl, as')"
  | (moved) as' pv where "vector_redistribute_buckets pl as = (pl\<lparr>pl_peers := pv\<rparr>, as')"
      "peers_wf pv" "mset (peers_entries pv) = mset (peers_entries (pl_peers pl))"
      "length (bucket_list pv) = num_buckets_new (unat (peer_count pl)) (length (bucket_list (pl_peers pl)))"
proof -
  let ?pv = "pl_peers pl"
  define old where "old = (if has_buckets ?pv then peers_size ?pv else 1)"
  define n where "n = num_buckets_new (unat (peer_count pl)) old"
  have len: "old = length (bucket_list ?pv)"
    using assms by (cases ?pv) (auto simp: old_def has_buckets_def vec_wf_def arr_inv_def bucket_num_def)
  have n: "0 < n" "n \<le> 256"
    using num_buckets_new_bound peers_wf_num_old[OF assms] by (auto simp: n_def old_def)
  show thesis
  proof (cases "\<exists>as'. vector_redistribute_buckets pl as = (pl, as')")
    case False
    then obtain as2 as3 bs sp where d: "distribute n (peers_entries ?pv) (replicate n \<lparr>vdata = [], vspace = sp\<rparr>) as2 = (Some bs, as3)"
      and sp: "sp = grow_bucket 2 (unat (peer_count pl) div n)"
      and r: "vector_redistribute_buckets pl as
        = (pl\<lparr>pl_peers := if n > 1 then Buckets (map vector_sort bs) else Flat (map vector_sort bs ! 0)\<rparr>, as3)"
      unfolding vector_redistribute_buckets_def Let_def n_def old_def
      by (auto split: if_splits prod.splits option.splits)
    let ?new = "if n > 1 then Buckets (map vector_sort bs) else Flat (map vector_sort bs ! 0)"
    have "0 < sp" using sp grow_bucket_pos by simp
    note D = distribute_sorted_wf[OF d n \<open>0 < sp\<close> pstore.distinct_keys[OF assms]]
    have one: "map vector_sort bs = [map vector_sort bs ! 0]" if "\<not> n > 1"
      using that n D(1) by (cases bs) auto
    show thesis
    proof (rule moved[OF r])
      show "peers_wf ?new"
        using D(1-3) n by (auto simp: arr_inv_def bucket_num_def dest_bucket_def)
      show "mset (peers_entries ?new) = mset (peers_entries ?pv)"
        using D(4) arg_cong[OF one, of "\<lambda>xs. mset (concat (map vdata xs))"]
        by (cases "n > 1") (simp_all del: map_map nth_map)
      show "length (bucket_list ?new) = num_buckets_new (unat (peer_count pl)) (length (bucket_list ?pv))"
        using D(1) n by (auto simp flip: len n_def)
    qed
  qed (use same in blast)
qed

end
