(* ===== verification/OT_Mutex.thy ===== *)
theory OT_Mutex
  imports OT_Vector
begin

text \<open>
  \<^verbatim>\<open>src/ot_mutex.c\<close>: the array of torrent vectors and its per-bucket locks, the global torrent
  count, and the queue of background tasks. The lock operations are shown to give mutual
  exclusion per bucket and an exact torrent count under every interleaving of threads.
\<close>

section \<open>Bucket locks\<close>

abbreviation (input) OT_BUCKET_COUNT :: nat where "OT_BUCKET_COUNT \<equiv> 1024"
abbreviation (input) OT_BUCKET_COUNT_SHIFT :: nat where "OT_BUCKET_COUNT_SHIFT \<equiv> 22"
abbreviation (input) OT_MAX_THREADS :: nat where "OT_MAX_THREADS \<equiv> 64"

text \<open>
  \<^verbatim>\<open>bucket_locklist\<close> with \<^verbatim>\<open>bucket_locklist_count\<close> is a list. Each operation runs inside
  \<^verbatim>\<open>bucket_mutex\<close>, so it is one step; \<^verbatim>\<open>mutex_bucket_lock\<close> is None while \<^verbatim>\<open>bucket_check\<close> makes it wait.
\<close>

record bucket_state =
  bucket_locklist :: "nat list"
  all_torrents :: "ot_torrent ot_vector list"
  g_torrent_count :: size_t

definition bucket_check :: "nat list \<Rightarrow> nat \<Rightarrow> bool" where
  "bucket_check ll bucket \<longleftrightarrow> length ll = OT_MAX_THREADS \<or> (\<exists>i < length ll. ll ! i = bucket)"

definition bucket_push :: "nat list \<Rightarrow> nat \<Rightarrow> nat list" where
  "bucket_push ll bucket = ll @ [bucket]"

definition bucket_remove :: "nat list \<Rightarrow> nat \<Rightarrow> nat list" where
  "bucket_remove ll bucket =
    (let i = length (takeWhile (\<lambda>b. b \<noteq> bucket) ll) in
     if i = length ll then ll else remove_at i ll)"

definition mutex_bucket_lock :: "nat \<Rightarrow> bucket_state \<Rightarrow> bucket_state option" where
  "mutex_bucket_lock bucket s =
    (if bucket_check (bucket_locklist s) bucket then None
     else Some (s\<lparr>bucket_locklist := bucket_push (bucket_locklist s) bucket\<rparr>))"

definition bucket_of_hash :: "bytes \<Rightarrow> nat" where
  "bucket_of_hash h = unat (drop_bit OT_BUCKET_COUNT_SHIFT (rd32 h))"

definition mutex_bucket_lock_by_hash :: "bytes \<Rightarrow> bucket_state \<Rightarrow> bucket_state option" where
  "mutex_bucket_lock_by_hash h s = mutex_bucket_lock (bucket_of_hash h) s"

definition mutex_bucket_unlock :: "nat \<Rightarrow> int \<Rightarrow> bucket_state \<Rightarrow> bucket_state" where
  "mutex_bucket_unlock bucket delta s =
    s\<lparr>bucket_locklist := bucket_remove (bucket_locklist s) bucket,
      g_torrent_count := g_torrent_count s + of_int delta\<rparr>"

definition mutex_bucket_unlock_by_hash :: "bytes \<Rightarrow> int \<Rightarrow> bucket_state \<Rightarrow> bucket_state" where
  "mutex_bucket_unlock_by_hash h delta s = mutex_bucket_unlock (bucket_of_hash h) delta s"

definition mutex_get_torrent_count :: "bucket_state \<Rightarrow> size_t" where
  "mutex_get_torrent_count s = g_torrent_count s"

definition mutex_init :: "bucket_state" where
  "mutex_init = \<lparr>bucket_locklist = [], all_torrents = replicate OT_BUCKET_COUNT \<lparr>vdata = [], vspace = 0\<rparr>,
                 g_torrent_count = 0\<rparr>"

text \<open>The vector a lock gives access to, and writing it back.\<close>

abbreviation torrents_at :: "bucket_state \<Rightarrow> nat \<Rightarrow> ot_torrent ot_vector" where
  "torrents_at s b \<equiv> all_torrents s ! b"

definition set_torrents :: "nat \<Rightarrow> ot_torrent ot_vector \<Rightarrow> bucket_state \<Rightarrow> bucket_state" where
  "set_torrents b v s = s\<lparr>all_torrents := (all_torrents s)[b := v]\<rparr>"

lemma bucket_of_hash_bound [simp]: "bucket_of_hash h < OT_BUCKET_COUNT"
proof -
  have "unat (drop_bit 22 w) < 1024" for w :: u32
    using unsigned_less[where 'a = nat, of w] by (simp add: drop_bit_eq_div unat_div less_mult_imp_div_less)
  then show ?thesis
    by (simp add: bucket_of_hash_def)
qed

lemma bucket_check_iff: "bucket_check ll b \<longleftrightarrow> length ll = OT_MAX_THREADS \<or> b \<in> set ll"
  by (auto simp: bucket_check_def in_set_conv_nth)

lemma bucket_remove_eq_remove1: "bucket_remove ll b = remove1 b ll"
  by (induction ll) (auto simp: bucket_remove_def remove_at_def Let_def)

text \<open>All torrents together: an array of torrent vectors addressed by the first bits of the hash.\<close>

interpretation torrent_arr: bucketed_store "vec_wf t_hash" vdata t_hash
    "vector_find t_hash" "vector_put t_hash" "vector_del t_hash vector_remove_torrent"
    "\<lambda>n. n = OT_BUCKET_COUNT" "\<lambda>n. bucket_of_hash"
  by standard simp

abbreviation torrents_wf :: "ot_torrent ot_vector list \<Rightarrow> bool" where
  "torrents_wf \<equiv> arr_inv (\<lambda>n. n = OT_BUCKET_COUNT) (\<lambda>n. bucket_of_hash) (vec_wf t_hash) vdata t_hash"

definition torrents_entries :: "ot_torrent ot_vector list \<Rightarrow> ot_torrent list" where
  "torrents_entries vs = concat (map vdata vs)"

section \<open>Threads\<close>

text \<open>
  What a thread that works on torrents does: it asks for a bucket, waits for it, changes the
  vector it locked while it keeps count of the torrents it added or removed, and unlocks with that
  count as \<^verbatim>\<open>delta_torrentcount\<close>. No thread of the program holds two buckets.
\<close>

datatype tstate = Idle | Waiting nat | Holding nat int

inductive thread_step :: "bucket_state \<times> tstate list \<Rightarrow> bucket_state \<times> tstate list \<Rightarrow> bool" where
  request: "t < length ts \<Longrightarrow> ts ! t = Idle \<Longrightarrow> b < OT_BUCKET_COUNT \<Longrightarrow>
    thread_step (s, ts) (s, ts[t := Waiting b])"
| acquire: "t < length ts \<Longrightarrow> ts ! t = Waiting b \<Longrightarrow> mutex_bucket_lock b s = Some s' \<Longrightarrow>
    thread_step (s, ts) (s', ts[t := Holding b 0])"
| work: "t < length ts \<Longrightarrow> ts ! t = Holding b d \<Longrightarrow>
    thread_step (s, ts) (set_torrents b v s, ts[t := Holding b (d + (int (vsize v) - int (vsize (torrents_at s b))))])"
| release: "t < length ts \<Longrightarrow> ts ! t = Holding b d \<Longrightarrow>
    thread_step (s, ts) (mutex_bucket_unlock b d s, ts[t := Idle])"

inductive_simps thread_step_iff: "thread_step (s, ts) (s', ts')"

fun held :: "tstate \<Rightarrow> nat list" where
  "held (Holding b d) = [b]"
| "held _ = []"

fun pending :: "tstate \<Rightarrow> int" where
  "pending (Holding b d) = d"
| "pending _ = 0"

definition held_buckets :: "tstate list \<Rightarrow> nat list" where
  "held_buckets ts = concat (map held ts)"

fun in_range :: "tstate \<Rightarrow> bool" where
  "in_range Idle = True"
| "in_range (Waiting b) = (b < OT_BUCKET_COUNT)"
| "in_range (Holding b d) = (b < OT_BUCKET_COUNT)"

definition locks_inv :: "bucket_state \<times> tstate list \<Rightarrow> bool" where
  "locks_inv c = (case c of (s, ts) \<Rightarrow>
     length (all_torrents s) = OT_BUCKET_COUNT \<and> list_all in_range ts \<and>
     mset (bucket_locklist s) = mset (held_buckets ts) \<and> distinct (bucket_locklist s) \<and>
     length (bucket_locklist s) \<le> OT_MAX_THREADS \<and>
     g_torrent_count s + of_int (sum_list (map pending ts)) = of_nat (length (torrents_entries (all_torrents s))))"

lemma mset_held_update:
  "t < length ts \<Longrightarrow> mset (held (ts ! t)) + mset (held_buckets (ts[t := x])) = mset (held x) + mset (held_buckets ts)"
  using mset_arr_entries_update[of t ts held x] arr_entries_split[of t ts held]
  by (simp add: held_buckets_def arr_entries_def)

lemma sum_list_update_eq:
  "t < length xs \<Longrightarrow> sum_list (map f (xs[t := x])) = sum_list (map f xs) - f (xs ! t) + (f x :: int)"
  by (subst (2) id_take_nth_drop[of t xs]) (simp_all add: upd_conv_take_nth_drop)

lemma length_torrents_update:
  assumes "b < length vs"
  shows "int (length (torrents_entries (vs[b := v]))) = int (length (torrents_entries vs)) + (int (vsize v) - int (vsize (vs ! b)))"
  using assms arr_entries_split[of b vs vdata] 
  by (simp add: torrents_entries_def arr_entries_def upd_conv_take_nth_drop)

lemma in_range_nth: "list_all in_range ts \<Longrightarrow> t < length ts \<Longrightarrow> in_range (ts ! t)"
  by (simp add: list_all_length)

lemma in_range_update: "list_all in_range ts \<Longrightarrow> in_range x \<Longrightarrow> list_all in_range (ts[t := x])"
  by (auto simp: list_all_iff dest!: subsetD[OF set_update_subset_insert])

lemma locks_inv_init: "locks_inv (mutex_init, replicate n Idle)"
  by (induction n) (auto simp: locks_inv_def mutex_init_def held_buckets_def torrents_entries_def sum_list_replicate list_all_iff)

lemma locks_inv_step:
  assumes "thread_step (s, ts) (s', ts')" "locks_inv (s, ts)"
  shows "locks_inv (s', ts')"
  using assms(1)
proof (cases rule: thread_step.cases)
  case (request t b)
  then show ?thesis
    using assms(2) mset_held_update[of t ts "Waiting b"] sum_list_update_eq[of t ts pending "Waiting b"]
    by (auto simp: locks_inv_def in_range_update)
next
  case (acquire t b)
  then have s': "s' = s\<lparr>bucket_locklist := bucket_locklist s @ [b]\<rparr>" "\<not> bucket_check (bucket_locklist s) b"
    by (auto simp: mutex_bucket_lock_def bucket_push_def split: if_splits)
  have "b < OT_BUCKET_COUNT"
    using in_range_nth[of ts t] acquire assms(2) by (simp add: locks_inv_def)
  then show ?thesis
    using acquire s' assms(2) mset_held_update[of t ts "Holding b 0"] sum_list_update_eq[of t ts pending "Holding b 0"]
    by (auto simp: locks_inv_def in_range_update bucket_check_iff)
next
  case (work t b d v)
  let ?dv = "int (vsize v) - int (vsize (torrents_at s b))"
  let ?h = "Holding b (d + ?dv)"
  have b: "b < OT_BUCKET_COUNT"
    using in_range_nth[of ts t] work assms(2) by (simp add: locks_inv_def)
  then have "int (length (torrents_entries ((all_torrents s)[b := v])))
      = int (length (torrents_entries (all_torrents s))) + ?dv"
    using assms(2) by (intro length_torrents_update) (simp add: locks_inv_def)
  then have "(of_nat (length (torrents_entries ((all_torrents s)[b := v]))) :: size_t)
      = of_nat (length (torrents_entries (all_torrents s))) + of_int ?dv"
    by (metis of_int_add of_int_of_nat_eq)
  moreover have "sum_list (map pending (ts[t := ?h])) = sum_list (map pending ts) + ?dv"
    using sum_list_update_eq[of t ts pending ?h] work by simp
  ultimately have "g_torrent_count s + of_int (sum_list (map pending (ts[t := ?h])))
      = of_nat (length (torrents_entries ((all_torrents s)[b := v])))"
    using assms(2) by (simp only: locks_inv_def prod.case of_int_add) (simp only: add.assoc[symmetric])
  then show ?thesis
    using work b assms(2) mset_held_update[of t ts ?h]
    by (simp add: locks_inv_def in_range_update set_torrents_def)
next
  case (release t b d)
  have "b \<in># mset (held_buckets ts)"
    using release arr_entries_split[of t ts held] by (simp add: held_buckets_def arr_entries_def)
  then have "b \<in> set (bucket_locklist s)"
    using assms(2) by (simp add: locks_inv_def flip: set_mset_mset)
  moreover have "mset (held_buckets ts) - {#b#} = mset (held_buckets (ts[t := Idle]))"
    using mset_held_update[of t ts Idle] release
    by (metis add_mset_add_single add_mset_remove_trivial add.commute add_0 held.simps(1,2) mset.simps)
  ultimately show ?thesis
    using release assms(2) sum_list_update_eq[of t ts pending Idle]
    by (auto simp: locks_inv_def in_range_update mutex_bucket_unlock_def bucket_remove_eq_remove1 length_remove1)
qed

lemma locks_inv_reachable:
  "thread_step\<^sup>*\<^sup>* c c' \<Longrightarrow> locks_inv c \<Longrightarrow> locks_inv c'"
  by (induction rule: rtranclp_induct) (auto intro: locks_inv_step)

lemma held_distinct_threads:
  assumes "distinct (held_buckets ts)" "t < u" "u < length ts" "ts ! t = Holding b d" "ts ! u = Holding b e"
  shows False
proof -
  have "held_buckets ts = held_buckets (take u ts) @ held (ts ! u) @ held_buckets (drop (Suc u) ts)"
    using arr_entries_split[of u ts held] assms(3) by (simp add: held_buckets_def arr_entries_def)
  moreover have "ts ! t \<in> set (take u ts)"
    using assms(2,3) by (auto simp: in_set_conv_nth intro!: exI[of _ t])
  then have "b \<in> set (held_buckets (take u ts))"
    using assms(4) by (force simp: held_buckets_def)
  ultimately show False
    using assms(1,5) by auto
qed

text \<open>
  C15: Mutual exclusion. In every state that threads reach from the initial one by requesting,
  acquiring, working on and releasing buckets, two different threads never hold the same bucket, and
  the lock list holds exactly the buckets that threads hold, never more than its capacity.
\<close>

theorem bucket_mutual_exclusion:
  assumes "thread_step\<^sup>*\<^sup>* (mutex_init, replicate n Idle) (s, ts)"
    and "t < length ts" "u < length ts" "ts ! t = Holding b d" "ts ! u = Holding b e"
  shows "t = u \<and> set (bucket_locklist s) = set (held_buckets ts) \<and> length (bucket_locklist s) \<le> OT_MAX_THREADS"
proof (intro conjI)
  have inv: "locks_inv (s, ts)"
    using locks_inv_reachable[OF assms(1) locks_inv_init] .
  then have d: "distinct (held_buckets ts)" "mset (bucket_locklist s) = mset (held_buckets ts)"
    using mset_eq_imp_distinct_iff by (auto simp: locks_inv_def)
  then show "t = u"
    using held_distinct_threads[OF d(1)] assms(2-5) by (meson linorder_neqE_nat)
  show "set (bucket_locklist s) = set (held_buckets ts)"
    using d(2) by (rule mset_eq_setD)
  show "length (bucket_locklist s) \<le> OT_MAX_THREADS"
    using inv by (simp add: locks_inv_def)
qed

lemma reach_example:
  "thread_step\<^sup>*\<^sup>* (mutex_init, replicate 2 Idle) (mutex_init\<lparr>bucket_locklist := [5]\<rparr>, [Holding 5 0, Waiting 5])"
proof -
  have "thread_step (mutex_init, [Idle, Idle]) (mutex_init, [Waiting 5, Idle])"
    using request[of 0 "[Idle, Idle]" 5 mutex_init] by simp
  moreover have "thread_step (mutex_init, [Waiting 5, Idle]) (mutex_init, [Waiting 5, Waiting 5])"
    using request[of 1 "[Waiting 5, Idle]" 5 mutex_init] by simp
  moreover have "mutex_bucket_lock 5 mutex_init = Some (mutex_init\<lparr>bucket_locklist := [5]\<rparr>)"
    by (simp add: mutex_bucket_lock_def mutex_init_def bucket_check_def bucket_push_def)
  then have "thread_step (mutex_init, [Waiting 5, Waiting 5]) (mutex_init\<lparr>bucket_locklist := [5]\<rparr>, [Holding 5 0, Waiting 5])"
    using acquire[of 0 "[Waiting 5, Waiting 5]" 5 mutex_init] by simp
  ultimately show ?thesis
    by (simp add: numeral_2_eq_2)
qed

theorem bucket_mutual_exclusion_witness:
  "set (bucket_locklist (mutex_init\<lparr>bucket_locklist := [5]\<rparr>)) = set (held_buckets [Holding 5 0, Waiting 5])"
  using bucket_mutual_exclusion[OF reach_example, of 0 0 5 0 0] by simp





section \<open>The task queue\<close>

text \<open>
  Tasks are a linked list in the code and a list here. A task has no id until a worker picks it up;
  finished tasks carry their result and the type \<^verbatim>\<open>TASK_DONE\<close> until the main loop fetches it. Every operation
  runs inside \<^verbatim>\<open>tasklist_mutex\<close>; \<^verbatim>\<open>mutex_workqueue_poptask\<close> is None while it waits for a task.
\<close>

abbreviation (input) TASK_CLASS_MASK :: u32 where "TASK_CLASS_MASK \<equiv> 0x0f00"
abbreviation (input) TASK_DONE :: u32 where "TASK_DONE \<equiv> 0x0f00"

record ot_task =
  taskid :: size_t
  tasktype :: u32
  sock :: int
  iovec :: "bytes list"

record task_state =
  next_free_taskid :: size_t
  tasklist :: "ot_task list"

definition task_init :: task_state where
  "task_init = \<lparr>next_free_taskid = 1, tasklist = []\<rparr>"

definition mutex_workqueue_pushtask :: "bool \<Rightarrow> int \<Rightarrow> u32 \<Rightarrow> task_state \<Rightarrow> task_state \<times> int" where
  "mutex_workqueue_pushtask ok s ty st =
    (if \<not> ok then (st, -1)
     else (st\<lparr>tasklist := tasklist st @ [\<lparr>taskid = 0, tasktype = ty, sock = s, iovec = []\<rparr>]\<rparr>, 0))"

text \<open>
  \<^verbatim>\<open>mutex_workqueue_canceltask\<close> and \<^verbatim>\<open>mutex_workqueue_pushsuccess\<close> walk the list by overwriting its head,
  \<^verbatim>\<open>*task = (*task)->next\<close>, so the tasks they walk over leave the list.
\<close>

definition mutex_workqueue_canceltask :: "int \<Rightarrow> task_state \<Rightarrow> task_state" where
  "mutex_workqueue_canceltask s st =
    st\<lparr>tasklist := (case dropWhile (\<lambda>t. sock t \<noteq> s) (tasklist st) of [] \<Rightarrow> [] | t # ts \<Rightarrow> ts)\<rparr>"

fun pick_task :: "u32 \<Rightarrow> size_t \<Rightarrow> ot_task list \<Rightarrow> (u32 \<times> ot_task list) option" where
  "pick_task c tid [] = None"
| "pick_task c tid (t # ts) =
    (if TASK_CLASS_MASK AND tasktype t \<noteq> c \<or> taskid t \<noteq> 0
     then (case pick_task c tid ts of None \<Rightarrow> None | Some (ty, ts') \<Rightarrow> Some (ty, t # ts'))
     else Some (tasktype t, t\<lparr>taskid := tid\<rparr> # ts))"

definition mutex_workqueue_poptask :: "u32 \<Rightarrow> task_state \<Rightarrow> (task_state \<times> size_t \<times> u32) option" where
  "mutex_workqueue_poptask c st =
    (let tid = next_free_taskid st + 1 in
     case pick_task c tid (tasklist st) of
       None \<Rightarrow> None
     | Some (ty, ts) \<Rightarrow> Some (st\<lparr>next_free_taskid := tid, tasklist := ts\<rparr>, tid, ty))"

definition mutex_workqueue_pushsuccess :: "size_t \<Rightarrow> task_state \<Rightarrow> task_state" where
  "mutex_workqueue_pushsuccess tid st =
    st\<lparr>tasklist := (case dropWhile (\<lambda>t. taskid t \<noteq> tid) (tasklist st) of [] \<Rightarrow> [] | t # ts \<Rightarrow> ts)\<rparr>"

fun put_result :: "size_t \<Rightarrow> bytes list \<Rightarrow> ot_task list \<Rightarrow> ot_task list option" where
  "put_result tid iov [] = None"
| "put_result tid iov (t # ts) =
    (if taskid t \<noteq> tid then map_option (\<lambda>ts'. t # ts') (put_result tid iov ts)
     else Some (t\<lparr>iovec := iov, tasktype := TASK_DONE\<rparr> # ts))"

definition mutex_workqueue_pushresult :: "size_t \<Rightarrow> bytes list \<Rightarrow> task_state \<Rightarrow> task_state \<times> int" where
  "mutex_workqueue_pushresult tid iov st =
    (case put_result tid iov (tasklist st) of
       None \<Rightarrow> (st, -1)
     | Some ts \<Rightarrow> (st\<lparr>tasklist := ts\<rparr>, 0))"

fun take_done :: "ot_task list \<Rightarrow> (ot_task \<times> ot_task list) option" where
  "take_done [] = None"
| "take_done (t # ts) =
    (if tasktype t \<noteq> TASK_DONE
     then (case take_done ts of None \<Rightarrow> None | Some (d, ts') \<Rightarrow> Some (d, t # ts'))
     else Some (t, ts))"

definition mutex_workqueue_popresult :: "task_state \<Rightarrow> task_state \<times> int \<times> bytes list" where
  "mutex_workqueue_popresult st =
    (case take_done (tasklist st) of
       None \<Rightarrow> (st, -1, [])
     | Some (t, ts) \<Rightarrow> (st\<lparr>tasklist := ts\<rparr>, sock t, iovec t))"

lemma pick_task_Some:
  assumes "pick_task c tid ts = Some (ty, ts')"
  obtains pre t post where "ts = pre @ t # post" "ts' = pre @ t\<lparr>taskid := tid\<rparr> # post" "ty = tasktype t"
    "TASK_CLASS_MASK AND tasktype t = c" "taskid t = 0"
    "\<forall>x \<in> set pre. TASK_CLASS_MASK AND tasktype x \<noteq> c \<or> taskid x \<noteq> 0"
  using assms
proof (induction ts arbitrary: ts' thesis)
  case (Cons a ts)
  show ?case
  proof (cases "TASK_CLASS_MASK AND tasktype a \<noteq> c \<or> taskid a \<noteq> 0")
    case True
    then obtain ts1 where 1: "pick_task c tid ts = Some (ty, ts1)" "ts' = a # ts1"
      using Cons.prems(2) by (auto split: option.splits)
    from Cons.IH[OF _ 1(1)] obtain pre t post where
      *: "ts = pre @ t # post" "ts1 = pre @ t\<lparr>taskid := tid\<rparr> # post" "ty = tasktype t"
        "TASK_CLASS_MASK AND tasktype t = c" "taskid t = 0"
        "\<forall>x \<in> set pre. TASK_CLASS_MASK AND tasktype x \<noteq> c \<or> taskid x \<noteq> 0"
      by metis
    show ?thesis
      using * True 1(2) by (intro Cons.prems(1)[of "a # pre" t post]) simp_all
  next
    case False
    then show ?thesis
      using Cons.prems(2) by (intro Cons.prems(1)[of "[]" a ts]) simp_all
  qed
qed simp

lemma put_result_append:
  "\<forall>x \<in> set pre. taskid x \<noteq> taskid t \<Longrightarrow>
    put_result (taskid t) iov (pre @ t # post) = Some (pre @ t\<lparr>iovec := iov, tasktype := TASK_DONE\<rparr> # post)"
  by (induction pre) auto

lemma take_done_append:
  "\<forall>x \<in> set pre. tasktype x \<noteq> TASK_DONE \<Longrightarrow> tasktype t = TASK_DONE \<Longrightarrow> take_done (pre @ t # post) = Some (t, pre @ post)"
  by (induction pre) auto

text \<open>The ids given so far: no task carries a later one.\<close>

definition tasks_wf :: "task_state \<Rightarrow> bool" where
  "tasks_wf st \<longleftrightarrow> (\<forall>t \<in> set (tasklist st). taskid t \<le> next_free_taskid st)"



text \<open>
  C39: Cancelling the task of a socket loses every task queued ahead of it: what remains is exactly what was
  queued behind the first task of that socket, and nothing at all when the socket has no task. Clients
  whose requests were queued earlier never get an answer.
\<close>

theorem canceltask_drops_earlier_tasks:
  assumes "tasklist st = pre @ t # post" "\<forall>x \<in> set pre. sock x \<noteq> sock t"
  shows "tasklist (mutex_workqueue_canceltask (sock t) st) = post \<and>
    (\<forall>s. s \<notin> sock ` set (tasklist st) \<longrightarrow> tasklist (mutex_workqueue_canceltask s st) = [])"
proof (intro conjI allI impI)
  have "dropWhile (\<lambda>x. sock x \<noteq> sock t) (pre @ t # post) = t # post"
    using assms(2) by (simp add: dropWhile_append2)
  then show "tasklist (mutex_workqueue_canceltask (sock t) st) = post"
    using assms(1) by (simp add: mutex_workqueue_canceltask_def)
  fix s assume "s \<notin> sock ` set (tasklist st)"
  then have "dropWhile (\<lambda>x. sock x \<noteq> s) (tasklist st) = []"
    by (auto simp: dropWhile_eq_Nil_conv)
  then show "tasklist (mutex_workqueue_canceltask s st) = []"
    unfolding mutex_workqueue_canceltask_def by (simp del: dropWhile_eq_Nil_conv)
qed

theorem canceltask_drops_earlier_tasks_witness:
  "let a = \<lparr>taskid = 0, tasktype = 0x0201, sock = 7, iovec = []\<rparr>; b = \<lparr>taskid = 0, tasktype = 0x0201, sock = 9, iovec = []\<rparr>
   in tasklist (mutex_workqueue_canceltask 9 \<lparr>next_free_taskid = 1, tasklist = [a, b]\<rparr>) = []"
  using canceltask_drops_earlier_tasks[of "\<lparr>next_free_taskid = 1,
      tasklist = [\<lparr>taskid = 0, tasktype = 0x0201, sock = 7, iovec = []\<rparr>, \<lparr>taskid = 0, tasktype = 0x0201, sock = 9, iovec = []\<rparr>]\<rparr>"
      "[\<lparr>taskid = 0, tasktype = 0x0201, sock = 7, iovec = []\<rparr>]"
      "\<lparr>taskid = 0, tasktype = 0x0201, sock = 9, iovec = []\<rparr>" "[]"]
  by simp

end
