(* ===== verification/OT_Clean.thy ===== *)
theory OT_Clean
  imports OT_Mutex
begin

text \<open>
  \<^verbatim>\<open>src/ot_clean.c\<close>: ageing and expiry of peers. A peer stores the minutes between the last announce
  and the \<^verbatim>\<open>base\<close> of its torrent; cleaning moves the base to the present, adds the elapsed minutes
  to every peer and drops the peers that reach \<^verbatim>\<open>OT_PEER_TIMEOUT\<close>. The abstract view is the \<^verbatim>\<open>swarm\<close>: for each
  peer its flags and the minute it was last seen. Cleaning is shown to drop from the swarm exactly the
  peers not seen for \<^verbatim>\<open>OT_PEER_TIMEOUT\<close> minutes and to change nothing else.
\<close>

section \<open>Cleaning a bucket, a torrent\<close>

fun clean_scan :: "int \<Rightarrow> ot_peer list \<Rightarrow> ot_peer list \<times> ot_peer list" where
  "clean_scan timedout [] = ([], [])"
| "clean_scan timedout (p # ps) =
    (let timediff = timedout + uint (peer_time p) in
     if timediff \<ge> OT_PEER_TIMEOUT then ([], p # ps)
     else case clean_scan timedout ps of (aged, rest) \<Rightarrow> (p\<lparr>peer_time := of_int timediff\<rparr> # aged, rest))"

fun clean_compact :: "int \<Rightarrow> ot_peer list \<Rightarrow> ot_peer list \<times> nat" where
  "clean_compact timedout [] = ([], 0)"
| "clean_compact timedout (p # ps) =
    (let timediff = timedout + uint (peer_time p) in
     case clean_compact timedout ps of (kept, removed_seeders) \<Rightarrow>
       if timediff < OT_PEER_TIMEOUT then (p\<lparr>peer_time := of_int timediff\<rparr> # kept, removed_seeders)
       else (kept, if is_seeding p then Suc removed_seeders else removed_seeders))"

text \<open>The surviving peers, the number of removed ones (the return value) and the removed seeders.\<close>

definition clean_single_bucket :: "ot_peer list \<Rightarrow> int \<Rightarrow> ot_peer list \<times> nat \<times> nat" where
  "clean_single_bucket ps timedout =
    (let (aged, rest) = clean_scan timedout ps; (kept, removed_seeders) = clean_compact timedout rest in
     (aged @ kept, length ps - length (aged @ kept), removed_seeders))"

fun clean_buckets :: "int \<Rightarrow> ot_peer ot_vector list \<Rightarrow> ot_peer ot_vector list \<times> nat \<times> nat" where
  "clean_buckets timedout [] = ([], 0, 0)"
| "clean_buckets timedout (b # bs) =
    (let (kept, removed_peers, removed_seeders) = clean_single_bucket (vdata b) timedout;
         b' = b\<lparr>vdata := kept\<rparr>;
         b'' = (if vsize b' < removed_peers then vector_fixup_peers b' else b');
         (bs', rp, rs) = clean_buckets timedout bs in
     (b'' # bs', removed_peers + rp, removed_seeders + rs))"

definition set_bucket_list :: "peers_vector \<Rightarrow> ot_peer ot_vector list \<Rightarrow> peers_vector" where
  "set_bucket_list pv bs = (case pv of Flat v \<Rightarrow> Flat (bs ! 0) | Buckets _ \<Rightarrow> Buckets bs)"

text \<open>The passes over all buckets, the redistribution and the new base.\<close>

definition clean_timedout_peers :: "int \<Rightarrow> int \<Rightarrow> ot_peerlist \<Rightarrow> allocs \<Rightarrow> ot_peerlist \<times> allocs" where
  "clean_timedout_peers now timedout pl as =
    (let (bs, removed_peers, removed_seeders) = clean_buckets timedout (bucket_list (pl_peers pl));
         pl1 = pl\<lparr>pl_peers := set_bucket_list (pl_peers pl) bs,
                  peer_count := peer_count pl - of_nat removed_peers,
                  seed_count := seed_count pl - of_nat removed_seeders\<rparr>;
         (pl2, as2) = (if unat (peer_count pl1) > OT_PEER_BUCKET_MINCOUNT \<or> has_buckets (pl_peers pl1)
                       then vector_redistribute_buckets pl1 as else (pl1, as)) in
     (pl2\<lparr>pl_base := if peer_count pl2 \<noteq> 0 then now else now - OT_PEER_TIMEOUT\<rparr>, as2))"

text \<open>The first component is the return value: whether the torrent timed out.\<close>

definition clean_peerlist :: "int \<Rightarrow> ot_peerlist \<Rightarrow> allocs \<Rightarrow> bool \<times> ot_peerlist \<times> allocs" where
  "clean_peerlist now pl as =
    (let timedout = now - pl_base pl in
     if timedout = 0 then (False, pl, as)
     else if timedout > OT_TORRENT_TIMEOUT then (True, pl, as)
     else if timedout > OT_PEER_TIMEOUT \<and> peer_count pl = 0 then (down_count pl = 0, pl, as)
     else (False, clean_timedout_peers now (if timedout > OT_PEER_TIMEOUT then OT_PEER_TIMEOUT else timedout) pl as))"

definition clean_single_torrent :: "int \<Rightarrow> ot_torrent \<Rightarrow> allocs \<Rightarrow> bool \<times> ot_torrent \<times> allocs" where
  "clean_single_torrent now t as =
    (case clean_peerlist now (peer_list t) as of (gone, pl, as') \<Rightarrow> (gone, t\<lparr>peer_list := pl\<rparr>, as'))"

section \<open>What a bucket pass does\<close>

definition peer_age :: "int \<Rightarrow> ot_peer \<Rightarrow> ot_peer" where
  "peer_age timedout p = p\<lparr>peer_time := of_int (timedout + uint (peer_time p))\<rparr>"

definition peer_stays :: "int \<Rightarrow> ot_peer \<Rightarrow> bool" where
  "peer_stays timedout p \<longleftrightarrow> timedout + uint (peer_time p) < OT_PEER_TIMEOUT"

lemma peer_age_simps [simp]:
  "peer_key (peer_age d p) = peer_key p" "is_seeding (peer_age d p) = is_seeding p"
  "peer_wf (peer_age d p) = peer_wf p" "peer_flag (peer_age d p) = peer_flag p"
  by (simp_all add: peer_age_def)

lemma peer_age_time:
  "0 \<le> d \<Longrightarrow> peer_stays d p \<Longrightarrow> uint (peer_time (peer_age d p)) = d + uint (peer_time p)"
  using unsigned_greater_eq[where 'a = int, of "peer_time p"]
  by (simp add: peer_age_def peer_stays_def uint_word_of_int_eq take_bit_int_eq_self del: of_int_add)

lemma clean_scan_eq:
  "clean_scan d ps = (aged, rest) \<Longrightarrow> aged @ map (peer_age d) (filter (peer_stays d) rest) = map (peer_age d) (filter (peer_stays d) ps)
    \<and> filter (\<lambda>p. \<not> peer_stays d p) rest = filter (\<lambda>p. \<not> peer_stays d p) ps"
  by (induction d ps arbitrary: aged rest rule: clean_scan.induct)
     (auto simp: Let_def peer_age_def peer_stays_def split: if_splits prod.splits)

lemma clean_compact_eq:
  "clean_compact d ps = (map (peer_age d) (filter (peer_stays d) ps), length (filter is_seeding (filter (\<lambda>p. \<not> peer_stays d p) ps)))"
  by (induction d ps rule: clean_compact.induct) (auto simp: Let_def peer_age_def peer_stays_def)

lemma clean_single_bucket_eq:
  "clean_single_bucket ps d =
    (map (peer_age d) (filter (peer_stays d) ps), length (filter (\<lambda>p. \<not> peer_stays d p) ps),
     length (filter is_seeding (filter (\<lambda>p. \<not> peer_stays d p) ps)))"
proof -
  obtain aged rest where s: "clean_scan d ps = (aged, rest)"
    by fastforce
  have "length ps = length (filter (peer_stays d) ps) + length (filter (\<lambda>p. \<not> peer_stays d p) ps)"
    by (simp add: sum_length_filter_compl)
  then show ?thesis
    using clean_scan_eq[OF s] s
    by (simp add: clean_single_bucket_def clean_compact_eq del: filter_filter length_append)
qed

lemma clean_buckets_eq:
  assumes "clean_buckets d bs = (bs', rp, rs)"
  shows "map vdata bs' = map (\<lambda>b. map (peer_age d) (filter (peer_stays d) (vdata b))) bs"
    and "rp = length (filter (\<lambda>p. \<not> peer_stays d p) (concat (map vdata bs)))"
    and "rs = length (filter is_seeding (filter (\<lambda>p. \<not> peer_stays d p) (concat (map vdata bs))))"
    and "\<forall>i < length bs. vec_wf peer_key (bs ! i) \<longrightarrow> vec_wf peer_key (bs' ! i)"
proof -
  have wf: "vec_wf peer_key (b\<lparr>vdata := map (peer_age d) (filter (peer_stays d) (vdata b))\<rparr>)" if "vec_wf peer_key b" for b
    using that ksorted_map[OF _ ksorted_filter, of "peer_stays d" "vdata b" peer_key "peer_age d"]
      order_trans[OF length_filter_le, of "vdata b" "vspace b" "peer_stays d"]
    by (simp add: vec_wf_def del: map_map)
  have "map vdata bs' = map (\<lambda>b. map (peer_age d) (filter (peer_stays d) (vdata b))) bs \<and>
    rp = length (filter (\<lambda>p. \<not> peer_stays d p) (concat (map vdata bs))) \<and>
    rs = length (filter is_seeding (filter (\<lambda>p. \<not> peer_stays d p) (concat (map vdata bs)))) \<and>
    (\<forall>i < length bs. vec_wf peer_key (bs ! i) \<longrightarrow> vec_wf peer_key (bs' ! i))"
    using assms
  proof (induction bs arbitrary: bs' rp rs)
    case (Cons b bs)
    then show ?case
      by (auto simp: Let_def clean_single_bucket_eq nth_Cons vector_fixup_peers_wf wf split: prod.splits if_splits nat.splits)
  qed simp
  then show "map vdata bs' = map (\<lambda>b. map (peer_age d) (filter (peer_stays d) (vdata b))) bs"
    "rp = length (filter (\<lambda>p. \<not> peer_stays d p) (concat (map vdata bs)))"
    "rs = length (filter is_seeding (filter (\<lambda>p. \<not> peer_stays d p) (concat (map vdata bs))))"
    "\<forall>i < length bs. vec_wf peer_key (bs ! i) \<longrightarrow> vec_wf peer_key (bs' ! i)"
    by blast+
qed

section \<open>The invariant of a peer list\<close>

definition pl_wf :: "ot_peerlist \<Rightarrow> bool" where
  "pl_wf pl \<longleftrightarrow> peers_wf (pl_peers pl) \<and>
     (\<forall>p \<in> set (peers_entries (pl_peers pl)). peer_wf p \<and> uint (peer_time p) < OT_PEER_TIMEOUT) \<and>
     peer_count pl = of_nat (length (peers_entries (pl_peers pl))) \<and>
     seed_count pl = of_nat (length (filter is_seeding (peers_entries (pl_peers pl))))"

text \<open>Peers are told apart by six bytes, so there are never more than fit into the counters.\<close>

lemma peers_entries_bound:
  assumes "peers_wf pv" "\<forall>p \<in> set (peers_entries pv). peer_wf p"
  shows "length (peers_entries pv) \<le> 2 ^ 48"
proof -
  have "set (map peer_key (peers_entries pv)) \<subseteq> {xs. set xs \<subseteq> UNIV \<and> length xs = 6}"
    using assms(2) by (auto simp: length_peer_key)
  then have "card (set (map peer_key (peers_entries pv))) \<le> card {xs :: bytes. set xs \<subseteq> UNIV \<and> length xs = 6}"
    by (intro card_mono finite_lists_length_eq) simp_all
  also have "\<dots> = 2 ^ 48"
    by (subst card_lists_length_eq) (simp_all add: card_word)
  finally show ?thesis
    using pstore.distinct_keys[OF assms(1)] by (metis distinct_card length_map)
qed

lemma pl_wf_peer_count: "pl_wf pl \<Longrightarrow> unat (peer_count pl) = length (peers_entries (pl_peers pl))"
  using peers_entries_bound[of "pl_peers pl"] by (auto simp: pl_wf_def intro!: unat_size_t)

lemma pl_wf_seed_count: "pl_wf pl \<Longrightarrow> unat (seed_count pl) = length (filter is_seeding (peers_entries (pl_peers pl)))"
  using peers_entries_bound[of "pl_peers pl"]
  by (auto simp: pl_wf_def intro!: unat_size_t le_less_trans[OF length_filter_le])

text \<open>The abstract view: flags and minute of the last announce of each peer.\<close>

definition swarm :: "ot_peerlist \<Rightarrow> bytes \<Rightarrow> (byte \<times> int) option" where
  "swarm pl k = map_option (\<lambda>p. (peer_flag p, pl_base pl - uint (peer_time p))) (peers_lookup (pl_peers pl) k)"

definition expire :: "int \<Rightarrow> (bytes \<Rightarrow> (byte \<times> int) option) \<Rightarrow> bytes \<Rightarrow> (byte \<times> int) option" where
  "expire now m k = (case m k of None \<Rightarrow> None | Some (f, seen) \<Rightarrow> if now - seen < OT_PEER_TIMEOUT then Some (f, seen) else None)"

lemma swarm_empty: "pl_wf pl \<Longrightarrow> peers_entries (pl_peers pl) = [] \<Longrightarrow> swarm pl = (\<lambda>k. None)"
  by (rule ext) (simp add: swarm_def pstore.lookup_entries pl_wf_def)

lemma pl_wf_swarm_some:
  "pl_wf pl \<Longrightarrow> swarm pl k = Some (f, seen) \<Longrightarrow> \<exists>p \<in> set (peers_entries (pl_peers pl)). peer_key p = k \<and> f = peer_flag p \<and> seen = pl_base pl - uint (peer_time p)"
  by (auto simp: swarm_def pl_wf_def pstore.lookup_Some_iff)

lemma find_map_filter:
  assumes "\<And>p. key (f p) = key p" "distinct (map key ps)"
  shows "find (\<lambda>p. key p = k) (map f (filter P ps)) = (case find (\<lambda>p. key p = k) ps of None \<Rightarrow> None | Some p \<Rightarrow> if P p then Some (f p) else None)"
  using assms(2)
proof (induction ps)
  case (Cons p ps)
  show ?case
  proof (cases "key p = k")
    case True
    then have "find (\<lambda>p. key p = k) (map f (filter P ps)) = None"
      using Cons.prems assms(1) by (auto simp: find_None_iff image_iff)
    then show ?thesis
      using True assms(1) by simp
  qed (use Cons assms(1) in auto)
qed simp

lemma set_bucket_list_wf:
  assumes "peers_wf pv" "clean_buckets d (bucket_list pv) = (bs, rp, rs)"
  shows "peers_wf (set_bucket_list pv bs)"
    and "peers_entries (set_bucket_list pv bs) = map (peer_age d) (filter (peer_stays d) (peers_entries pv))"
proof -
  note c = clean_buckets_eq[OF assms(2)]
  have len: "length bs = length (bucket_list pv)"
    using c(1) by (metis length_map)
  have data: "vdata (bs ! i) = map (peer_age d) (filter (peer_stays d) (vdata (bucket_list pv ! i)))"
    if "i < length (bucket_list pv)" for i
    using c(1) len that by (metis length_map nth_map)
  show "peers_wf (set_bucket_list pv bs)"
  proof (cases pv)
    case (Flat v)
    then show ?thesis using assms(1) c(4) by (simp add: set_bucket_list_def)
  next
    case (Buckets bs0)
    then show ?thesis
      using assms(1) c(4) len data by (auto simp: set_bucket_list_def arr_inv_def)
  qed
  have "concat (map vdata bs) = map (peer_age d) (filter (peer_stays d) (concat (map vdata (bucket_list pv))))"
    unfolding c(1) by (induction "bucket_list pv" arbitrary: pv) (simp_all add: filter_concat map_concat comp_def)
  then show "peers_entries (set_bucket_list pv bs) = map (peer_age d) (filter (peer_stays d) (peers_entries pv))"
    using len by (cases pv) (auto simp: set_bucket_list_def length_Suc_conv)
qed

section \<open>Cleaning a torrent\<close>

lemma length_filter_split:
  assumes "\<And>x. P (f x) = P x"
  shows "length (filter P (map f (filter Q xs))) + length (filter P (filter (\<lambda>x. \<not> Q x) xs)) = length (filter P xs)"
  using assms by (induction xs) auto

text \<open>The list after the bucket passes, before it is redistributed and gets its new base.\<close>

lemma clean_pass:
  assumes wf: "pl_wf pl" and d: "0 \<le> d" and c: "clean_buckets d (bucket_list (pl_peers pl)) = (bs, rp, rs)"
  defines "pv \<equiv> set_bucket_list (pl_peers pl) bs"
  shows "peers_wf pv" "peers_entries pv = map (peer_age d) (filter (peer_stays d) (peers_entries (pl_peers pl)))"
    "\<forall>p \<in> set (peers_entries pv). peer_wf p \<and> uint (peer_time p) < OT_PEER_TIMEOUT"
    "peer_count pl - of_nat rp = of_nat (length (peers_entries pv))"
    "seed_count pl - of_nat rs = of_nat (length (filter is_seeding (peers_entries pv)))"
proof -
  let ?ps = "peers_entries (pl_peers pl)"
  have pw: "peers_wf (pl_peers pl)" using wf by (simp add: pl_wf_def)
  show "peers_wf pv" and e: "peers_entries pv = map (peer_age d) (filter (peer_stays d) ?ps)"
    using set_bucket_list_wf[OF pw c] by (simp_all add: pv_def)
  show "\<forall>p \<in> set (peers_entries pv). peer_wf p \<and> uint (peer_time p) < OT_PEER_TIMEOUT"
    using wf d by (auto simp: e pl_wf_def peer_age_time) (auto simp: peer_stays_def)
  have rp: "rp = length (filter (\<lambda>p. \<not> peer_stays d p) ?ps)"
    and rs: "rs = length (filter is_seeding (filter (\<lambda>p. \<not> peer_stays d p) ?ps))"
    using clean_buckets_eq(2,3)[OF c] by (simp_all add: peers_entries_def)
  have "length (peers_entries pv) + rp = length ?ps"
    by (simp add: e rp sum_length_filter_compl)
  from of_nat_minus_word[OF this] show "peer_count pl - of_nat rp = of_nat (length (peers_entries pv))"
    using wf by (simp add: pl_wf_def)
  have "length (filter is_seeding (peers_entries pv)) + rs = length (filter is_seeding ?ps)"
    unfolding e rs by (rule length_filter_split) simp
  from of_nat_minus_word[OF this] show "seed_count pl - of_nat rs = of_nat (length (filter is_seeding (peers_entries pv)))"
    using wf by (simp add: pl_wf_def)
qed

lemma pl_wf_redistribute:
  assumes "pl_wf pl"
  obtains pv as' where "vector_redistribute_buckets pl as = (pl\<lparr>pl_peers := pv\<rparr>, as')"
    "pl_wf (pl\<lparr>pl_peers := pv\<rparr>)" "mset (peers_entries pv) = mset (peers_entries (pl_peers pl))"
proof (rule vector_redistribute_buckets_cases[of pl as])
  show "peers_wf (pl_peers pl)" using assms by (simp add: pl_wf_def)
next
  fix as' assume "vector_redistribute_buckets pl as = (pl, as')"
  then show thesis using assms that[of "pl_peers pl" as'] by simp
next
  fix as' pv
  assume *: "vector_redistribute_buckets pl as = (pl\<lparr>pl_peers := pv\<rparr>, as')" "peers_wf pv"
    "mset (peers_entries pv) = mset (peers_entries (pl_peers pl))"
  then have "length (peers_entries pv) = length (peers_entries (pl_peers pl))" "set (peers_entries pv) = set (peers_entries (pl_peers pl))"
    "length (filter is_seeding (peers_entries pv)) = length (filter is_seeding (peers_entries (pl_peers pl)))"
    by (metis size_mset) (metis *(3) mset_eq_setD, metis *(3) mset_filter size_mset)
  then show thesis
    using assms * by (intro that[of pv as']) (auto simp: pl_wf_def)
qed

lemma swarm_redistribute:
  assumes "peers_wf (pl_peers pl)" "peers_wf pv" "mset (peers_entries pv) = mset (peers_entries (pl_peers pl))"
  shows "swarm (pl\<lparr>pl_peers := pv\<rparr>) = swarm pl"
  using assms find_key_cong_mset[OF pstore.distinct_keys[OF assms(2)] assms(3)]
  by (simp add: swarm_def pstore.lookup_entries fun_eq_iff)

lemma clean_peerlist_cases:
  assumes wf: "pl_wf pl" and now: "pl_base pl \<le> now" "now - pl_base pl \<le> OT_TORRENT_TIMEOUT"
  obtains (fresh) "pl_base pl = now" "clean_peerlist now pl as = (False, pl, as)"
  | (idle) "OT_PEER_TIMEOUT < now - pl_base pl" "peers_entries (pl_peers pl) = []"
      "clean_peerlist now pl as = (down_count pl = 0, pl, as)"
  | (cleaned) d pl' as' where "0 < d" "d = min (now - pl_base pl) OT_PEER_TIMEOUT"
      "clean_peerlist now pl as = (False, pl', as')" "pl_wf pl'" "down_count pl' = down_count pl"
      "mset (peers_entries (pl_peers pl')) = mset (map (peer_age d) (filter (peer_stays d) (peers_entries (pl_peers pl))))"
      "pl_base pl' = (if peers_entries (pl_peers pl') \<noteq> [] then now else now - OT_PEER_TIMEOUT)"
proof -
  define d where "d = (if now - pl_base pl > OT_PEER_TIMEOUT then OT_PEER_TIMEOUT else now - pl_base pl)"
  obtain bs rp rs where c: "clean_buckets d (bucket_list (pl_peers pl)) = (bs, rp, rs)"
    by (metis prod_cases3)
  define pl1 where "pl1 = pl\<lparr>pl_peers := set_bucket_list (pl_peers pl) bs,
    peer_count := peer_count pl - of_nat rp, seed_count := seed_count pl - of_nat rs\<rparr>"
  define r where "r = (if unat (peer_count pl1) > 512 \<or> has_buckets (pl_peers pl1) then vector_redistribute_buckets pl1 as else (pl1, as))"
  have "0 \<le> d" using now by (simp add: d_def)
  note pass = clean_pass[OF wf this c]
  have wf1: "pl_wf pl1"
    using pass by (simp add: pl_wf_def pl1_def)
  obtain pv as' where r: "r = (pl1\<lparr>pl_peers := pv\<rparr>, as')" "pl_wf (pl1\<lparr>pl_peers := pv\<rparr>)"
      "mset (peers_entries pv) = mset (peers_entries (pl_peers pl1))"
  proof (cases "unat (peer_count pl1) > 512 \<or> has_buckets (pl_peers pl1)")
    case True
    then show ?thesis
      using pl_wf_redistribute[OF wf1, of as] that unfolding r_def by metis
  next
    case False
    then show ?thesis
      using wf1 that[of "pl_peers pl1" as] unfolding r_def by simp
  qed
  have pc: "peer_count pl1 = 0 \<longleftrightarrow> peers_entries pv = []"
    using pl_wf_peer_count[OF r(2)] by (auto simp flip: length_0_conv unat_eq_zero)
  let ?pl' = "(pl1\<lparr>pl_peers := pv\<rparr>)\<lparr>pl_base := if peer_count pl1 \<noteq> 0 then now else now - 45\<rparr>"
  have z: "peer_count pl = 0 \<longleftrightarrow> peers_entries (pl_peers pl) = []"
    using pl_wf_peer_count[OF wf] by (auto simp flip: length_0_conv unat_eq_zero)
  consider "pl_base pl = now" | "pl_base pl \<noteq> now" "now - pl_base pl > 45" "peer_count pl = 0"
    | "pl_base pl \<noteq> now" "\<not> (now - pl_base pl > 45 \<and> peer_count pl = 0)"
    by blast
  then show thesis
  proof cases
    case 1
    then show thesis by (intro fresh) (auto simp: clean_peerlist_def)
  next
    case 2
    then show thesis using now z by (intro idle) (auto simp: clean_peerlist_def)
  next
    case 3
    have "clean_timedout_peers now d pl as = (?pl', as')"
      using r(1) unfolding clean_timedout_peers_def c Let_def prod.case pl1_def[symmetric] r_def[symmetric] by simp
    then have "clean_peerlist now pl as = (False, ?pl', as')"
      using 3 now unfolding clean_peerlist_def Let_def d_def[symmetric] by auto
    moreover have "pl_wf ?pl'"
      using r(2) by (simp add: pl_wf_def)
    ultimately show thesis
      using 3 now r(3) pass(2) pc by (intro cleaned[of d ?pl' as']) (auto simp: d_def pl1_def)
  qed
qed

lemma lookup_cleaned:
  assumes "peers_wf pv" "peers_wf pv'" "mset (peers_entries pv') = mset (map (peer_age d) (filter (peer_stays d) (peers_entries pv)))"
  shows "peers_lookup pv' k = (case peers_lookup pv k of None \<Rightarrow> None | Some p \<Rightarrow> if peer_stays d p then Some (peer_age d p) else None)"
  using find_key_cong_mset[OF pstore.distinct_keys[OF assms(2)] assms(3), of k]
    find_map_filter[of peer_key "peer_age d" "peers_entries pv" k "peer_stays d"] pstore.distinct_keys[OF assms(1)]
  by (simp add: pstore.lookup_entries assms(1,2))

lemma clean_peerlist_swarm:
  assumes wf: "pl_wf pl" and now: "pl_base pl \<le> now" "now - pl_base pl \<le> OT_TORRENT_TIMEOUT"
    and c: "clean_peerlist now pl as = (gone, pl', as')"
  shows "pl_wf pl' \<and> swarm pl' = expire now (swarm pl) \<and> down_count pl' = down_count pl \<and>
    (gone \<longrightarrow> peers_entries (pl_peers pl) = [] \<and> down_count pl = 0) \<and>
    (peers_entries (pl_peers pl') \<noteq> [] \<longrightarrow> pl_base pl' = now)"
proof (rule clean_peerlist_cases[OF wf now, of as], goal_cases)
  case 1
  have "expire now (swarm pl) = swarm pl"
  proof (rule ext)
    fix k show "expire now (swarm pl) k = swarm pl k"
      using pl_wf_swarm_some[OF wf, of k] wf 1(1) by (fastforce simp: expire_def pl_wf_def split: option.split)
  qed
  then show ?case using 1 c wf by simp
next
  case 2
  then show ?case
    using c wf swarm_empty[OF wf 2(2)] by (auto simp: expire_def)
next
  case (3 d pl1 as1)
  have eq: "gone = False" "pl' = pl1" using 3(3) c by simp_all
  have pw: "peers_wf (pl_peers pl)" "peers_wf (pl_peers pl1)" using wf 3(4) by (simp_all add: pl_wf_def)
  have "swarm pl1 k = expire now (swarm pl) k" for k
  proof (cases "peers_lookup (pl_peers pl) k")
    case None
    then show ?thesis
      using lookup_cleaned[OF pw 3(6), of k] by (simp add: swarm_def expire_def)
  next
    case (Some p)
    have nonneg: "0 \<le> uint (peer_time p)" by simp
    show ?thesis
    proof (cases "peer_stays d p")
      case True
      then have l: "peers_lookup (pl_peers pl1) k = Some (peer_age d p)"
        using lookup_cleaned[OF pw 3(6), of k] Some by simp
      then have "pl_base pl1 = now"
        using 3(7) pw(2) by (auto simp: pstore.lookup_Some_iff)
      moreover have "d = now - pl_base pl"
        using True 3(2) nonneg by (simp add: peer_stays_def)
      ultimately show ?thesis
        using l True Some 3(1) by (simp add: swarm_def expire_def peer_age_time peer_stays_def)
    next
      case False
      then have "peers_lookup (pl_peers pl1) k = None"
        using lookup_cleaned[OF pw 3(6), of k] Some by simp
      then show ?thesis
        using False Some 3(2) nonneg by (auto simp: swarm_def expire_def peer_stays_def)
    qed
  qed
  then show ?case
    using 3 eq by (auto simp: fun_eq_iff)
qed

text \<open>
  C10: Cleaning a torrent expires exactly the silent peers. For a torrent that has not idled for
  \<^verbatim>\<open>OT_TORRENT_TIMEOUT\<close> minutes, \<^verbatim>\<open>clean_single_torrent\<close> keeps the invariant of the peer list (sorted buckets, peers in
  their hash bucket, exact counters, ages below the timeout), and the swarm afterwards is the swarm
  before without the peers last seen \<^verbatim>\<open>OT_PEER_TIMEOUT\<close> minutes ago or longer: no other peer is lost, and nobody's
  flags or last-seen minute change, whatever allocations fail on the way. The torrent is reported as timed out only
  if it has neither peers nor completed downloads.
\<close>

theorem clean_single_torrent_expires:
  assumes "pl_wf (peer_list t)" "pl_base (peer_list t) \<le> now" "now - pl_base (peer_list t) \<le> OT_TORRENT_TIMEOUT"
    and "clean_single_torrent now t as = (gone, t', as')"
  shows "pl_wf (peer_list t') \<and> t_hash t' = t_hash t \<and> swarm (peer_list t') = expire now (swarm (peer_list t)) \<and>
    down_count (peer_list t') = down_count (peer_list t) \<and>
    (gone \<longrightarrow> swarm (peer_list t) = (\<lambda>k. None) \<and> down_count (peer_list t) = 0)"
proof -
  obtain pl' where c: "clean_peerlist now (peer_list t) as = (gone, pl', as')" "t' = t\<lparr>peer_list := pl'\<rparr>"
    using assms(4) by (auto simp: clean_single_torrent_def split: prod.splits)
  show ?thesis
    using clean_peerlist_swarm[OF assms(1-3) c(1)] swarm_empty[OF assms(1)] c(2) by auto
qed

definition example_peer :: "byte \<Rightarrow> byte \<Rightarrow> byte \<Rightarrow> ot_peer" where
  "example_peer n fl ti = \<lparr>peer_ip = [10, 0, 0, n], peer_port = [0x1a, 0xe1], peer_flag = fl, peer_time = ti\<rparr>"

definition example_peerlist :: ot_peerlist where
  "example_peerlist = \<lparr>pl_base = 100, seed_count = 1, peer_count = 2, down_count = 0,
     pl_peers = Flat \<lparr>vdata = [example_peer 1 0 10, example_peer 2 0x80 30], vspace = 2\<rparr>\<rparr>"

lemma example_peerlist_wf: "pl_wf example_peerlist"
  by (simp add: pl_wf_def example_peerlist_def example_peer_def vec_wf_def peer_key_def peer_wf_def is_seeding_def)

theorem clean_single_torrent_expires_witness:
  "swarm (peer_list (fst (snd (clean_single_torrent 120 \<lparr>t_hash = replicate 20 7, peer_list = example_peerlist\<rparr> []))))
     = expire 120 (swarm example_peerlist)"
  using clean_single_torrent_expires[of "\<lparr>t_hash = replicate 20 7, peer_list = example_peerlist\<rparr>" 120 "[]"]
    example_peerlist_wf
  by (cases "clean_single_torrent 120 \<lparr>t_hash = replicate 20 7, peer_list = example_peerlist\<rparr> []")
     (simp add: example_peerlist_def)

section \<open>The clean worker\<close>

text \<open>
  The loop of \<^verbatim>\<open>clean_worker\<close> over the torrents of a bucket; removing the torrent at \<^verbatim>\<open>toffs\<close> leaves the
  offset where it is.
\<close>

function clean_torrents :: "int \<Rightarrow> nat \<Rightarrow> ot_torrent ot_vector \<Rightarrow> int \<Rightarrow> allocs \<Rightarrow> ot_torrent ot_vector \<times> int \<times> allocs" where
  "clean_torrents now toffs v delta as =
    (if toffs < vsize v then
       case clean_single_torrent now (vdata v ! toffs) as of (gone, t, as') \<Rightarrow>
         let v' = v\<lparr>vdata := (vdata v)[toffs := t]\<rparr> in
         if gone then clean_torrents now toffs (vector_remove_torrent v' toffs) (delta - 1) as'
         else clean_torrents now (toffs + 1) v' delta as'
     else (v, delta, as))"
  by pat_completeness auto
termination
  by (relation "measure (\<lambda>(now, toffs, v, delta, as). vsize v - toffs)") auto

declare clean_torrents.simps [simp del]

definition clean_worker_bucket :: "int \<Rightarrow> nat \<Rightarrow> bucket_state \<Rightarrow> allocs \<Rightarrow> (bucket_state \<times> allocs) option" where
  "clean_worker_bucket now bucket s as =
    (case mutex_bucket_lock bucket s of
       None \<Rightarrow> None
     | Some s1 \<Rightarrow>
         (case clean_torrents now 0 (torrents_at s1 bucket) 0 as of (v, delta, as') \<Rightarrow>
            Some (mutex_bucket_unlock bucket delta (set_torrents bucket v s1), as')))"

text \<open>One round over all buckets, from the last to the first.\<close>

fun clean_worker_round :: "int \<Rightarrow> nat \<Rightarrow> bucket_state \<Rightarrow> allocs \<Rightarrow> (bucket_state \<times> allocs) option" where
  "clean_worker_round now 0 s as = Some (s, as)"
| "clean_worker_round now (Suc bucket) s as =
    (case clean_worker_bucket now bucket s as of
       None \<Rightarrow> None
     | Some (s', as') \<Rightarrow> clean_worker_round now bucket s' as')"

text \<open>The loop as a pass over the list of torrents.\<close>

fun clean_list :: "int \<Rightarrow> ot_torrent list \<Rightarrow> allocs \<Rightarrow> ot_torrent list \<times> allocs" where
  "clean_list now [] as = ([], as)"
| "clean_list now (t # ts) as =
    (case clean_single_torrent now t as of (gone, t', as') \<Rightarrow>
       case clean_list now ts as' of (ts', as'') \<Rightarrow> (if gone then ts' else t' # ts', as''))"

lemma clean_single_torrent_hash: "clean_single_torrent now t as = (gone, t', as') \<Longrightarrow> t_hash t' = t_hash t"
  by (auto simp: clean_single_torrent_def split: prod.splits)

lemma vec_wf_update_hash:
  "vec_wf t_hash v \<Longrightarrow> i < vsize v \<Longrightarrow> t_hash t = t_hash (vdata v ! i) \<Longrightarrow> vec_wf t_hash (v\<lparr>vdata := (vdata v)[i := t]\<rparr>)"
  by (simp add: vec_wf_def ksorted_update)

lemma clean_torrents_eq:
  assumes "vec_wf t_hash v" "clean_torrents now toffs v delta as = (v', delta', as')"
  shows "vec_wf t_hash v' \<and> vdata v' = take toffs (vdata v) @ fst (clean_list now (drop toffs (vdata v)) as) \<and>
    delta' = delta + (int (vsize v') - int (vsize v)) \<and> as' = snd (clean_list now (drop toffs (vdata v)) as)"
  using assms
proof (induction now toffs v delta as rule: clean_torrents.induct)
  case (1 now toffs v delta as)
  note step = clean_torrents.simps[of now toffs v delta as]
  show ?case
  proof (cases "toffs < vsize v")
    case False
    then show ?thesis using 1(3,4) step by simp
  next
    case True
    obtain gone t as1 where c: "clean_single_torrent now (vdata v ! toffs) as = (gone, t, as1)"
      by (metis prod_cases3)
    let ?v = "v\<lparr>vdata := (vdata v)[toffs := t]\<rparr>"
    have d: "drop toffs (vdata v) = vdata v ! toffs # drop (Suc toffs) (vdata v)"
      using True by (simp add: Cons_nth_drop_Suc)
    have wf: "vec_wf t_hash ?v"
      using vec_wf_update_hash[OF 1(3) True] clean_single_torrent_hash[OF c] by simp
    show ?thesis
    proof (cases gone)
      case g: True
      have "vec_wf t_hash (vector_remove_torrent ?v toffs)"
        using wf True by (intro vector_remove_torrent_wf) simp_all
      then show ?thesis
        using 1(1)[OF True c[symmetric] refl refl g] 1(4) step True c g d
        by (simp add: remove_at_def split: prod.split)
    next
      case g: False
      show ?thesis
        using 1(2)[OF True c[symmetric] refl refl g wf] 1(4) step True c g d
        by (simp add: take_Suc_conv_app_nth split: prod.split)
    qed
  qed
qed

section \<open>The invariant of the tracker\<close>

definition torrent_ok :: "int \<Rightarrow> ot_torrent \<Rightarrow> bool" where
  "torrent_ok now t \<longleftrightarrow> length (t_hash t) = 20 \<and> pl_wf (peer_list t) \<and> pl_base (peer_list t) \<le> now"

definition tracker_wf :: "int \<Rightarrow> bucket_state \<Rightarrow> bool" where
  "tracker_wf now s \<longleftrightarrow> torrents_wf (all_torrents s) \<and>
     (\<forall>t \<in> set (torrents_entries (all_torrents s)). torrent_ok now t) \<and>
     g_torrent_count s = of_nat (length (torrents_entries (all_torrents s)))"

definition torrent_lookup :: "bucket_state \<Rightarrow> bytes \<Rightarrow> ot_torrent option" where
  "torrent_lookup s h = vector_find t_hash (torrents_at s (bucket_of_hash h)) h"

text \<open>A torrent times out when it has not been touched for a day, or has neither peers nor downloads.\<close>

definition torrent_gone :: "int \<Rightarrow> ot_torrent \<Rightarrow> bool" where
  "torrent_gone now t \<longleftrightarrow> (let pl = peer_list t; idle = now - pl_base pl in
     idle > OT_TORRENT_TIMEOUT \<or> (idle > OT_PEER_TIMEOUT \<and> peers_entries (pl_peers pl) = [] \<and> down_count pl = 0))"

definition cleaned :: "int \<Rightarrow> ot_torrent \<Rightarrow> ot_torrent \<Rightarrow> bool" where
  "cleaned now t t' \<longleftrightarrow> t_hash t' = t_hash t \<and> torrent_ok now t' \<and>
     swarm (peer_list t') = expire now (swarm (peer_list t)) \<and> down_count (peer_list t') = down_count (peer_list t)"

lemma clean_single_torrent_step:
  assumes ok: "torrent_ok now t" and c: "clean_single_torrent now t as = (gone, t', as')"
  shows "gone = torrent_gone now t" "\<not> gone \<Longrightarrow> cleaned now t t'"
proof -
  obtain pl' where cp: "clean_peerlist now (peer_list t) as = (gone, pl', as')" and t': "t' = t\<lparr>peer_list := pl'\<rparr>"
    using c by (auto simp: clean_single_torrent_def split: prod.splits)
  have wf: "pl_wf (peer_list t)" "pl_base (peer_list t) \<le> now" using ok by (simp_all add: torrent_ok_def)
  have "gone = torrent_gone now t \<and> (\<not> gone \<longrightarrow> cleaned now t t')"
  proof (cases "now - pl_base (peer_list t) > 1440")
    case True
    then show ?thesis using cp by (simp add: clean_peerlist_def torrent_gone_def Let_def)
  next
    case False
    then have le: "now - pl_base (peer_list t) \<le> 1440" by simp
    have base: "\<not> gone \<longrightarrow> pl_base pl' \<le> now"
      by (rule clean_peerlist_cases[OF wf le, of as]) (use cp wf(2) in auto)
    have "peer_count (peer_list t) = 0 \<longleftrightarrow> peers_entries (pl_peers (peer_list t)) = []"
      using pl_wf_peer_count[OF wf(1)] by (auto simp flip: length_0_conv unat_eq_zero)
    then have "gone = torrent_gone now t"
      using cp le by (auto simp: clean_peerlist_def torrent_gone_def Let_def split: if_splits)
    then show ?thesis
      using clean_peerlist_swarm[OF wf le cp] base ok t' by (simp add: cleaned_def torrent_ok_def)
  qed
  then show "gone = torrent_gone now t" "\<not> gone \<Longrightarrow> cleaned now t t'" by blast+
qed

lemma clean_list_spec:
  "\<forall>t \<in> set ts. torrent_ok now t \<Longrightarrow>
    list_all2 (cleaned now) (filter (\<lambda>t. \<not> torrent_gone now t) ts) (fst (clean_list now ts as))"
proof (induction ts arbitrary: as)
  case (Cons t ts)
  obtain gone t' as' where c: "clean_single_torrent now t as = (gone, t', as')"
    by (metis prod_cases3)
  obtain ts' as'' where r: "clean_list now ts as' = (ts', as'')"
    by fastforce
  show ?case
    using clean_single_torrent_step[OF _ c] Cons.prems Cons.IH[of as'] c r by (cases gone) simp_all
qed simp

lemma list_all2_find:
  "list_all2 (\<lambda>x y. key y = key x \<and> R x y) xs ys \<Longrightarrow>
    rel_option R (find (\<lambda>x. key x = k) xs) (find (\<lambda>x. key x = k) ys)"
  by (induction rule: list_all2_induct) auto

lemma find_filter_key:
  "distinct (map key xs) \<Longrightarrow> find (\<lambda>x. key x = k) (filter P xs)
    = (case find (\<lambda>x. key x = k) xs of None \<Rightarrow> None | Some x \<Rightarrow> if P x then Some x else None)"
  using find_map_filter[of key "\<lambda>x. x" xs k P] by simp

lemma tracker_wf_bucket:
  assumes "tracker_wf now s" "b < OT_BUCKET_COUNT"
  shows "vec_wf t_hash (torrents_at s b)" "\<forall>t \<in> set (vdata (torrents_at s b)). torrent_ok now t \<and> bucket_of_hash (t_hash t) = b"
    "length (all_torrents s) = OT_BUCKET_COUNT"
proof -
  have arr: "torrents_wf (all_torrents s)" and len: "length (all_torrents s) = OT_BUCKET_COUNT"
    using assms(1) by (simp_all add: tracker_wf_def arr_inv_def)
  have "\<forall>t \<in> set (vdata (torrents_at s b)). torrent_ok now t"
    using assms len by (auto simp: tracker_wf_def torrents_entries_def)
  then show "\<forall>t \<in> set (vdata (torrents_at s b)). torrent_ok now t \<and> bucket_of_hash (t_hash t) = b"
    using torrent_arr.ainv_home[OF arr, of b] assms(2) len by simp
  show "vec_wf t_hash (torrents_at s b)" "length (all_torrents s) = OT_BUCKET_COUNT"
    using torrent_arr.ainv_nth[OF arr, of b] assms(2) len by simp_all
qed

text \<open>Locking a bucket, replacing its vector and unlocking with the change of its size.\<close>

lemma tracker_wf_update:
  assumes wf: "tracker_wf now s" and b: "b < OT_BUCKET_COUNT" and l: "mutex_bucket_lock b s = Some s1"
    and v: "vec_wf t_hash v" "\<forall>t \<in> set (vdata v). torrent_ok now t \<and> bucket_of_hash (t_hash t) = b"
    and delta: "delta = int (vsize v) - int (vsize (torrents_at s b))"
  defines "s' \<equiv> mutex_bucket_unlock b delta (set_torrents b v s1)"
  shows "tracker_wf now s'" "bucket_locklist s' = bucket_locklist s" "all_torrents s' = (all_torrents s)[b := v]"
proof -
  have len: "length (all_torrents s) = OT_BUCKET_COUNT" and arr: "torrents_wf (all_torrents s)"
    using wf by (simp_all add: tracker_wf_def arr_inv_def)
  have s1: "s1 = s\<lparr>bucket_locklist := bucket_locklist s @ [b]\<rparr>" "b \<notin> set (bucket_locklist s)"
    using l by (auto simp: mutex_bucket_lock_def bucket_push_def bucket_check_iff split: if_splits)
  show ll: "bucket_locklist s' = bucket_locklist s"
    using s1 by (simp add: s'_def mutex_bucket_unlock_def set_torrents_def bucket_remove_eq_remove1 remove1_append)
  show at: "all_torrents s' = (all_torrents s)[b := v]"
    by (simp add: s'_def mutex_bucket_unlock_def set_torrents_def s1)
  have "torrents_wf ((all_torrents s)[b := v])"
    using v by (intro torrent_arr.ainv_update[OF arr]) auto
  moreover have "torrent_ok now t" if "t \<in> set (torrents_entries ((all_torrents s)[b := v]))" for t
    using that wf v(2) by (fastforce simp: torrents_entries_def tracker_wf_def dest: subsetD[OF set_update_subset_insert])
  moreover have "g_torrent_count s' = of_nat (length (torrents_entries ((all_torrents s)[b := v])))"
  proof -
    have "int (length (torrents_entries ((all_torrents s)[b := v]))) = int (length (torrents_entries (all_torrents s))) + delta"
      using length_torrents_update[of b "all_torrents s" v] len b delta by simp
    then have "(of_nat (length (torrents_entries ((all_torrents s)[b := v]))) :: size_t) = of_nat (length (torrents_entries (all_torrents s))) + of_int delta"
      by (metis of_int_add of_int_of_nat_eq)
    then show ?thesis
      using wf by (simp add: s'_def mutex_bucket_unlock_def set_torrents_def s1 tracker_wf_def)
  qed
  ultimately show "tracker_wf now s'"
    by (simp add: tracker_wf_def at)
qed

lemma torrent_lookup_update:
  assumes "all_torrents s' = (all_torrents s)[b := v]" "length (all_torrents s) = OT_BUCKET_COUNT"
  shows "torrent_lookup s' h = (if bucket_of_hash h = b then vector_find t_hash v h else torrent_lookup s h)"
  using assms bucket_of_hash_bound[of h] by (auto simp: torrent_lookup_def)

lemma clean_worker_bucket_spec:
  assumes wf: "tracker_wf now s" and b: "b < OT_BUCKET_COUNT" and w: "clean_worker_bucket now b s as = Some (s', as')"
  shows "tracker_wf now s'" "bucket_locklist s' = bucket_locklist s"
    "if bucket_of_hash h = b
     then rel_option (cleaned now) (case torrent_lookup s h of None \<Rightarrow> None | Some t \<Rightarrow> if \<not> torrent_gone now t then Some t else None) (torrent_lookup s' h)
     else torrent_lookup s' h = torrent_lookup s h"
proof -
  note B = tracker_wf_bucket[OF wf b]
  obtain s1 v delta where l: "mutex_bucket_lock b s = Some s1"
    and c: "clean_torrents now 0 (torrents_at s1 b) 0 as = (v, delta, as')"
    and s': "s' = mutex_bucket_unlock b delta (set_torrents b v s1)"
    using w by (auto simp: clean_worker_bucket_def split: option.splits prod.splits)
  have at: "torrents_at s1 b = torrents_at s b"
    using l by (auto simp: mutex_bucket_lock_def split: if_splits)
  have cl: "vec_wf t_hash v" "vdata v = fst (clean_list now (vdata (torrents_at s b)) as)"
      "delta = int (vsize v) - int (vsize (torrents_at s b))"
    using clean_torrents_eq[OF _ c] B(1) at by simp_all
  have spec: "list_all2 (cleaned now) (filter (\<lambda>t. \<not> torrent_gone now t) (vdata (torrents_at s b))) (vdata v)"
    using clean_list_spec[of "vdata (torrents_at s b)" now as] B(2) cl(2) by simp
  have ok: "\<forall>t \<in> set (vdata v). torrent_ok now t \<and> bucket_of_hash (t_hash t) = b"
  proof
    fix t' assume "t' \<in> set (vdata v)"
    then obtain t where "t \<in> set (filter (\<lambda>t. \<not> torrent_gone now t) (vdata (torrents_at s b)))" "cleaned now t t'"
      using spec by (metis in_set_conv_nth list_all2_conv_all_nth)
    then show "torrent_ok now t' \<and> bucket_of_hash (t_hash t') = b"
      using B(2) by (simp add: cleaned_def)
  qed
  note U = tracker_wf_update[OF wf b l cl(1) ok cl(3), folded s']
  show "tracker_wf now s'" "bucket_locklist s' = bucket_locklist s" by (rule U)+
  show "if bucket_of_hash h = b
     then rel_option (cleaned now) (case torrent_lookup s h of None \<Rightarrow> None | Some t \<Rightarrow> if \<not> torrent_gone now t then Some t else None) (torrent_lookup s' h)
     else torrent_lookup s' h = torrent_lookup s h"
  proof (cases "bucket_of_hash h = b")
    case True
    have "rel_option (cleaned now) (find (\<lambda>t. t_hash t = h) (filter (\<lambda>t. \<not> torrent_gone now t) (vdata (torrents_at s b))))
        (find (\<lambda>t. t_hash t = h) (vdata v))"
      by (rule list_all2_find) (rule list_all2_mono[OF spec], simp add: cleaned_def)
    then have "rel_option (cleaned now) (case torrent_lookup s h of None \<Rightarrow> None | Some t \<Rightarrow> if \<not> torrent_gone now t then Some t else None) (torrent_lookup s' h)"
      unfolding torrent_lookup_update[OF U(3) B(3)] if_P[OF True] unfolding torrent_lookup_def True
        vector_find_eq_find[OF B(1)] vector_find_eq_find[OF cl(1)] find_filter_key[OF torrent_vec.distinct_keys[OF B(1)]] .
    with True show ?thesis by simp
  qed (simp add: torrent_lookup_update[OF U(3) B(3)])
qed

lemma tracker_wf_init: "tracker_wf now mutex_init"
  by (auto simp: tracker_wf_def mutex_init_def torrents_entries_def arr_inv_def vec_wf_def)

lemma clean_worker_bucket_runs: "bucket_locklist s = [] \<Longrightarrow> \<exists>r. clean_worker_bucket now b s as = Some r"
  by (auto simp: clean_worker_bucket_def mutex_bucket_lock_def bucket_check_def split: prod.split)

lemma clean_worker_round_spec:
  "tracker_wf now s \<Longrightarrow> n \<le> OT_BUCKET_COUNT \<Longrightarrow> bucket_locklist s = [] \<Longrightarrow>
    \<exists>s' as'. clean_worker_round now n s as = Some (s', as') \<and> tracker_wf now s' \<and> bucket_locklist s' = [] \<and>
      (if bucket_of_hash h < n
       then rel_option (cleaned now) (case torrent_lookup s h of None \<Rightarrow> None | Some t \<Rightarrow> if \<not> torrent_gone now t then Some t else None) (torrent_lookup s' h)
       else torrent_lookup s' h = torrent_lookup s h)"
proof (induction n arbitrary: s as)
  case (Suc n)
  obtain s1 as1 where w: "clean_worker_bucket now n s as = Some (s1, as1)"
    using clean_worker_bucket_runs[OF Suc.prems(3)] by fast
  have n: "n < OT_BUCKET_COUNT" using Suc.prems(2) by simp
  note B = clean_worker_bucket_spec[OF Suc.prems(1) n w]
  obtain s' as' where r: "clean_worker_round now n s1 as1 = Some (s', as')" "tracker_wf now s'" "bucket_locklist s' = []"
    "if bucket_of_hash h < n
     then rel_option (cleaned now) (case torrent_lookup s1 h of None \<Rightarrow> None | Some t \<Rightarrow> if \<not> torrent_gone now t then Some t else None) (torrent_lookup s' h)
     else torrent_lookup s' h = torrent_lookup s1 h"
    using Suc.IH[OF B(1), of as1] B(2) Suc.prems(2,3) by auto
  consider "bucket_of_hash h < n" | "bucket_of_hash h = n" | "n < bucket_of_hash h"
    by linarith
  then show ?case
    using B(3)[of h] r w by cases simp_all
qed simp

text \<open>
  C14: A round of the clean worker. Started on a tracker whose invariant holds and whose buckets are free, a round over
  all buckets never gets stuck, keeps the invariant (in particular the torrent count stays exact) and leaves all
  buckets free. For every info hash, a torrent that timed out is gone afterwards, every other torrent is still there
  with its download count and with exactly the peers seen in the last 45 minutes, and no torrent
  appears from nowhere.
\<close>

theorem clean_worker_round_expires:
  assumes "tracker_wf now s" "bucket_locklist s = []"
  shows "\<exists>s' as'. clean_worker_round now OT_BUCKET_COUNT s as = Some (s', as') \<and> tracker_wf now s' \<and> bucket_locklist s' = [] \<and>
    rel_option (cleaned now) (case torrent_lookup s h of None \<Rightarrow> None | Some t \<Rightarrow> if \<not> torrent_gone now t then Some t else None) (torrent_lookup s' h)"
  using clean_worker_round_spec[OF assms(1) order.refl assms(2), of as h] by auto

definition example_torrent :: ot_torrent where
  "example_torrent = \<lparr>t_hash = replicate 20 7, peer_list = example_peerlist\<rparr>"

definition example_tracker :: bucket_state where
  "example_tracker = mutex_init\<lparr>all_torrents := (all_torrents mutex_init)[bucket_of_hash (replicate 20 7) := \<lparr>vdata = [example_torrent], vspace = 2\<rparr>],
     g_torrent_count := 1\<rparr>"

lemma example_tracker_wf: "100 \<le> now \<Longrightarrow> tracker_wf now example_tracker" "bucket_locklist example_tracker = []"
    "torrent_lookup example_tracker (replicate 20 7) = Some example_torrent"
proof -
  let ?b = "bucket_of_hash (replicate 20 7)" and ?v = "\<lparr>vdata = [example_torrent], vspace = 2\<rparr>"
  have l: "mutex_bucket_lock ?b mutex_init = Some (mutex_init\<lparr>bucket_locklist := [?b]\<rparr>)"
    by (simp add: mutex_bucket_lock_def mutex_init_def bucket_check_def bucket_push_def)
  have e: "mutex_bucket_unlock ?b 1 (set_torrents ?b ?v (mutex_init\<lparr>bucket_locklist := [?b]\<rparr>)) = example_tracker"
    by (simp add: mutex_bucket_unlock_def set_torrents_def example_tracker_def bucket_remove_eq_remove1 mutex_init_def)
  have "vec_wf t_hash ?v" by (simp add: vec_wf_def)
  moreover have "\<forall>t \<in> set (vdata ?v). torrent_ok now t \<and> bucket_of_hash (t_hash t) = ?b" if "100 \<le> now" for now
    using example_peerlist_wf that by (simp add: torrent_ok_def example_torrent_def example_peerlist_def)
  moreover have "1 = int (vsize ?v) - int (vsize (torrents_at mutex_init ?b))"
    by (simp add: mutex_init_def)
  ultimately show "100 \<le> now \<Longrightarrow> tracker_wf now example_tracker"
    using tracker_wf_update(1)[OF tracker_wf_init bucket_of_hash_bound l] e by metis
  show "bucket_locklist example_tracker = []"
    by (simp add: example_tracker_def mutex_init_def)
  show "torrent_lookup example_tracker (replicate 20 7) = Some example_torrent"
    by (simp add: torrent_lookup_def example_tracker_def mutex_init_def vector_find_eq_find vec_wf_def example_torrent_def)
qed

theorem clean_worker_round_expires_witness:
  "\<exists>s' as'. clean_worker_round 120 OT_BUCKET_COUNT example_tracker [] = Some (s', as') \<and>
    rel_option (cleaned 120) (Some example_torrent) (torrent_lookup s' (replicate 20 7))"
  using clean_worker_round_expires[OF example_tracker_wf(1,2), of 120 "[]" "replicate 20 7"] example_tracker_wf(3)
  by (auto simp: torrent_gone_def example_torrent_def example_peerlist_def)

end
