(* ===== verification/OT_Select.thy ===== *)
theory OT_Select
  imports OT_Clean
begin

text \<open>
  The part of \<^verbatim>\<open>src/trackerlogic.c\<close> that compiles the list of peers of an announce reply:
  \<^verbatim>\<open>return_peers_all\<close>, the pseudo-random \<^verbatim>\<open>return_peers_selection\<close> and \<^verbatim>\<open>return_peers_for_torrent\<close>. The selection
  walks the buckets with fixpoint arithmetic; it is shown to terminate, never to divide by zero,
  to stay inside the buckets and to return distinct peers.
\<close>

section \<open>Decimal output\<close>

fun dec_of_nat :: "nat \<Rightarrow> bytes" where
  "dec_of_nat n = (if n < 10 then [48 + of_nat n] else dec_of_nat (n div 10) @ [48 + of_nat (n mod 10)])"

declare dec_of_nat.simps [simp del]

text \<open>\<^verbatim>\<open>printf("%i")\<close> and \<^verbatim>\<open>printf("%zd")\<close>; the latter reads a \<^verbatim>\<open>size_t\<close> as signed.\<close>

definition fmt_i :: "int \<Rightarrow> bytes" where
  "fmt_i i = (if i < 0 then 45 # dec_of_nat (nat (- i)) else dec_of_nat (nat i))"

definition fmt_zd :: "size_t \<Rightarrow> bytes" where
  "fmt_zd w = fmt_i (sint w)"

section \<open>All peers\<close>

text \<open>
  Both routines write leechers from the front of the reply and seeders from its end. \<^verbatim>\<open>place_peer\<close> is one
  \<^verbatim>\<open>memcpy\<close> of six bytes; \<^verbatim>\<open>two_ended\<close> the region of \<^verbatim>\<open>tot\<close> bytes afterwards. Bytes that neither side reached,
  which the code leaves as they were, appear as 0: there are none when the counters are right.
\<close>

definition place_peer :: "ot_peer \<Rightarrow> bytes \<times> bytes \<Rightarrow> bytes \<times> bytes" where
  "place_peer p fb = (case fb of (front, back) \<Rightarrow>
     if is_seeding p then (front, take OT_PEER_COMPARE_SIZE (peer_key p) @ back)
     else (front @ take OT_PEER_COMPARE_SIZE (peer_key p), back))"

definition two_ended :: "nat \<Rightarrow> bytes \<times> bytes \<Rightarrow> bytes" where
  "two_ended tot fb = (case fb of (front, back) \<Rightarrow> front @ replicate (tot - length front - length back) 0 @ back)"

definition return_peers_all :: "ot_peerlist \<Rightarrow> bytes" where
  "return_peers_all pl =
    two_ended (OT_PEER_COMPARE_SIZE * unat (peer_count pl)) (fold place_peer (peers_entries (pl_peers pl)) ([], []))"

section \<open>A selection of peers\<close>

text \<open>
  \<^verbatim>\<open>while( !(shifted_pc & MAXPRECBIT ) ) { shifted_pc <<= 1; shift++; }\<close> on 32-bit unsigned integers: it does not end
  for 0.
\<close>

partial_function (option) shift_up :: "u32 \<Rightarrow> nat \<Rightarrow> (u32 \<times> nat) option" where
  "shift_up shifted_pc shift =
    (if shifted_pc AND 0x20000000 = 0 then shift_up (push_bit 1 shifted_pc) (shift + 1)
     else Some (shifted_pc, shift))"

text \<open>The inner loop that moves on to the bucket the offset falls into.\<close>

partial_function (option) seek_bucket :: "nat list \<Rightarrow> nat \<Rightarrow> nat \<Rightarrow> (nat \<times> nat) option" where
  "seek_bucket sizes bucket_index bucket_offset =
    (if bucket_offset \<ge> sizes ! bucket_index
     then seek_bucket sizes ((bucket_index + 1) mod length sizes) (bucket_offset - sizes ! bucket_index)
     else Some (bucket_index, bucket_offset))"

definition step_diff :: "nat \<Rightarrow> nat \<Rightarrow> nat \<Rightarrow> nat" where
  "step_diff shifted_step shift amount =
    drop_bit shift ((amount + 1) * shifted_step) - drop_bit shift (amount * shifted_step)"

text \<open>
  \<^verbatim>\<open>rnd i\<close> is the i-th answer of \<^verbatim>\<open>random()\<close>. A division by zero is None, like a loop that does not end.
\<close>

fun select_peers :: "(nat \<Rightarrow> nat) \<Rightarrow> ot_peer list list \<Rightarrow> nat \<Rightarrow> nat \<Rightarrow> nat \<Rightarrow> nat \<Rightarrow> nat \<Rightarrow> bytes \<times> bytes \<Rightarrow> (bytes \<times> bytes) option" where
  "select_peers rnd bs step shift 0 i off fb = Some fb"
| "select_peers rnd bs step shift (Suc amount) i off fb =
    (let diff = step_diff step shift amount in
     if diff = 0 then None
     else
       case seek_bucket (map length bs) i (off + (1 + rnd 0 mod diff)) of
         None \<Rightarrow> None
       | Some (i', off') \<Rightarrow>
           select_peers (\<lambda>n. rnd (n + 1)) bs step shift amount i' off' (place_peer (bs ! i' ! off') fb))"

definition return_peers_selection :: "(nat \<Rightarrow> nat) \<Rightarrow> ot_peerlist \<Rightarrow> nat \<Rightarrow> bytes option" where
  "return_peers_selection rnd pl amount =
    (case shift_up (ucast (peer_count pl)) 0 of
       None \<Rightarrow> None
     | Some (shifted_pc, shift) \<Rightarrow>
         if amount = 0 \<or> peer_count pl = 0 then None
         else map_option (two_ended (OT_PEER_COMPARE_SIZE * amount))
           (select_peers (\<lambda>n. rnd (n + 1)) (map vdata (bucket_list (pl_peers pl)))
              (unat shifted_pc div amount) shift amount 0 (rnd 0 mod unat (peer_count pl)) ([], [])))"

section \<open>The reply\<close>

abbreviation (input) OT_CLIENT_REQUEST_INTERVAL :: nat where "OT_CLIENT_REQUEST_INTERVAL \<equiv> 1800"
abbreviation (input) OT_CLIENT_REQUEST_VARIATION :: nat where "OT_CLIENT_REQUEST_VARIATION \<equiv> 360"

definition request_interval_random :: "nat \<Rightarrow> nat" where
  "request_interval_random r =
    OT_CLIENT_REQUEST_INTERVAL - OT_CLIENT_REQUEST_VARIATION div 2 + r mod OT_CLIENT_REQUEST_VARIATION"

datatype PROTO_FLAG = FLAG_TCP | FLAG_UDP | FLAG_MCA | FLAG_SELFPIPE

definition announce_head_tcp :: "ot_peerlist \<Rightarrow> nat \<Rightarrow> nat \<Rightarrow> bytes" where
  "announce_head_tcp pl erval amount =
    lit ''d8:completei'' @ fmt_zd (seed_count pl) @ lit ''e10:downloadedi'' @ fmt_zd (down_count pl) @
    lit ''e10:incompletei'' @ fmt_zd (peer_count pl - seed_count pl) @
    lit ''e8:intervali'' @ fmt_i (int erval) @ lit ''e12:min intervali'' @ fmt_i (int (erval div 2)) @
    lit ''e5:peers'' @ fmt_zd (of_nat (OT_PEER_COMPARE_SIZE * amount)) @ lit '':''"

definition announce_head_udp :: "ot_peerlist \<Rightarrow> nat \<Rightarrow> bytes" where
  "announce_head_udp pl interval =
    be32 (of_nat interval) @ be32 (ucast (peer_count pl - seed_count pl)) @ be32 (ucast (seed_count pl))"

definition return_peers_for_torrent :: "(nat \<Rightarrow> nat) \<Rightarrow> ot_peerlist \<Rightarrow> nat \<Rightarrow> PROTO_FLAG \<Rightarrow> bytes option" where
  "return_peers_for_torrent rnd pl amount proto =
    (let amount = (if amount > unat (peer_count pl) then unat (peer_count pl) else amount);
         interval = request_interval_random (rnd 0);
         head = (if proto = FLAG_TCP then announce_head_tcp pl interval amount else announce_head_udp pl interval);
         body = (if amount = 0 then Some []
                 else if amount = unat (peer_count pl) then Some (return_peers_all pl)
                 else return_peers_selection (\<lambda>n. rnd (n + 1)) pl amount) in
     map_option (\<lambda>b. head @ b @ (if proto = FLAG_TCP then lit ''e'' else [])) body)"

section \<open>What is placed\<close>

definition placed :: "ot_peer list \<Rightarrow> bytes \<times> bytes" where
  "placed ps = (concat (map peer_key (filter (\<lambda>p. \<not> is_seeding p) ps)), concat (map peer_key (rev (filter is_seeding ps))))"

lemma placed_Nil [simp]: "placed [] = ([], [])"
  by (simp add: placed_def)

lemma place_peer_placed: "peer_wf p \<Longrightarrow> place_peer p (placed ps) = placed (ps @ [p])"
  by (simp add: place_peer_def placed_def length_peer_key)

lemma fold_place_peer: "\<forall>p \<in> set ps. peer_wf p \<Longrightarrow> fold place_peer ps (placed qs) = placed (qs @ ps)"
proof (induction ps arbitrary: qs)
  case (Cons p ps)
  then show ?case using place_peer_placed[of p qs] Cons.IH[of "qs @ [p]"] by simp
qed simp

lemma length_concat_keys: "\<forall>p \<in> set ps. peer_wf p \<Longrightarrow> length (concat (map peer_key ps)) = 6 * length ps"
  by (induction ps) (simp_all add: length_peer_key)

lemma two_ended_placed:
  assumes "\<forall>p \<in> set ps. peer_wf p"
  shows "two_ended (6 * length ps) (placed ps) =
    concat (map peer_key (filter (\<lambda>p. \<not> is_seeding p) ps @ rev (filter is_seeding ps)))"
proof -
  have "length (concat (map peer_key (filter (\<lambda>p. \<not> is_seeding p) ps))) = 6 * length (filter (\<lambda>p. \<not> is_seeding p) ps)"
    "length (concat (map peer_key (rev (filter is_seeding ps)))) = 6 * length (rev (filter is_seeding ps))"
    using assms by (intro length_concat_keys; simp)+
  moreover have "length ps = length (filter is_seeding ps) + length (filter (\<lambda>p. \<not> is_seeding p) ps)"
    by (simp add: sum_length_filter_compl)
  ultimately show ?thesis
    by (simp add: two_ended_def placed_def)
qed

lemma return_peers_all_eq:
  assumes "pl_wf pl"
  shows "return_peers_all pl = (let ps = peers_entries (pl_peers pl) in
    concat (map peer_key (filter (\<lambda>p. \<not> is_seeding p) ps @ rev (filter is_seeding ps))))"
proof -
  have "\<forall>p \<in> set (peers_entries (pl_peers pl)). peer_wf p"
    using assms by (simp add: pl_wf_def)
  then show ?thesis
    using fold_place_peer[of "peers_entries (pl_peers pl)" "[]"] two_ended_placed[of "peers_entries (pl_peers pl)"]
    by (simp add: return_peers_all_def pl_wf_peer_count[OF assms] Let_def)
qed

section \<open>The fixpoint step\<close>

lemma odd_div_exp:
  assumes "w < 2 ^ 30"
  shows "odd (w div 2 ^ 29) \<longleftrightarrow> 2 ^ 29 \<le> (w :: nat)"
proof (cases "w < 2 ^ 29")
  case False
  then have "w div 2 ^ 29 = 1"
    using assms by (intro div_nat_eqI) simp_all
  then show ?thesis using False by simp
qed simp

lemma shift_up_result:
  assumes "0 < w" "w < 2 ^ 30"
  shows "\<exists>s. shift_up (of_nat w) k = Some (of_nat (w * 2 ^ s), k + s) \<and> 2 ^ 29 \<le> w * 2 ^ s \<and> w * 2 ^ s < 2 ^ 30"
  using assms
proof (induction "2 ^ 30 - w" arbitrary: w k rule: less_induct)
  case less
  have "(of_nat w :: u32) AND 0x20000000 = 0 \<longleftrightarrow> \<not> bit (of_nat w :: u32) 29"
    using and_exp_eq_0_iff_not_bit[of "of_nat w :: u32" 29] by simp
  also have "bit (of_nat w :: u32) 29 \<longleftrightarrow> bit (unat (of_nat w :: u32)) 29"
    by (simp add: bit_unsigned_iff)
  also have "unat (of_nat w :: u32) = w"
    using less.prems by (simp add: unat_of_nat)
  also have "\<not> bit w 29 \<longleftrightarrow> w < 2 ^ 29"
    using odd_div_exp[OF less.prems(2)] by (simp add: bit_iff_odd not_le)
  finally have bit29: "(of_nat w :: u32) AND 0x20000000 = 0 \<longleftrightarrow> w < 2 ^ 29" .
  show ?case
  proof (cases "w < 2 ^ 29")
    case True
    then have "shift_up (of_nat w) k = shift_up (of_nat (2 * w)) (k + 1)"
      using bit29 by (subst shift_up.simps) (simp add: push_bit_eq_mult mult.commute)
    moreover have "2 ^ 30 - 2 * w < 2 ^ 30 - w" "0 < 2 * w" "2 * w < 2 ^ 30"
      using less.prems True by simp_all
    from less.hyps[OF this, of "k + 1"] obtain s where "shift_up (of_nat (2 * w)) (k + 1) = Some (of_nat (2 * w * 2 ^ s), k + 1 + s)"
        "2 ^ 29 \<le> 2 * w * 2 ^ s" "2 * w * 2 ^ s < 2 ^ 30"
      by blast
    ultimately show ?thesis
      by (intro exI[of _ "Suc s"]) (simp add: mult.assoc mult.left_commute)
  next
    case False
    then show ?thesis
      using bit29 less.prems by (intro exI[of _ 0]) (subst shift_up.simps, simp)
  qed
qed

lemma shifted_step_bounds:
  assumes "0 < amount" "amount < (n :: nat)"
  shows "2 ^ s \<le> n * 2 ^ s div amount" "amount * (n * 2 ^ s div amount) \<le> n * 2 ^ s"
proof -
  have "2 ^ s = amount * 2 ^ s div amount" using assms(1) by simp
  also have "\<dots> \<le> n * 2 ^ s div amount" using assms(2) by (intro div_le_mono mult_le_mono1) simp
  finally show "2 ^ s \<le> n * 2 ^ s div amount" .
  show "amount * (n * 2 ^ s div amount) \<le> n * 2 ^ s" by simp
qed

lemma step_diff_pos:
  assumes "2 ^ s \<le> step"
  shows "0 < step_diff step s a"
proof -
  have "(a * step + 2 ^ s) div 2 ^ s \<le> ((a + 1) * step) div 2 ^ s"
    using assms by (intro div_le_mono) simp
  moreover have "(a * step + 2 ^ s) div 2 ^ s = Suc (a * step div 2 ^ s)"
    by (simp add: div_add_self2)
  ultimately show ?thesis
    by (simp add: step_diff_def drop_bit_eq_div)
qed

lemma sum_step_diff: "(\<Sum>a < m. step_diff step s a) = m * step div 2 ^ s"
proof (induction m)
  case (Suc m)
  have "m * step div 2 ^ s \<le> (m + 1) * step div 2 ^ s"
    by (intro div_le_mono) simp
  then show ?case
    using Suc by (simp add: step_diff_def drop_bit_eq_div)
qed simp

section \<open>Walking the buckets\<close>

abbreviation before :: "nat list \<Rightarrow> nat \<Rightarrow> nat" where
  "before sizes i \<equiv> sum_list (take i sizes)"

text \<open>The number of empty buckets to skip before a non-empty one.\<close>

definition gap :: "nat list \<Rightarrow> nat \<Rightarrow> nat" where
  "gap sizes i = (LEAST k. sizes ! ((i + k) mod length sizes) \<noteq> 0)"

lemma gap_next:
  assumes "sum_list sizes \<noteq> 0" "i < length sizes" "sizes ! i = 0"
  shows "gap sizes ((i + 1) mod length sizes) < gap sizes i"
proof -
  let ?P = "\<lambda>k. sizes ! ((i + k) mod length sizes) \<noteq> 0"
  obtain j where j: "j < length sizes" "sizes ! j \<noteq> 0"
    using assms(1) by (metis in_set_conv_nth sum_list_eq_0_iff)
  have "(i + (j + length sizes - i)) mod length sizes = j"
    using j(1) assms(2) by (simp add: le_add_diff_inverse)
  then have "?P (j + length sizes - i)" using j(2) by simp
  then have P: "?P (gap sizes i)" unfolding gap_def by (rule LeastI)
  then obtain m where m: "gap sizes i = Suc m"
    using assms(2,3) by (cases "gap sizes i") auto
  have "sizes ! (((i + 1) mod length sizes + m) mod length sizes) \<noteq> 0"
    using P m by (simp add: mod_simps)
  then have "gap sizes ((i + 1) mod length sizes) \<le> m"
    unfolding gap_def by (rule Least_le)
  then show ?thesis using m by simp
qed

lemma before_next:
  assumes "i < length sizes" and that: "sizes ! i \<le> off"
  shows "(before sizes ((i + 1) mod length sizes) + (off - sizes ! i)) mod sum_list sizes = (before sizes i + off) mod sum_list sizes"
proof (cases "i + 1 < length sizes")
  case True
  then have "before sizes (i + 1) = before sizes i + sizes ! i"
    by (simp add: take_Suc_conv_app_nth)
  then show ?thesis using True that by simp
next
  case False
  then have i: "i + 1 = length sizes" using assms by simp
  then have "sum_list sizes = before sizes i + sizes ! i"
    using assms by (metis Suc_eq_plus1 take_Suc_conv_app_nth sum_list.append sum_list.Cons sum_list.Nil add_0_right take_all order_refl)
  then have "before sizes i + off = sum_list sizes + (off - sizes ! i)"
    using that by simp
  then show ?thesis using i by simp
qed

lemma before_less:
  assumes "i < length sizes" "off < sizes ! i"
  shows "before sizes i + off < sum_list sizes"
proof -
  have "sum_list sizes = before sizes i + sizes ! i + sum_list (drop (Suc i) sizes)"
    using assms(1) by (metis id_take_nth_drop sum_list.append sum_list.Cons add.assoc)
  then show ?thesis using assms(2) by simp
qed

lemma seek_bucket_result:
  assumes "sum_list sizes \<noteq> 0" "i < length sizes"
  shows "\<exists>i' off'. seek_bucket sizes i off = Some (i', off') \<and> i' < length sizes \<and> off' < sizes ! i' \<and>
    before sizes i' + off' = (before sizes i + off) mod sum_list sizes"
  using assms
proof (induction "(off, gap sizes i)" arbitrary: off i rule: wf_induct_rule[OF wf_lex_prod[OF wf_less wf_less]])
  case 1
  have IH: "\<exists>i' off'. seek_bucket sizes j o' = Some (i', off') \<and> i' < length sizes \<and> off' < sizes ! i' \<and>
    before sizes i' + off' = (before sizes j + o') mod sum_list sizes"
    if "o' < off \<or> o' = off \<and> gap sizes j < gap sizes i" "j < length sizes" for o' j
    using 1(1)[of o' j] that 1(2) by auto
  show ?case
  proof (cases "sizes ! i \<le> off")
    case True
    let ?j = "(i + 1) mod length sizes"
    have "?j < length sizes" using 1(3) by (intro mod_less_divisor) auto
    moreover have "off - sizes ! i < off \<or> off - sizes ! i = off \<and> gap sizes ?j < gap sizes i"
      using gap_next[OF 1(2,3)] True by (cases "sizes ! i = 0") auto
    ultimately show ?thesis
      using IH[of "off - sizes ! i" ?j] before_next[OF 1(3) True] True
      by (subst seek_bucket.simps) simp
  next
    case False
    then show ?thesis
      using 1(3) before_less[OF 1(3), of off] by (subst seek_bucket.simps) auto
  qed
qed

lemma nth_concat_before:
  "i < length bs \<Longrightarrow> off < length (bs ! i) \<Longrightarrow> concat bs ! (before (map length bs) i + off) = bs ! i ! off"
proof (induction bs arbitrary: i)
  case (Cons b bs)
  then show ?case by (cases i) (auto simp: nth_append)
qed simp

lemma select_peers_result:
  assumes n: "n = length (concat bs)" "n \<noteq> 0" and step: "2 ^ s \<le> step" and i: "i < length bs"
    and P: "P mod n = (before (map length bs) i + off) mod n"
  shows "\<exists>poss. length poss = amount \<and> sorted_wrt (<) poss \<and>
    (\<forall>p \<in> set poss. P < p \<and> p \<le> P + (\<Sum>a < amount. step_diff step s a)) \<and>
    select_peers rnd bs step s amount i off fb = Some (fold place_peer (map (\<lambda>p. concat bs ! (p mod n)) poss) fb)"
  using i P
proof (induction amount arbitrary: rnd i off fb P)
  case (Suc amount)
  let ?d = "step_diff step s amount" and ?sizes = "map length bs"
  define inc where "inc = 1 + rnd 0 mod ?d"
  have d: "0 < ?d" using step by (rule step_diff_pos)
  then have inc: "0 < inc" "inc \<le> ?d"
    using mod_less_divisor[OF d, of "rnd 0"] by (simp_all add: inc_def Suc_le_eq)
  have sum: "sum_list ?sizes = n" using n(1) by (simp add: length_concat)
  obtain i' off' where seek: "seek_bucket ?sizes i (off + inc) = Some (i', off')" "i' < length bs" "off' < length (bs ! i')"
    and pos: "before ?sizes i' + off' = (before ?sizes i + (off + inc)) mod n"
    using seek_bucket_result[of ?sizes i "off + inc"] Suc.prems(1) n(2) sum by auto
  have P': "(P + inc) mod n = before ?sizes i' + off'"
    using Suc.prems(2) pos by (metis add.assoc mod_add_left_eq)
  have peer: "bs ! i' ! off' = concat bs ! ((P + inc) mod n)"
    using nth_concat_before[OF seek(2,3)] P' by simp
  have "(P + inc) mod n = (before ?sizes i' + off') mod n"
    by (metis P' mod_mod_trivial)
  from Suc.IH[OF seek(2) this] obtain poss where poss: "length poss = amount" "sorted_wrt (<) poss"
    "\<forall>p \<in> set poss. P + inc < p \<and> p \<le> P + inc + (\<Sum>a < amount. step_diff step s a)"
    "select_peers (\<lambda>n. rnd (n + 1)) bs step s amount i' off' (place_peer (bs ! i' ! off') fb)
      = Some (fold place_peer (map (\<lambda>p. concat bs ! (p mod n)) poss) (place_peer (bs ! i' ! off') fb))"
    by blast
  have "select_peers rnd bs step s (Suc amount) i off fb
      = Some (fold place_peer (map (\<lambda>p. concat bs ! (p mod n)) ((P + inc) # poss)) fb)"
    using seek(1) d poss(4) peer by (simp add: Let_def inc_def)
  then show ?case
    using poss(1-3) inc by (intro exI[of _ "(P + inc) # poss"]) fastforce
qed simp

lemma distinct_cyclic:
  assumes "sorted_wrt (<) poss" "\<forall>p \<in> set poss. P < p \<and> p \<le> P + n" "distinct xs" "length xs = n"
  shows "distinct (map (\<lambda>p. xs ! (p mod n)) poss)"
proof -
  have "p mod n \<noteq> q mod n" if "p \<in> set poss" "q \<in> set poss" "p < q" for p q
  proof
    assume "p mod n = q mod n"
    then have "n dvd q - p"
      using that(3) by (metis less_imp_le_nat mod_eq_dvd_iff_nat)
    moreover have "P < p" "q \<le> P + n"
      using that assms(2) by blast+
    then have "0 < q - p" "q - p < n"
      using that(3) by simp_all
    ultimately show False by (simp add: nat_dvd_not_less)
  qed
  then have "inj_on (\<lambda>p. p mod n) (set poss)"
    by (intro inj_onI) (metis linorder_neqE_nat)
  moreover have "p mod n < length xs" if "p \<in> set poss" for p
    using that assms(2,4) by (metis add.right_neutral le_less_trans less_irrefl mod_less_divisor neq0_conv)
  ultimately have "inj_on (\<lambda>p. xs ! (p mod n)) (set poss)"
    using assms(3) by (auto simp: inj_on_def nth_eq_iff_index_eq)
  moreover have "distinct poss"
    using assms(1) strict_sorted_iff by blast
  ultimately show ?thesis
    by (simp add: distinct_map)
qed

lemma return_peers_selection_eq:
  assumes wf: "pl_wf pl" and a: "0 < amount" "amount < length (peers_entries (pl_peers pl))"
    and small: "length (peers_entries (pl_peers pl)) < 2 ^ 30"
  shows "\<exists>qs. length qs = amount \<and> distinct qs \<and> set qs \<subseteq> set (peers_entries (pl_peers pl)) \<and>
    return_peers_selection rnd pl amount = Some (concat (map peer_key (filter (\<lambda>p. \<not> is_seeding p) qs @ rev (filter is_seeding qs))))"
proof -
  let ?ps = "peers_entries (pl_peers pl)" and ?bs = "map vdata (bucket_list (pl_peers pl))"
  let ?n = "length ?ps"
  have pc: "unat (peer_count pl) = ?n" "peer_count pl = of_nat ?n"
    using pl_wf_peer_count[OF wf] wf by (simp_all add: pl_wf_def)
  have ps: "concat ?bs = ?ps" by (simp add: peers_entries_def)
  obtain s where s: "shift_up (of_nat ?n) 0 = Some (of_nat (?n * 2 ^ s), s)" "?n * 2 ^ s < 2 ^ 30"
    using shift_up_result[OF less_trans[OF a] small, of 0] by auto
  have u: "unat (of_nat (?n * 2 ^ s) :: u32) = ?n * 2 ^ s"
    using s(2) unfolding unat_of_nat by (intro mod_less) simp
  let ?step = "?n * 2 ^ s div amount"
  note st = shifted_step_bounds[OF a, of s]
  have nz: "?n \<noteq> 0" "peer_count pl \<noteq> 0" using a pc by auto
  have "0 < length ?bs" using nz(1) by (cases ?bs) (auto simp: ps[symmetric])
  from select_peers_result[OF ps[symmetric, THEN arg_cong[where f = length]] nz(1) st(1) this, of "rnd 0 mod ?n" "rnd 0 mod ?n" amount "\<lambda>n. rnd (n + 1)" "([], [])"]
  obtain poss where poss: "length poss = amount" "sorted_wrt (<) poss"
    "\<forall>p \<in> set poss. rnd 0 mod ?n < p \<and> p \<le> rnd 0 mod ?n + (\<Sum>a < amount. step_diff ?step s a)"
    "select_peers (\<lambda>n. rnd (n + 1)) ?bs ?step s amount 0 (rnd 0 mod ?n) ([], [])
      = Some (fold place_peer (map (\<lambda>p. ?ps ! (p mod ?n)) poss) ([], []))"
    by (auto simp: ps)
  define qs where "qs = map (\<lambda>p. ?ps ! (p mod ?n)) poss"
  have "(\<Sum>a < amount. step_diff ?step s a) \<le> ?n"
    using div_le_mono[OF st(2), of "2 ^ s"] by (simp add: sum_step_diff)
  then have "distinct qs"
    unfolding qs_def using poss(2,3) pstore.distinct_keys[of "pl_peers pl"] wf
    by (intro distinct_cyclic[of _ "rnd 0 mod ?n"]) (auto simp: pl_wf_def distinct_map intro: order_trans)
  moreover have sub: "set qs \<subseteq> set ?ps"
    using nz(1) by (auto simp: qs_def)
  moreover have "return_peers_selection rnd pl amount = Some (two_ended (6 * amount) (fold place_peer qs (placed [])))"
  proof -
    have "(ucast (peer_count pl) :: u32) = of_nat ?n"
      using pc(1) by (metis of_nat_unat)
    then have up: "shift_up (ucast (peer_count pl)) 0 = Some (of_nat (?n * 2 ^ s), s)"
      using s(1) by simp
    have "\<not> (amount = 0 \<or> peer_count pl = 0)" using a(1) nz(2) by blast
    then show ?thesis
      unfolding return_peers_selection_def up option.case prod.case u pc(1) poss(4) qs_def by simp
  qed
  moreover have "\<forall>p \<in> set qs. peer_wf p" using sub wf by (auto simp: pl_wf_def)
  moreover have "length qs = amount" using poss(1) by (simp add: qs_def)
  ultimately show ?thesis
    using fold_place_peer[of qs "[]"] two_ended_placed[of qs] by (intro exI[of _ qs]) simp
qed

section \<open>The reply as a whole\<close>

lemma return_peers_reply:
  assumes "pl_wf pl" "length (peers_entries (pl_peers pl)) < 2 ^ 30"
  shows "\<exists>qs. distinct qs \<and> set qs \<subseteq> set (peers_entries (pl_peers pl)) \<and>
    length qs = min amount (length (peers_entries (pl_peers pl))) \<and>
    return_peers_for_torrent rnd pl amount proto = Some
      ((if proto = FLAG_TCP then announce_head_tcp pl (request_interval_random (rnd 0)) (length qs)
        else announce_head_udp pl (request_interval_random (rnd 0))) @
       concat (map peer_key (filter (\<lambda>p. \<not> is_seeding p) qs @ rev (filter is_seeding qs))) @
       (if proto = FLAG_TCP then lit ''e'' else []))"
proof -
  let ?ps = "peers_entries (pl_peers pl)"
  note pc = pl_wf_peer_count[OF assms(1)]
  have dist: "distinct ?ps"
    using pstore.distinct_keys[of "pl_peers pl"] assms(1) by (simp add: pl_wf_def distinct_map)
  consider "min amount (length ?ps) = 0" | "length ?ps \<le> amount" "?ps \<noteq> []" | "0 < amount" "amount < length ?ps"
    by fastforce
  then show ?thesis
  proof cases
    case 1
    then show ?thesis
      by (intro exI[of _ "[]"]) (auto simp: return_peers_for_torrent_def pc)
  next
    case 2
    then show ?thesis
      using return_peers_all_eq[OF assms(1)] dist
      by (intro exI[of _ ?ps]) (auto simp: return_peers_for_torrent_def pc Let_def)
  next
    case 3
    from return_peers_selection_eq[OF assms(1) 3 assms(2), of "\<lambda>n. rnd (n + 1)"] obtain qs where
      "length qs = amount" "distinct qs" "set qs \<subseteq> set ?ps"
      "return_peers_selection (\<lambda>n. rnd (n + 1)) pl amount = Some (concat (map peer_key (filter (\<lambda>p. \<not> is_seeding p) qs @ rev (filter is_seeding qs))))"
      by blast
    then show ?thesis
      using 3 by (intro exI[of _ qs]) (simp add: return_peers_for_torrent_def pc)
  qed
qed

text \<open>
  C19: The peers of an announce reply. For a torrent with fewer than 2^30 peers the reply to an announce
  always comes about (the loops end and nothing is divided by zero, whatever \<^verbatim>\<open>random()\<close> answers), and the peers
  in it are pairwise different peers of the torrent, as many as asked for, or all of them when there are fewer; leechers come first,
  then seeders, six bytes each, behind the bencoded (HTTP) or binary (UDP) header.
\<close>

theorem return_peers_distinct:
  assumes "pl_wf pl" "length (peers_entries (pl_peers pl)) < 2 ^ 30"
  shows "\<exists>qs. distinct qs \<and> set qs \<subseteq> set (peers_entries (pl_peers pl)) \<and>
    length qs = min amount (length (peers_entries (pl_peers pl))) \<and>
    return_peers_for_torrent rnd pl amount proto = Some
      ((if proto = FLAG_TCP then announce_head_tcp pl (request_interval_random (rnd 0)) (length qs)
        else announce_head_udp pl (request_interval_random (rnd 0))) @
       concat (map peer_key (filter (\<lambda>p. \<not> is_seeding p) qs @ rev (filter is_seeding qs))) @
       (if proto = FLAG_TCP then lit ''e'' else []))"
  by (rule return_peers_reply[OF assms])

theorem return_peers_distinct_witness:
  "\<exists>qs. distinct qs \<and> set qs \<subseteq> {example_peer 1 0 10, example_peer 2 0x80 30} \<and> length qs = 1 \<and>
    return_peers_for_torrent (\<lambda>n. 5) example_peerlist 1 FLAG_UDP =
      Some (announce_head_udp example_peerlist (request_interval_random 5) @
        concat (map peer_key (filter (\<lambda>p. \<not> is_seeding p) qs @ rev (filter is_seeding qs))))"
  using return_peers_distinct[OF example_peerlist_wf, of 1 "\<lambda>n. 5" FLAG_UDP]
  by (simp add: example_peerlist_def)

lemma length_dec_of_nat: "0 < k \<Longrightarrow> n < 10 ^ k \<Longrightarrow> length (dec_of_nat n) \<le> k"
proof (induction k arbitrary: n)
  case (Suc k)
  show ?case
  proof (cases "n < 10")
    case False
    then have "0 < k" using Suc.prems(2) by (cases k) auto
    moreover have "n div 10 < 10 ^ k" using Suc.prems(2) by (simp add: less_mult_imp_div_less)
    ultimately show ?thesis
      using Suc.IH False by (subst dec_of_nat.simps) simp
  qed (subst dec_of_nat.simps, simp)
qed simp

lemma length_fmt_i: "0 \<le> i \<Longrightarrow> 0 < k \<Longrightarrow> i < 10 ^ k \<Longrightarrow> length (fmt_i i) \<le> k"
  using length_dec_of_nat[of k "nat i"] by (simp add: fmt_i_def nat_less_iff)

lemma sint_small: "unat (w :: size_t) < 2 ^ 63 \<Longrightarrow> sint w = int (unat w)"
proof -
  assume "unat w < 2 ^ 63"
  then have "int (unat w) < int (2 ^ 63)" by (simp only: of_nat_less_iff)
  then have "uint w < 2 ^ 63" by simp
  moreover have "- (2 ^ 63) \<le> uint w" by (rule order_trans[of _ 0]) simp_all
  ultimately have "signed_take_bit 63 (uint w) = uint w" by (intro signed_take_bit_int_eq_self)
  then show ?thesis by (simp add: sint_uint)
qed

lemma length_fmt_zd_small: "0 < k \<Longrightarrow> k \<le> 18 \<Longrightarrow> unat w < 10 ^ k \<Longrightarrow> length (fmt_zd w) \<le> k"
proof -
  assume *: "0 < k" "k \<le> 18" "unat w < 10 ^ k"
  have "(10::nat) ^ k \<le> 10 ^ 18" using *(2) by (intro power_increasing) simp_all
  then have "unat w < 2 ^ 63" using *(3) by simp
  then have "fmt_zd w = fmt_i (int (unat w))" by (simp only: fmt_zd_def sint_small)
  moreover have "int (unat w) < 10 ^ k" using *(3) by (metis of_nat_less_iff of_nat_power of_nat_numeral)
  ultimately show ?thesis
    using * length_fmt_i[of "int (unat w)" k] by (simp only: of_nat_0_le_iff)
qed

lemma length_fmt_zd: "length (fmt_zd w) \<le> 20"
proof -
  have "- (2 ^ 63) \<le> sint w" "sint w < 2 ^ 63"
    using sint_greater_eq[of w] sint_less[of w] by simp_all
  then have "nat (sint w) < 10 ^ 19" "nat (- sint w) < 10 ^ 19" by auto
  then show ?thesis
    using length_dec_of_nat[of 19 "nat (sint w)"] length_dec_of_nat[of 19 "nat (- sint w)"]
    by (simp add: fmt_zd_def fmt_i_def)
qed

lemma length_announce_head_tcp:
  assumes wf: "pl_wf pl" and n: "n \<le> length (peers_entries (pl_peers pl))"
  shows "length (announce_head_tcp pl (request_interval_random r) n) \<le> 153"
proof -
  let ?ps = "peers_entries (pl_peers pl)"
  have le: "length ?ps \<le> 2 ^ 48" using peers_entries_bound wf by (simp add: pl_wf_def)
  have sc: "unat (seed_count pl) \<le> length ?ps"
    using pl_wf_seed_count[OF wf] by simp
  then have inc: "unat (peer_count pl - seed_count pl) \<le> length ?ps"
    using pl_wf_peer_count[OF wf] by (simp add: unat_sub word_le_nat_alt)
  have "length (fmt_zd (seed_count pl)) \<le> 15" "length (fmt_zd (peer_count pl - seed_count pl)) \<le> 15"
    using sc inc le by (intro length_fmt_zd_small; simp)+
  moreover have "length (fmt_zd (of_nat (6 * n))) \<le> 16"
  proof (rule length_fmt_zd_small)
    have "unat (of_nat (6 * n) :: size_t) = 6 * n" using n le by (intro unat_size_t) simp
    then show "unat (of_nat (6 * n) :: size_t) < 10 ^ 16" using n le by simp
  qed simp_all
  moreover have i: "request_interval_random r < 1980" by (simp add: request_interval_random_def)
  have "length (fmt_i (int (request_interval_random r))) \<le> 4" using i by (intro length_fmt_i) simp_all
  moreover have "request_interval_random r div 2 < 1000" using i by linarith
  then have "length (fmt_i (int (request_interval_random r div 2))) \<le> 3" by (intro length_fmt_i) simp_all
  ultimately show ?thesis
    using length_fmt_zd[of "down_count pl"] by (simp add: announce_head_tcp_def)
qed

lemma length_return_peers:
  assumes "pl_wf pl" "length (peers_entries (pl_peers pl)) < 2 ^ 30"
    and "return_peers_for_torrent rnd pl amount proto = Some reply"
  defines "n \<equiv> min amount (length (peers_entries (pl_peers pl)))"
  shows "if proto = FLAG_TCP then length reply \<le> 154 + 6 * n else length reply = 12 + 6 * n"
proof -
  let ?ps = "peers_entries (pl_peers pl)"
  obtain qs where qs: "set qs \<subseteq> set ?ps" "length qs = n" and r: "reply =
      (if proto = FLAG_TCP then announce_head_tcp pl (request_interval_random (rnd 0)) (length qs)
        else announce_head_udp pl (request_interval_random (rnd 0))) @
       concat (map peer_key (filter (\<lambda>p. \<not> is_seeding p) qs @ rev (filter is_seeding qs))) @
       (if proto = FLAG_TCP then lit ''e'' else [])"
    using return_peers_reply[OF assms(1,2), of amount rnd proto] assms(3) by (auto simp: n_def)
  have "\<forall>p \<in> set (filter (\<lambda>p. \<not> is_seeding p) qs @ rev (filter is_seeding qs)). peer_wf p"
    using qs(1) assms(1) by (auto simp: pl_wf_def)
  then have "length (concat (map peer_key (filter (\<lambda>p. \<not> is_seeding p) qs @ rev (filter is_seeding qs)))) = 6 * n"
    using length_concat_keys qs(2) sum_length_filter_compl[of is_seeding qs] by (simp add: add.commute)
  moreover have "length (announce_head_tcp pl (request_interval_random (rnd 0)) (length qs)) \<le> 153"
    using length_announce_head_tcp[OF assms(1)] qs(2) by (simp add: n_def)
  ultimately show ?thesis
    by (simp add: r announce_head_udp_def)
qed

text \<open>
  C37: The size of an announce reply. With \<^verbatim>\<open>n\<close> the number of peers returned, the reply is exactly \<^verbatim>\<open>12 + 6n\<close> bytes
  for UDP and at most \<^verbatim>\<open>154 + 6n\<close> bytes for HTTP, so that the at most 200 peers of an announce fit the 8192 byte buffer.
\<close>

theorem return_peers_length:
  assumes "pl_wf pl" "length (peers_entries (pl_peers pl)) < 2 ^ 30"
    and "return_peers_for_torrent rnd pl amount proto = Some reply"
  defines "n \<equiv> min amount (length (peers_entries (pl_peers pl)))"
  shows "if proto = FLAG_TCP then length reply \<le> 154 + 6 * n else length reply = 12 + 6 * n"
  using length_return_peers[OF assms(1-3)] by (simp add: n_def)

theorem return_peers_length_witness:
  "\<exists>reply. return_peers_for_torrent (\<lambda>n. 5) example_peerlist 1 FLAG_UDP = Some reply \<and> length reply = 18"
proof -
  obtain reply where "return_peers_for_torrent (\<lambda>n. 5) example_peerlist 1 FLAG_UDP = Some reply"
    using return_peers_reply[OF example_peerlist_wf, of 1 "\<lambda>n. 5" FLAG_UDP] by (auto simp: example_peerlist_def)
  then show ?thesis
    using return_peers_length[OF example_peerlist_wf, of "\<lambda>n. 5" 1 FLAG_UDP reply]
    by (simp add: example_peerlist_def)
qed

end
