(* ===== verification/OT_Tracker.thy ===== *)
theory OT_Tracker
  imports OT_Select
begin

text \<open>
  \<^verbatim>\<open>src/trackerlogic.c\<close>: announcing, removing and scraping. Every handler locks the bucket of its info hash, works on the
  torrents of that bucket and unlocks it with the change of the number of torrents. A handler is None when it would wait for the bucket
  (or when a loop would not end). Announce and removal are shown to refine a map update and a map delete on the swarm of the torrent.
\<close>

section \<open>Environment and effects\<close>

datatype ot_status_event =
    EVENT_ACCEPT | EVENT_READ | EVENT_CONNECT | EVENT_ANNOUNCE | EVENT_COMPLETED | EVENT_RENEW | EVENT_SYNC | EVENT_SCRAPE
  | EVENT_FULLSCRAPE_REQUEST | EVENT_FULLSCRAPE_REQUEST_GZIP | EVENT_FULLSCRAPE | EVENT_FAILED | EVENT_BUCKET_LOCKED
  | EVENT_WOODPECKER | EVENT_CONNID_MISSMATCH

text \<open>
  Calls into the statistics and the live sync, in the order they are issued. The event data is the
  number the code passes; where it passes the address of the work structure it is 0.
\<close>

datatype effect = stats_event ot_status_event PROTO_FLAG nat | livesync_told bytes ot_peer

text \<open>
  What a handler reads besides its arguments: the compile time options \<^verbatim>\<open>WANT_SYNC_LIVE\<close> (which also sets \<^verbatim>\<open>WANT_SYNC\<close>) and
  \<^verbatim>\<open>WANT_SPOT_WOODPECKER\<close>, the access list, the clock, the answers of \<^verbatim>\<open>random()\<close> and what freshly opened slots hold.
\<close>

record tenv =
  want_sync_live :: bool
  want_spot_woodpecker :: bool
  hashisvalid :: "bytes \<Rightarrow> bool"
  now_minutes :: int
  rnd :: "nat \<Rightarrow> nat"
  stale_torrent :: ot_torrent
  stale_peer :: ot_peer

definition new_peerlist :: ot_peerlist where
  "new_peerlist = \<lparr>pl_base = 0, seed_count = 0, peer_count = 0, down_count = 0, pl_peers = Flat \<lparr>vdata = [], vspace = 0\<rparr>\<rparr>"

section \<open>Announce\<close>

definition sanitize_flag :: "byte \<Rightarrow> byte" where
  "sanitize_flag f = (if f AND (PEER_FLAG_COMPLETED OR PEER_FLAG_SEEDING) = PEER_FLAG_COMPLETED then f XOR PEER_FLAG_COMPLETED else f)"

definition flag_set :: "ot_peer \<Rightarrow> byte \<Rightarrow> bool" where
  "flag_set p f \<longleftrightarrow> peer_flag p AND f \<noteq> 0"

text \<open>\<^verbatim>\<open>down_count++\<close> with its statistics event, and the two conditional updates of \<^verbatim>\<open>seed_count\<close> for a known peer.\<close>

definition count_completed :: "bool \<Rightarrow> ot_peerlist \<Rightarrow> ot_peerlist \<times> effect list" where
  "count_completed c pl = (if c then (pl\<lparr>down_count := down_count pl + 1\<rparr>, [stats_event EVENT_COMPLETED FLAG_TCP 0]) else (pl, []))"

definition adjust_seeds :: "ot_peer \<Rightarrow> ot_peer \<Rightarrow> ot_peerlist \<Rightarrow> ot_peerlist" where
  "adjust_seeds dest peer pl =
    (let pl1 = (if flag_set dest PEER_FLAG_SEEDING \<and> \<not> flag_set peer PEER_FLAG_SEEDING then pl\<lparr>seed_count := seed_count pl - 1\<rparr> else pl) in
     if \<not> flag_set dest PEER_FLAG_SEEDING \<and> flag_set peer PEER_FLAG_SEEDING then pl1\<lparr>seed_count := seed_count pl1 + 1\<rparr> else pl1)"

definition announce_new :: "tenv \<Rightarrow> PROTO_FLAG \<Rightarrow> bytes \<Rightarrow> ot_peer \<Rightarrow> ot_peerlist \<Rightarrow> ot_peer \<times> ot_peerlist \<times> effect list" where
  "announce_new env proto h peer pl =
    (let peer' = (if want_sync_live env \<and> proto = FLAG_MCA then peer\<lparr>peer_flag := peer_flag peer OR PEER_FLAG_FROM_SYNC\<rparr> else peer);
         told = (if want_sync_live env \<and> proto \<noteq> FLAG_MCA then [livesync_told h peer] else []);
         c = count_completed (flag_set peer' PEER_FLAG_COMPLETED) (pl\<lparr>peer_count := peer_count pl + 1\<rparr>);
         pl2 = (if flag_set peer' PEER_FLAG_SEEDING then (fst c)\<lparr>seed_count := seed_count (fst c) + 1\<rparr> else fst c) in
     (peer', pl2, told @ snd c))"

definition announce_known :: "tenv \<Rightarrow> PROTO_FLAG \<Rightarrow> bytes \<Rightarrow> ot_peer \<Rightarrow> ot_peer \<Rightarrow> ot_peerlist \<Rightarrow> ot_peer \<times> ot_peerlist \<times> effect list" where
  "announce_known env proto h peer dest pl =
    (let renew = [stats_event EVENT_RENEW FLAG_TCP (unat (peer_time dest))];
         wood = (if want_spot_woodpecker env \<and> 0 < peer_time dest \<and> peer_time dest < 20 then [stats_event EVENT_WOODPECKER FLAG_TCP 0] else []);
         told = (if want_sync_live env \<and> proto \<noteq> FLAG_MCA \<and>
                   (peer_time dest > 10 \<or> (\<not> flag_set dest PEER_FLAG_COMPLETED \<and> flag_set peer PEER_FLAG_COMPLETED))
                 then [livesync_told h peer] else []);
         c = count_completed (\<not> flag_set dest PEER_FLAG_COMPLETED \<and> flag_set peer PEER_FLAG_COMPLETED) (adjust_seeds dest peer pl);
         peer' = (if flag_set dest PEER_FLAG_COMPLETED then peer\<lparr>peer_flag := peer_flag peer OR PEER_FLAG_COMPLETED\<rparr> else peer) in
     (peer', fst c, renew @ wood @ told @ snd c))"

text \<open>From \<^verbatim>\<open>torrent->peer_list->base = g_now_minutes\<close> to the \<^verbatim>\<open>memcpy\<close> of the peer; None: no memory for the peer.\<close>

definition store_peer :: "tenv \<Rightarrow> PROTO_FLAG \<Rightarrow> bytes \<Rightarrow> ot_peer \<Rightarrow> ot_peerlist \<Rightarrow> allocs \<Rightarrow> effect list option \<times> ot_peerlist \<times> allocs" where
  "store_peer env proto h peer pl as =
    (let pl0 = pl\<lparr>pl_base := now_minutes env\<rparr>; (ok, as') = alloc as in
     case vector_find_or_insert_peer ok (stale_peer env) (pl_peers pl0) peer of
       None \<Rightarrow> (None, pl0, as')
     | Some (pv, loc, exactmatch) \<Rightarrow>
         let peer0 = peer\<lparr>peer_time := 0, peer_flag := sanitize_flag (peer_flag peer)\<rparr>;
             pl1 = pl0\<lparr>pl_peers := pv\<rparr>;
             (peer', pl2, eff) = (if \<not> exactmatch then announce_new env proto h peer0 pl1
                                  else announce_known env proto h peer0 (peer_at pv loc) pl1) in
         (Some eff, pl2\<lparr>pl_peers := peer_write (pl_peers pl2) loc peer'\<rparr>, as'))"

definition announce_torrent ::
  "tenv \<Rightarrow> PROTO_FLAG \<Rightarrow> bytes \<Rightarrow> ot_peer \<Rightarrow> nat \<Rightarrow> bucket_state \<Rightarrow> ot_torrent ot_vector \<Rightarrow> nat \<Rightarrow> int \<Rightarrow> ot_torrent \<Rightarrow> allocs
    \<Rightarrow> (bytes \<times> effect list \<times> bucket_state \<times> allocs) option" where
  "announce_torrent env proto h peer amount s v m delta t as =
    (case store_peer env proto h peer (peer_list t) as of (stored, pl, as') \<Rightarrow>
       let s' = mutex_bucket_unlock_by_hash h delta
                  (set_torrents (bucket_of_hash h) (v\<lparr>vdata := (vdata v)[m := t\<lparr>peer_list := pl\<rparr>]\<rparr>) s) in
       case stored of
         None \<Rightarrow> Some ([], [], s', as')
       | Some eff \<Rightarrow>
           if want_sync_live env \<and> proto = FLAG_MCA then Some ([], eff, s', as')
           else map_option (\<lambda>reply. (reply, eff, s', as')) (return_peers_for_torrent (rnd env) pl amount proto))"

definition add_peer_to_torrent_and_return_peers ::
  "tenv \<Rightarrow> PROTO_FLAG \<Rightarrow> bytes \<Rightarrow> ot_peer \<Rightarrow> nat \<Rightarrow> bucket_state \<Rightarrow> allocs \<Rightarrow> (bytes \<times> effect list \<times> bucket_state \<times> allocs) option" where
  "add_peer_to_torrent_and_return_peers env proto h peer amount s as =
    (let b = bucket_of_hash h in
     case mutex_bucket_lock_by_hash h s of
       None \<Rightarrow> None
     | Some s1 \<Rightarrow>
         if \<not> hashisvalid env h then
           Some (if proto = FLAG_TCP
                 then lit ''d14:failure reason63:Requested download is not authorized for use with this tracker.e'' else [],
                 [], mutex_bucket_unlock_by_hash h 0 s1, as)
         else
           case alloc as of (ok, as1) \<Rightarrow>
           case vector_find_or_insert t_hash ok (stale_torrent env) (torrents_at s1 b) h of
             None \<Rightarrow> Some ([], [], mutex_bucket_unlock_by_hash h 0 s1, as1)
           | Some (v, m, exactmatch) \<Rightarrow>
               if \<not> exactmatch then
                 case alloc as1 of (ok, as2) \<Rightarrow>
                   if \<not> ok then
                     Some ([], [], mutex_bucket_unlock_by_hash h 0 (set_torrents b (vector_remove_torrent v m) s1), as2)
                   else announce_torrent env proto h peer amount s1 v m 1 \<lparr>t_hash = h, peer_list = new_peerlist\<rparr> as2
               else
                 case clean_single_torrent (now_minutes env) (vdata v ! m) as1 of (_, t, as2) \<Rightarrow>
                   announce_torrent env proto h peer amount s1 v m 0 t as2)"

section \<open>Announce refines a map update\<close>

lemma set_bucket_nth:
  assumes "peers_wf pv"
  shows "bucket_list (set_bucket pv (peer_bucket pv k) v) ! peer_bucket pv k = v"
    "set_bucket (set_bucket pv (peer_bucket pv k) v) (peer_bucket pv k) v' = set_bucket pv (peer_bucket pv k) v'"
proof -
  have "bucket_list (set_bucket pv (peer_bucket pv k) v) ! peer_bucket pv k = v \<and>
    set_bucket (set_bucket pv (peer_bucket pv k) v) (peer_bucket pv k) v' = set_bucket pv (peer_bucket pv k) v'"
  proof (cases pv)
    case (Flat w)
    then show ?thesis using assms by (simp add: peer_bucket_Flat)
  next
    case (Buckets bs)
    then show ?thesis
      using assms peer_arr.ainv_h[of bs k] by (simp add: peer_bucket_Buckets)
  qed
  then show "bucket_list (set_bucket pv (peer_bucket pv k) v) ! peer_bucket pv k = v"
    "set_bucket (set_bucket pv (peer_bucket pv k) v) (peer_bucket pv k) v' = set_bucket pv (peer_bucket pv k) v'"
    by blast+
qed

lemma peers_wf_bucket:
  assumes "peers_wf pv"
  shows "vec_wf peer_key (bucket_list pv ! peer_bucket pv k)"
proof (cases pv)
  case (Flat w)
  then show ?thesis using assms by (simp add: peer_bucket_Flat)
next
  case (Buckets bs)
  then show ?thesis
    using assms peer_arr.ainv_h[of bs k] peer_arr.ainv_nth[of bs] by (simp add: peer_bucket_Buckets)
qed

text \<open>Inserting a peer and filling its slot is a put; the slot of a known peer holds what a lookup finds.\<close>

lemma find_or_insert_peer_cases:
  assumes wf: "peers_wf pv"
  obtains (nomem) "vector_find_or_insert_peer ok stale pv p = None" "\<not> ok"
  | (found) pv' loc where "vector_find_or_insert_peer ok stale pv p = Some (pv', loc, True)"
      "peers_lookup pv (peer_key p) = Some (peer_at pv' loc)"
      "\<And>p'. peer_key p' = peer_key p \<Longrightarrow> peer_write pv' loc p' = peers_put p' pv"
  | (new) pv' loc where "vector_find_or_insert_peer ok stale pv p = Some (pv', loc, False)"
      "peers_lookup pv (peer_key p) = None"
      "\<And>p'. peer_key p' = peer_key p \<Longrightarrow> peer_write pv' loc p' = peers_put p' pv"
proof -
  let ?b = "peer_bucket pv (peer_key p)"
  let ?v = "bucket_list pv ! ?b"
  have vwf: "vec_wf peer_key ?v" using wf by (rule peers_wf_bucket)
  have wr: "peer_write (set_bucket pv ?b v') (?b, m) p' = peers_put p' pv"
    if "vector_find_or_insert peer_key ok stale ?v (peer_key p) = Some (v', m, e)" "peer_key p' = peer_key p" for v' m e p'
    using vector_put_write[of peer_key ok stale ?v p' v' m e] that vwf set_bucket_nth[OF wf]
    by (simp add: peer_write_def peers_put_def)
  show thesis
  proof (rule vector_find_or_insert_cases[OF vwf, of ok stale "peer_key p"], goal_cases)
    case (1 m)
    then show thesis
      using wr[OF 1(1)] set_bucket_nth(1)[OF wf]
      by (intro found[of "set_bucket pv ?b ?v" "(?b, m)"])
         (simp_all add: vector_find_or_insert_peer_def Let_def peers_lookup_def peer_at_def)
  next
    case 2
    then show thesis by (intro nomem) (simp_all add: vector_find_or_insert_peer_def)
  next
    case (3 v' m)
    then show thesis
      using wr[OF 3(1)]
      by (intro new[of "set_bucket pv ?b v'" "(?b, m)"])
         (simp_all add: vector_find_or_insert_peer_def Let_def peers_lookup_def)
  qed
qed

lemma flag_or: "(f OR g) AND (m :: byte) = (f AND m) OR (g AND m)"
  by (rule bit.conj_disj_distrib2)

text \<open>The flags an announce leaves behind, as a function of what was known of the peer.\<close>

definition announce_flag :: "tenv \<Rightarrow> PROTO_FLAG \<Rightarrow> byte option \<Rightarrow> byte \<Rightarrow> byte" where
  "announce_flag env proto old f = (case old of
     None \<Rightarrow> if want_sync_live env \<and> proto = FLAG_MCA then sanitize_flag f OR PEER_FLAG_FROM_SYNC else sanitize_flag f
   | Some g \<Rightarrow> if g AND PEER_FLAG_COMPLETED \<noteq> 0 then sanitize_flag f OR PEER_FLAG_COMPLETED else sanitize_flag f)"

definition stored_peer :: "tenv \<Rightarrow> PROTO_FLAG \<Rightarrow> ot_peer option \<Rightarrow> ot_peer \<Rightarrow> ot_peer" where
  "stored_peer env proto old p = p\<lparr>peer_time := 0, peer_flag := announce_flag env proto (map_option peer_flag old) (peer_flag p)\<rparr>"

lemma stored_peer_key [simp]: "peer_key (stored_peer env proto old p) = peer_key p"
  by (simp add: stored_peer_def)

lemma stored_peer_wf [simp]: "peer_wf (stored_peer env proto old p) = peer_wf p"
  by (simp add: stored_peer_def)

lemma stored_peer_seeding: "is_seeding (stored_peer env proto old p) \<longleftrightarrow> sanitize_flag (peer_flag p) AND PEER_FLAG_SEEDING \<noteq> 0"
  by (auto simp: stored_peer_def is_seeding_def announce_flag_def flag_or split: option.split)

lemma pl_wf_put:
  assumes wf: "pl_wf pl" and p: "peer_wf p" "peer_time p = 0"
    and pc: "peer_count pl' = (if peers_lookup (pl_peers pl) (peer_key p) = None then peer_count pl + 1 else peer_count pl)"
    and sc: "seed_count pl' + (case peers_lookup (pl_peers pl) (peer_key p) of None \<Rightarrow> 0 | Some y \<Rightarrow> of_bool (is_seeding y))
      = seed_count pl + of_bool (is_seeding p)"
    and pv: "pl_peers pl' = peers_put p (pl_peers pl)"
  shows "pl_wf pl'"
proof -
  have pw: "peers_wf (pl_peers pl)" using wf by (simp add: pl_wf_def)
  let ?ps = "peers_entries (pl_peers pl)" and ?ps' = "peers_entries (pl_peers pl')"
  have "peers_wf (pl_peers pl')" using pstore.invar_put[OF pw] pv by simp
  moreover have "\<forall>q \<in> set ?ps'. peer_wf q \<and> uint (peer_time q) < OT_PEER_TIMEOUT"
    using wf p by (auto simp: pv pstore.set_entries_put[OF pw] pl_wf_def)
  moreover have "peer_count pl' = of_nat (length ?ps')"
    using pstore.size_put[OF pw, of p] wf pc by (auto simp: pv pl_wf_def split: option.splits)
  moreover have "seed_count pl' = of_nat (length (filter is_seeding ?ps'))"
  proof -
    let ?c = "(case peers_lookup (pl_peers pl) (peer_key p) of None \<Rightarrow> 0 | Some y \<Rightarrow> of_bool (is_seeding y)) :: size_t"
    have "of_nat (length (filter is_seeding ?ps')) + ?c = of_nat (length (filter is_seeding ?ps)) + of_bool (is_seeding p)"
      using arg_cong[OF pstore.count_put[OF pw, of is_seeding p], of "of_nat :: nat \<Rightarrow> size_t"] pv
      by (cases "peers_lookup (pl_peers pl) (peer_key p)") simp_all
    then have "of_nat (length (filter is_seeding ?ps')) + ?c = seed_count pl' + ?c"
      using wf sc by (simp add: pl_wf_def)
    then show ?thesis
      by (metis add_right_cancel)
  qed
  ultimately show ?thesis by (simp add: pl_wf_def)
qed

lemma count_completed_simps [simp]:
  "peer_count (fst (count_completed c pl)) = peer_count pl" "seed_count (fst (count_completed c pl)) = seed_count pl"
  "pl_base (fst (count_completed c pl)) = pl_base pl" "pl_peers (fst (count_completed c pl)) = pl_peers pl"
  "down_count (fst (count_completed c pl)) = down_count pl + of_bool c"
  by (simp_all add: count_completed_def)

lemma adjust_seeds_simps [simp]:
  "peer_count (adjust_seeds d p pl) = peer_count pl" "pl_base (adjust_seeds d p pl) = pl_base pl"
  "pl_peers (adjust_seeds d p pl) = pl_peers pl" "down_count (adjust_seeds d p pl) = down_count pl"
  "seed_count (adjust_seeds d p pl) + of_bool (is_seeding d) = seed_count pl + of_bool (is_seeding p)"
  by (simp_all add: adjust_seeds_def Let_def flag_set_def is_seeding_def)

lemma announce_new_eq:
  assumes "announce_new env proto h (p\<lparr>peer_time := 0, peer_flag := sanitize_flag (peer_flag p)\<rparr>) pl = (p', pl', eff)"
  shows "p' = stored_peer env proto None p" "peer_count pl' = peer_count pl + 1" "pl_base pl' = pl_base pl" "pl_peers pl' = pl_peers pl"
    "seed_count pl' = seed_count pl + of_bool (is_seeding p')"
    "down_count pl' = down_count pl + of_bool (peer_flag p' AND PEER_FLAG_COMPLETED \<noteq> 0)"
proof -
  show "p' = stored_peer env proto None p"
    using assms by (simp add: announce_new_def Let_def stored_peer_def announce_flag_def split: if_splits)
  show "peer_count pl' = peer_count pl + 1" "pl_base pl' = pl_base pl" "pl_peers pl' = pl_peers pl"
    "seed_count pl' = seed_count pl + of_bool (is_seeding p')"
    "down_count pl' = down_count pl + of_bool (peer_flag p' AND PEER_FLAG_COMPLETED \<noteq> 0)"
    using assms unfolding announce_new_def Let_def prod.inject
    by (auto simp: flag_set_def is_seeding_def)
qed

lemma announce_known_eq:
  assumes "announce_known env proto h (p\<lparr>peer_time := 0, peer_flag := sanitize_flag (peer_flag p)\<rparr>) dest pl = (p', pl', eff)"
  shows "p' = stored_peer env proto (Some dest) p" "peer_count pl' = peer_count pl" "pl_base pl' = pl_base pl" "pl_peers pl' = pl_peers pl"
    "seed_count pl' + of_bool (is_seeding dest) = seed_count pl + of_bool (is_seeding p')"
    "down_count pl' = down_count pl + of_bool (peer_flag dest AND PEER_FLAG_COMPLETED = 0 \<and> peer_flag p' AND PEER_FLAG_COMPLETED \<noteq> 0)"
proof -
  let ?p0 = "p\<lparr>peer_time := 0, peer_flag := sanitize_flag (peer_flag p)\<rparr>"
  have pl': "pl' = fst (count_completed (\<not> flag_set dest PEER_FLAG_COMPLETED \<and> flag_set ?p0 PEER_FLAG_COMPLETED) (adjust_seeds dest ?p0 pl))"
    using assms by (simp add: announce_known_def Let_def)
  show p': "p' = stored_peer env proto (Some dest) p"
    using assms by (simp add: announce_known_def Let_def stored_peer_def announce_flag_def flag_set_def split: if_splits)
  have "is_seeding ?p0 = is_seeding p'"
    unfolding p' stored_peer_seeding by (simp add: is_seeding_def)
  then show "peer_count pl' = peer_count pl" "pl_base pl' = pl_base pl" "pl_peers pl' = pl_peers pl"
    "seed_count pl' + of_bool (is_seeding dest) = seed_count pl + of_bool (is_seeding p')"
    by (simp_all add: pl')
  show "down_count pl' = down_count pl + of_bool (peer_flag dest AND PEER_FLAG_COMPLETED = 0 \<and> peer_flag p' AND PEER_FLAG_COMPLETED \<noteq> 0)"
    by (auto simp: pl' p' flag_set_def stored_peer_def announce_flag_def)
qed

lemma store_peer_cases:
  assumes wf: "pl_wf pl" and p: "peer_wf p"
  defines "old \<equiv> peers_lookup (pl_peers pl) (peer_key p)"
  obtains (nomem) as' where "store_peer env proto h p pl as = (None, pl\<lparr>pl_base := now_minutes env\<rparr>, as')" "\<not> fst (alloc as)"
  | (stored) eff pl' as' where "store_peer env proto h p pl as = (Some eff, pl', as')" "pl_wf pl'" "pl_base pl' = now_minutes env"
      "pl_peers pl' = peers_put (stored_peer env proto old p) (pl_peers pl)"
      "down_count pl' = down_count pl + of_bool
         ((case old of None \<Rightarrow> True | Some q \<Rightarrow> peer_flag q AND PEER_FLAG_COMPLETED = 0) \<and>
          peer_flag (stored_peer env proto old p) AND PEER_FLAG_COMPLETED \<noteq> 0)"
proof -
  obtain ok as' where al: "alloc as = (ok, as')" by fastforce
  have pw: "peers_wf (pl_peers pl)" using wf by (simp add: pl_wf_def)
  let ?sp = "stored_peer env proto old p"
  show thesis
  proof (rule find_or_insert_peer_cases[OF pw, of ok "stale_peer env" p], goal_cases)
    case 1
    then show thesis using al by (intro nomem[of as']) (simp_all add: store_peer_def)
  next
    case (2 pv loc)
    obtain p' pl2 eff where k: "announce_known env proto h (p\<lparr>peer_time := 0, peer_flag := sanitize_flag (peer_flag p)\<rparr>)
        (peer_at pv loc) (pl\<lparr>pl_base := now_minutes env, pl_peers := pv\<rparr>) = (p', pl2, eff)" by (metis prod_cases3)
    note K = announce_known_eq[OF k]
    have old: "old = Some (peer_at pv loc)" using 2(2) by (simp add: old_def)
    let ?pl' = "pl2\<lparr>pl_peers := peers_put ?sp (pl_peers pl)\<rparr>"
    have "store_peer env proto h p pl as = (Some eff, ?pl', as')"
      using al 2(1) k K(1,4) 2(3)[of ?sp] old by (simp add: store_peer_def Let_def)
    moreover have "pl_wf ?pl'"
      using K(2,5) K(1) old 2(2) by (intro pl_wf_put[OF wf, of ?sp]) (simp_all add: p stored_peer_def)
    ultimately show thesis
      using K old by (intro stored[of eff ?pl' as']) simp_all
  next
    case (3 pv loc)
    obtain p' pl2 eff where k: "announce_new env proto h (p\<lparr>peer_time := 0, peer_flag := sanitize_flag (peer_flag p)\<rparr>)
        (pl\<lparr>pl_base := now_minutes env, pl_peers := pv\<rparr>) = (p', pl2, eff)" by (metis prod_cases3)
    note K = announce_new_eq[OF k]
    have old: "old = None" using 3(2) by (simp add: old_def)
    let ?pl' = "pl2\<lparr>pl_peers := peers_put ?sp (pl_peers pl)\<rparr>"
    have "store_peer env proto h p pl as = (Some eff, ?pl', as')"
      using al 3(1) k K(1,4) 3(3)[of ?sp] old by (simp add: store_peer_def Let_def)
    moreover have "pl_wf ?pl'"
      using K(2,5) K(1) old 3(2) by (intro pl_wf_put[OF wf, of ?sp]) (simp_all add: p stored_peer_def)
    ultimately show thesis
      using K old by (intro stored[of eff ?pl' as']) simp_all
  qed
qed

lemma swarm_put:
  assumes "pl_wf pl" "peers_entries (pl_peers pl) \<noteq> [] \<longrightarrow> pl_base pl = now"
    and "pl_base pl' = now" "pl_peers pl' = peers_put p (pl_peers pl)" "peer_time p = 0"
  shows "swarm pl' = (swarm pl)(peer_key p \<mapsto> (peer_flag p, now))"
proof
  fix k
  have pw: "peers_wf (pl_peers pl)" using assms(1) by (simp add: pl_wf_def)
  then have "pl_base pl = now" if "peers_lookup (pl_peers pl) k = Some q" for q
    using that assms(2) by (auto simp: pstore.lookup_Some_iff)
  then show "swarm pl' k = ((swarm pl)(peer_key p \<mapsto> (peer_flag p, now))) k"
    using assms(3-5) pstore.lookup_put[OF pw, of p k] by (cases "peers_lookup (pl_peers pl) k") (auto simp: swarm_def)
qed

text \<open>Replacing the torrent of a hash inside its locked bucket.\<close>

lemma tracker_put_torrent:
  assumes wf: "tracker_wf now s" and l: "mutex_bucket_lock_by_hash h s = Some s1"
    and f: "vector_find_or_insert t_hash ok stale (torrents_at s1 (bucket_of_hash h)) h = Some (v, m, e)"
    and t: "t_hash t = h" "torrent_ok now t" and delta: "delta = (if e then 0 else 1)"
  defines "s' \<equiv> mutex_bucket_unlock_by_hash h delta (set_torrents (bucket_of_hash h) (v\<lparr>vdata := (vdata v)[m := t]\<rparr>) s1)"
  shows "tracker_wf now s'" "bucket_locklist s' = bucket_locklist s" "torrent_lookup s' h = Some t"
    "h' \<noteq> h \<Longrightarrow> torrent_lookup s' h' = torrent_lookup s h'"
proof -
  let ?b = "bucket_of_hash h"
  let ?v = "torrents_at s ?b"
  have at: "all_torrents s1 = all_torrents s"
    using l by (auto simp: mutex_bucket_lock_by_hash_def mutex_bucket_lock_def split: if_splits)
  note B = tracker_wf_bucket[OF wf bucket_of_hash_bound[of h]]
  have put: "v\<lparr>vdata := (vdata v)[m := t]\<rparr> = vector_put t_hash t ?v"
    using vector_put_write[of t_hash ok stale ?v t v m e] f at t(1) B(1) by simp
  have e: "e \<longleftrightarrow> vector_find t_hash ?v h \<noteq> None"
    by (rule vector_find_or_insert_cases[OF B(1), of ok stale h]) (use f at in auto)
  have size: "delta = int (vsize (vector_put t_hash t ?v)) - int (vsize ?v)"
    using torrent_vec.size_put[OF B(1), of t] e delta t(1) by (cases "vector_find t_hash ?v h") auto
  have ok: "\<forall>x \<in> set (vdata (vector_put t_hash t ?v)). torrent_ok now x \<and> bucket_of_hash (t_hash x) = ?b"
    using B(2) t by (auto simp: torrent_vec.set_entries_put[OF B(1)])
  note U = tracker_wf_update[OF wf bucket_of_hash_bound l[unfolded mutex_bucket_lock_by_hash_def] torrent_vec.invar_put[OF B(1)] ok size]
  have s': "s' = mutex_bucket_unlock ?b delta (set_torrents ?b (vector_put t_hash t ?v) s1)"
    by (simp add: s'_def put mutex_bucket_unlock_by_hash_def)
  show "tracker_wf now s'" "bucket_locklist s' = bucket_locklist s"
    using U(1,2) by (simp_all add: s')
  note L = torrent_lookup_update[OF U(3) B(3), folded s']
  show "torrent_lookup s' h = Some t"
    using L[of h] torrent_vec.lookup_put[OF B(1), of t h] t(1) by simp
  show "torrent_lookup s' h' = torrent_lookup s h'" if "h' \<noteq> h"
    using L[of h'] torrent_vec.lookup_put[OF B(1), of t h'] t(1) that by (simp add: torrent_lookup_def)
qed

lemma tracker_unlock_unchanged:
  assumes wf: "tracker_wf now s" and l: "mutex_bucket_lock_by_hash h s = Some s1"
  shows "mutex_bucket_unlock_by_hash h 0 s1 = s"
  using l by (auto simp: mutex_bucket_lock_by_hash_def mutex_bucket_lock_def mutex_bucket_unlock_by_hash_def
      mutex_bucket_unlock_def bucket_push_def bucket_remove_eq_remove1 bucket_check_iff remove1_append split: if_splits)

text \<open>Undoing an insertion because there is no memory for the peer list.\<close>

lemma vector_insert_remove:
  assumes "vec_wf t_hash v" "vector_find_or_insert t_hash ok stale v h = Some (v', m, False)"
  shows "vdata (vector_remove_torrent v' m) = vdata v" "vec_wf t_hash (vector_remove_torrent v' m)"
proof -
  have "vdata (vector_remove_torrent v' m) = vdata v \<and> vec_wf t_hash (vector_remove_torrent v' m)"
  proof (rule vector_find_or_insert_cases[OF assms(1), of ok stale h], goal_cases)
    case (3 v1 m1)
    then have *: "v' = v1" "m = m1" using assms(2) by simp_all
    have "remove_at m (insert_at m stale (vdata v)) = vdata v"
      using 3(4) * by (simp add: remove_at_def insert_at_def)
    then have d: "vdata (vector_remove_torrent v' m) = vdata v"
      using 3(2,4) * by simp
    moreover have "vsize v \<le> vspace (vector_remove_torrent v' m)"
      using 3(2,3,4) * d by (auto simp: vector_remove_torrent_def Let_def split: if_splits)
    ultimately show ?case using assms(1) by (simp add: vec_wf_def)
  qed (use assms(2) in auto)
  then show "vdata (vector_remove_torrent v' m) = vdata v" "vec_wf t_hash (vector_remove_torrent v' m)" by blast+
qed

lemma tracker_same_data:
  assumes wf: "tracker_wf now s" and l: "mutex_bucket_lock_by_hash h s = Some s1"
    and v: "vdata v = vdata (torrents_at s (bucket_of_hash h))" "vec_wf t_hash v"
  defines "s' \<equiv> mutex_bucket_unlock_by_hash h 0 (set_torrents (bucket_of_hash h) v s1)"
  shows "tracker_wf now s'" "bucket_locklist s' = bucket_locklist s" "torrent_lookup s' h' = torrent_lookup s h'"
proof -
  note B = tracker_wf_bucket[OF wf bucket_of_hash_bound[of h]]
  have "0 = int (vsize v) - int (vsize (torrents_at s (bucket_of_hash h)))" using v(1) by simp
  note U = tracker_wf_update[OF wf bucket_of_hash_bound l[unfolded mutex_bucket_lock_by_hash_def] v(2) _ this]
  show "tracker_wf now s'" "bucket_locklist s' = bucket_locklist s" "torrent_lookup s' h' = torrent_lookup s h'"
    using U B(1,2) v torrent_lookup_update[OF U(3) B(3), of h']
    by (auto simp: s'_def mutex_bucket_unlock_by_hash_def vector_find_eq_find torrent_lookup_def)
qed

lemma expire_entries:
  assumes "clean_peerlist now pl as = (gone, pl', as')" "pl_wf pl" "pl_base pl \<le> now"
  shows "pl_wf pl' \<and> length (peers_entries (pl_peers pl')) \<le> length (peers_entries (pl_peers pl))"
proof (cases "now - pl_base pl \<le> OT_TORRENT_TIMEOUT")
  case True
  show ?thesis
  proof (rule clean_peerlist_cases[OF assms(2,3) True, of as], goal_cases)
    case (3 d pl1 as1)
    have "length (peers_entries (pl_peers pl1)) = length (filter (peer_stays d) (peers_entries (pl_peers pl)))"
      using 3(6) by (metis length_map size_mset)
    then show ?case using 3 assms(1) by simp
  qed (use assms in auto)
next
  case False
  then show ?thesis using assms by (simp add: clean_peerlist_def Let_def)
qed

lemma store_peer_result:
  assumes "store_peer env proto h p pl as = (stored, pl', as')" "pl_wf pl" "peer_wf p"
  shows "pl_wf pl'" "pl_base pl' = now_minutes env" "length (peers_entries (pl_peers pl')) \<le> Suc (length (peers_entries (pl_peers pl)))"
proof -
  have pw: "peers_wf (pl_peers pl)" using assms(2) by (simp add: pl_wf_def)
  have "pl_wf pl' \<and> pl_base pl' = now_minutes env \<and> length (peers_entries (pl_peers pl')) \<le> Suc (length (peers_entries (pl_peers pl)))"
  proof (rule store_peer_cases[OF assms(2,3), of env proto h as], goal_cases)
    case 1
    then show ?case using assms(1,2) by (auto simp: pl_wf_def)
  next
    case (2 eff pl1 as1)
    then show ?case
      using assms(1) pstore.size_put[OF pw, of "stored_peer env proto (peers_lookup (pl_peers pl) (peer_key p)) p"] by simp
  qed
  then show "pl_wf pl'" "pl_base pl' = now_minutes env" "length (peers_entries (pl_peers pl')) \<le> Suc (length (peers_entries (pl_peers pl)))"
    by blast+
qed

lemma announce_torrent_result:
  assumes wf: "tracker_wf (now_minutes env) s" and l: "mutex_bucket_lock_by_hash h s = Some s1"
    and f: "vector_find_or_insert t_hash ok stale (torrents_at s1 (bucket_of_hash h)) h = Some (v, m, e)"
    and t: "t_hash t = h" "length h = 20" "pl_wf (peer_list t)" "length (peers_entries (pl_peers (peer_list t))) < 2 ^ 30 - 1"
    and p: "peer_wf p" and delta: "delta = (if e then 0 else 1)"
  shows "\<exists>reply eff s' as' stored pl'. announce_torrent env proto h p amount s1 v m delta t as = Some (reply, eff, s', as') \<and>
    store_peer env proto h p (peer_list t) as = (stored, pl', as') \<and> torrent_lookup s' h = Some (t\<lparr>peer_list := pl'\<rparr>) \<and>
    tracker_wf (now_minutes env) s' \<and> bucket_locklist s' = bucket_locklist s \<and> (\<forall>h'. h' \<noteq> h \<longrightarrow> torrent_lookup s' h' = torrent_lookup s h') \<and>
    (reply = [] \<or> return_peers_for_torrent (rnd env) pl' amount proto = Some reply)"
proof -
  obtain stored pl' as' where st: "store_peer env proto h p (peer_list t) as = (stored, pl', as')" by (metis prod_cases3)
  note S = store_peer_result[OF st t(3) p]
  let ?t = "t\<lparr>peer_list := pl'\<rparr>"
  have ok: "torrent_ok (now_minutes env) ?t" "t_hash ?t = h" using S(1,2) t(1,2) by (simp_all add: torrent_ok_def)
  note P = tracker_put_torrent[OF wf l f ok(2,1) delta]
  have "\<exists>reply. return_peers_for_torrent (rnd env) pl' amount proto = Some reply"
    using return_peers_reply[OF S(1), of amount "rnd env" proto] S(3) t(4) by auto
  then show ?thesis
    using st P unfolding announce_torrent_def by (auto simp: Let_def split: option.split)
qed

text \<open>The torrent an announce works on, before the peer is stored: a fresh one or the cleaned old one.\<close>

definition announce_base :: "tenv \<Rightarrow> bytes \<Rightarrow> bucket_state \<Rightarrow> allocs \<Rightarrow> ot_torrent \<times> allocs" where
  "announce_base env h s as = (case torrent_lookup s h of
     None \<Rightarrow> (\<lparr>t_hash = h, peer_list = new_peerlist\<rparr>, as)
   | Some t \<Rightarrow> snd (clean_single_torrent (now_minutes env) t as))"

lemma new_peerlist_wf: "pl_wf new_peerlist" "peers_entries (pl_peers new_peerlist) = []" "down_count new_peerlist = 0"
  by (simp_all add: pl_wf_def new_peerlist_def vec_wf_def)

lemma torrent_lookup_ok: "tracker_wf now s \<Longrightarrow> torrent_lookup s h = Some t \<Longrightarrow> torrent_ok now t \<and> t_hash t = h"
  using tracker_wf_bucket[of now s "bucket_of_hash h"] torrent_vec.lookup_Some_iff[of "torrents_at s (bucket_of_hash h)" h t]
  by (simp add: torrent_lookup_def)

lemma announce_base_ok:
  assumes "tracker_wf (now_minutes env) s" "length h = 20"
    and "\<And>t. torrent_lookup s h = Some t \<Longrightarrow> length (peers_entries (pl_peers (peer_list t))) < 2 ^ 30 - 1"
    and "announce_base env h s as = (t, as')"
  shows "t_hash t = h" "pl_wf (peer_list t)" "length (peers_entries (pl_peers (peer_list t))) < 2 ^ 30 - 1"
proof -
  have "t_hash t = h \<and> pl_wf (peer_list t) \<and> length (peers_entries (pl_peers (peer_list t))) < 2 ^ 30 - 1"
  proof (cases "torrent_lookup s h")
    case None
    then show ?thesis using assms(4) new_peerlist_wf by (auto simp: announce_base_def)
  next
    case (Some t0)
    obtain gone where c: "clean_single_torrent (now_minutes env) t0 as = (gone, t, as')"
      using assms(4) Some by (cases "clean_single_torrent (now_minutes env) t0 as") (auto simp: announce_base_def)
    then obtain pl' where "clean_peerlist (now_minutes env) (peer_list t0) as = (gone, pl', as')" "t = t0\<lparr>peer_list := pl'\<rparr>"
      by (auto simp: clean_single_torrent_def split: prod.splits)
    then show ?thesis
      using expire_entries torrent_lookup_ok[OF assms(1) Some] assms(3)[OF Some] by (fastforce simp: torrent_ok_def)
  qed
  then show "t_hash t = h" "pl_wf (peer_list t)" "length (peers_entries (pl_peers (peer_list t))) < 2 ^ 30 - 1" by blast+
qed

text \<open>Every path of an announce: rejected, out of memory at one of three places, or stored.\<close>

lemma add_peer_paths:
  assumes wf: "tracker_wf (now_minutes env) s" and h: "length h = 20" and p: "peer_wf p"
    and l: "mutex_bucket_lock_by_hash h s = Some s1"
    and small: "\<And>t. torrent_lookup s h = Some t \<Longrightarrow> length (peers_entries (pl_peers (peer_list t))) < 2 ^ 30 - 1"
  obtains (unstored) reply s' as' where "add_peer_to_torrent_and_return_peers env proto h p amount s as = Some (reply, [], s', as')"
      "tracker_wf (now_minutes env) s'" "bucket_locklist s' = bucket_locklist s" "\<forall>h'. torrent_lookup s' h' = torrent_lookup s h'"
      "hashisvalid env h \<longrightarrow> as \<noteq> []" "proto \<noteq> FLAG_TCP \<longrightarrow> reply = []" "length reply \<le> 154"
  | (announced) reply eff s' as1 as2 as' t stored pl' where
      "add_peer_to_torrent_and_return_peers env proto h p amount s as = Some (reply, eff, s', as')" "hashisvalid env h"
      "announce_base env h s as1 = (t, as2)" "store_peer env proto h p (peer_list t) as2 = (stored, pl', as')"
      "torrent_lookup s' h = Some (t\<lparr>peer_list := pl'\<rparr>)" "tracker_wf (now_minutes env) s'" "bucket_locklist s' = bucket_locklist s"
      "\<forall>h'. h' \<noteq> h \<longrightarrow> torrent_lookup s' h' = torrent_lookup s h'"
      "reply = [] \<or> return_peers_for_torrent (rnd env) pl' amount proto = Some reply" "as = [] \<longrightarrow> as1 = []"
proof (cases "hashisvalid env h")
  case False
  then show thesis
    using tracker_unlock_unchanged[OF wf l] l wf by (intro unstored[of _ s as]) (auto simp: add_peer_to_torrent_and_return_peers_def Let_def)
next
  case valid: True
  let ?b = "bucket_of_hash h"
  have at: "torrents_at s1 ?b = torrents_at s ?b"
    using l by (auto simp: mutex_bucket_lock_by_hash_def mutex_bucket_lock_def split: if_splits)
  note B = tracker_wf_bucket[OF wf bucket_of_hash_bound[of h]]
  obtain ok as1 where a1: "alloc as = (ok, as1)" by fastforce
  show thesis
  proof (rule vector_find_or_insert_cases[OF B(1), of ok "stale_torrent env" h], goal_cases)
    case (1 m)
    let ?t0 = "vdata (torrents_at s ?b) ! m"
    obtain gone t as2 where c: "clean_single_torrent (now_minutes env) ?t0 as1 = (gone, t, as2)" by (metis prod_cases3)
    have base: "announce_base env h s as1 = (t, as2)"
      using 1(4) c by (simp add: announce_base_def torrent_lookup_def)
    note T = announce_base_ok[OF wf h small base]
    from announce_torrent_result[OF wf l 1(1)[folded at] T(1) h T(2,3) p refl, of proto amount as2]
    obtain reply eff s' as' stored pl' where A: "announce_torrent env proto h p amount s1 (torrents_at s ?b) m 0 t as2 = Some (reply, eff, s', as')"
      "store_peer env proto h p (peer_list t) as2 = (stored, pl', as')" "torrent_lookup s' h = Some (t\<lparr>peer_list := pl'\<rparr>)"
      "tracker_wf (now_minutes env) s'" "bucket_locklist s' = bucket_locklist s" "\<forall>h'. h' \<noteq> h \<longrightarrow> torrent_lookup s' h' = torrent_lookup s h'"
      "reply = [] \<or> return_peers_for_torrent (rnd env) pl' amount proto = Some reply"
      by (auto simp: at)
    have "add_peer_to_torrent_and_return_peers env proto h p amount s as = Some (reply, eff, s', as')"
      using 1(1) c l valid a1 A(1) by (simp add: add_peer_to_torrent_and_return_peers_def Let_def at)
    from announced[OF this valid base A(2-7)] show thesis using a1 by (cases as) auto
  next
    case 2
    then show thesis
      using tracker_unlock_unchanged[OF wf l] l wf valid a1 by (intro unstored) (auto simp: add_peer_to_torrent_and_return_peers_def Let_def at)
  next
    case (3 v m)
    obtain ok2 as2 where a2: "alloc as1 = (ok2, as2)" by fastforce
    show thesis
    proof (cases ok2)
      case False
      note R = vector_insert_remove[OF B(1) 3(1)]
      have run: "add_peer_to_torrent_and_return_peers env proto h p amount s as
          = Some ([], [], mutex_bucket_unlock_by_hash h 0 (set_torrents ?b (vector_remove_torrent v m) s1), as2)"
        using 3(1) False l valid a1 a2 by (simp add: add_peer_to_torrent_and_return_peers_def Let_def at)
      have "hashisvalid env h \<longrightarrow> as \<noteq> []" using a1 a2 False by auto
      from unstored[OF run tracker_same_data(1,2)[OF wf l R] _ this] show thesis
        using tracker_same_data(3)[OF wf l R] by simp
    next
      case True
      let ?t = "\<lparr>t_hash = h, peer_list = new_peerlist\<rparr>"
      have base: "announce_base env h s as2 = (?t, as2)"
        using 3(7) by (simp add: announce_base_def torrent_lookup_def)
      note T = announce_base_ok[OF wf h small base]
      from announce_torrent_result[OF wf l 3(1)[folded at] T(1) h T(2,3) p refl, of proto amount as2]
      obtain reply eff s' as' stored pl' where A: "announce_torrent env proto h p amount s1 v m 1 ?t as2 = Some (reply, eff, s', as')"
        "store_peer env proto h p (peer_list ?t) as2 = (stored, pl', as')" "torrent_lookup s' h = Some (?t\<lparr>peer_list := pl'\<rparr>)"
        "tracker_wf (now_minutes env) s'" "bucket_locklist s' = bucket_locklist s" "\<forall>h'. h' \<noteq> h \<longrightarrow> torrent_lookup s' h' = torrent_lookup s h'"
        "reply = [] \<or> return_peers_for_torrent (rnd env) pl' amount proto = Some reply"
        by (auto simp: at)
      have "add_peer_to_torrent_and_return_peers env proto h p amount s as = Some (reply, eff, s', as')"
        using 3(1) True l valid a1 a2 A(1) by (simp add: add_peer_to_torrent_and_return_peers_def Let_def at)
      from announced[OF this valid base A(2-7)] show thesis using a1 a2 by (cases as) auto
    qed
  qed
qed

text \<open>Without failing allocations the answers stay used up.\<close>

lemma no_failures:
  "prealloc n [] = (True, [])" "snd (distribute n ps bs []) = []" "fst (distribute n ps bs []) \<noteq> None"
proof -
  show "prealloc n [] = (True, [])" by (induction n) simp_all
  have "snd (distribute n ps bs []) = [] \<and> fst (distribute n ps bs []) \<noteq> None"
    by (induction ps arbitrary: bs) (auto simp: Let_def)
  then show "snd (distribute n ps bs []) = []" "fst (distribute n ps bs []) \<noteq> None" by blast+
qed

lemma redistribute_no_failures: "snd (vector_redistribute_buckets pl []) = []"
  using no_failures(2) unfolding vector_redistribute_buckets_def Let_def
  by (auto simp: no_failures(1) split: prod.split option.split) (metis no_failures(2) snd_conv)+

lemma clean_no_failures: "snd (snd (clean_single_torrent now t [])) = []"
proof -
  have "snd (clean_timedout_peers now d pl []) = []" for d pl
    using redistribute_no_failures by (auto simp: clean_timedout_peers_def Let_def split: prod.split) (metis snd_conv)+
  then have "snd (snd (clean_peerlist now (peer_list t) [])) = []"
    by (simp add: clean_peerlist_def Let_def)
  then show ?thesis
    by (auto simp: clean_single_torrent_def split: prod.split)
qed

lemma announce_base_swarm:
  assumes "tracker_wf (now_minutes env) s" "announce_base env h s [] = (t, as)"
    and "\<And>t. torrent_lookup s h = Some t \<Longrightarrow> now_minutes env - pl_base (peer_list t) \<le> OT_TORRENT_TIMEOUT"
  shows "swarm (peer_list t) = expire (now_minutes env) (case torrent_lookup s h of None \<Rightarrow> (\<lambda>k. None) | Some t \<Rightarrow> swarm (peer_list t))"
    "peers_entries (pl_peers (peer_list t)) \<noteq> [] \<longrightarrow> pl_base (peer_list t) = now_minutes env" "as = []"
    "down_count (peer_list t) = (case torrent_lookup s h of None \<Rightarrow> 0 | Some t \<Rightarrow> down_count (peer_list t))"
proof -
  let ?now = "now_minutes env"
  have "swarm (peer_list t) = expire ?now (case torrent_lookup s h of None \<Rightarrow> (\<lambda>k. None) | Some t \<Rightarrow> swarm (peer_list t)) \<and>
    (peers_entries (pl_peers (peer_list t)) \<noteq> [] \<longrightarrow> pl_base (peer_list t) = ?now) \<and> as = [] \<and>
    down_count (peer_list t) = (case torrent_lookup s h of None \<Rightarrow> 0 | Some t \<Rightarrow> down_count (peer_list t))"
  proof (cases "torrent_lookup s h")
    case None
    then have "t = \<lparr>t_hash = h, peer_list = new_peerlist\<rparr>" "as = []"
      using assms(2) by (simp_all add: announce_base_def)
    then show ?thesis
      using None new_peerlist_wf swarm_empty[OF new_peerlist_wf(1,2)] by (simp add: expire_def fun_eq_iff)
  next
    case (Some t0)
    then obtain gone where c: "clean_single_torrent ?now t0 [] = (gone, t, as)"
      using assms(2) by (cases "clean_single_torrent ?now t0 []") (auto simp: announce_base_def)
    then obtain pl' where cp: "clean_peerlist ?now (peer_list t0) [] = (gone, pl', as)" "t = t0\<lparr>peer_list := pl'\<rparr>"
      by (auto simp: clean_single_torrent_def split: prod.splits)
    show ?thesis
      using clean_peerlist_swarm[OF _ _ assms(3)[OF Some] cp(1)] torrent_lookup_ok[OF assms(1) Some] cp(2) Some
        clean_no_failures[of ?now t0] c by (simp add: torrent_ok_def)
  qed
  then show "swarm (peer_list t) = expire ?now (case torrent_lookup s h of None \<Rightarrow> (\<lambda>k. None) | Some t \<Rightarrow> swarm (peer_list t))"
    "peers_entries (pl_peers (peer_list t)) \<noteq> [] \<longrightarrow> pl_base (peer_list t) = ?now" "as = []"
    "down_count (peer_list t) = (case torrent_lookup s h of None \<Rightarrow> 0 | Some t \<Rightarrow> down_count (peer_list t))"
    by blast+
qed

lemma mutex_lock_free: "bucket_locklist s = [] \<Longrightarrow> \<exists>s1. mutex_bucket_lock_by_hash h s = Some s1"
  by (simp add: mutex_bucket_lock_by_hash_def mutex_bucket_lock_def bucket_check_def)

text \<open>
  C18: An announce is safe on every path. When the bucket of the hash is free, an announce of a well-formed peer always comes to an
  end with a reply, whether the hash is rejected, one of the allocations fails or the peer is stored; it keeps the invariant
  of the tracker (sorted vectors, exact counters, exact torrent count), gives the lock back and leaves every
  other torrent untouched.
\<close>

theorem announce_keeps_invariant:
  assumes "tracker_wf (now_minutes env) s" "length h = 20" "peer_wf p" "mutex_bucket_lock_by_hash h s = Some s1"
    and "\<And>t. torrent_lookup s h = Some t \<Longrightarrow> length (peers_entries (pl_peers (peer_list t))) < 2 ^ 30 - 1"
  shows "\<exists>reply eff s' as'. add_peer_to_torrent_and_return_peers env proto h p amount s as = Some (reply, eff, s', as') \<and>
    tracker_wf (now_minutes env) s' \<and> bucket_locklist s' = bucket_locklist s \<and>
    (\<forall>h'. h' \<noteq> h \<longrightarrow> torrent_lookup s' h' = torrent_lookup s h')"
  by (rule add_peer_paths[OF assms, of proto amount as]) auto

definition example_env :: "int \<Rightarrow> tenv" where
  "example_env now = \<lparr>want_sync_live = False, want_spot_woodpecker = False, hashisvalid = (\<lambda>h. True), now_minutes = now,
     rnd = (\<lambda>n. 5), stale_torrent = example_torrent, stale_peer = example_peer 9 9 9\<rparr>"

lemma example_env_simps [simp]: "now_minutes (example_env now) = now" "hashisvalid (example_env now) h" "want_sync_live (example_env now) = False"
  by (simp_all add: example_env_def)

lemma example_peer_wf [simp]: "peer_wf (example_peer n f t)"
  by (simp add: example_peer_def peer_wf_def)

theorem announce_keeps_invariant_witness:
  "\<exists>reply eff s' as'. add_peer_to_torrent_and_return_peers (example_env 120) FLAG_TCP (replicate 20 7) (example_peer 3 0 0) 50 example_tracker [True, False]
     = Some (reply, eff, s', as') \<and> tracker_wf 120 s' \<and> bucket_locklist s' = []"
proof -
  obtain s1 where "mutex_bucket_lock_by_hash (replicate 20 7) example_tracker = Some s1"
    using mutex_lock_free[OF example_tracker_wf(2)] by blast
  from announce_keeps_invariant[where env = "example_env 120" and p = "example_peer 3 0 0" and proto = FLAG_TCP
      and amount = 50 and as = "[True, False]", OF _ _ example_peer_wf this] show ?thesis
    using example_tracker_wf(1)[of 120] example_tracker_wf(2,3) by (auto simp: example_torrent_def example_peerlist_def)
qed

lemma announce_update:
  fixes proto :: PROTO_FLAG
  assumes "tracker_wf (now_minutes env) s" "length h = 20" "peer_wf p" "mutex_bucket_lock_by_hash h s = Some s1" "hashisvalid env h"
    and "\<And>t. torrent_lookup s h = Some t \<Longrightarrow> length (peers_entries (pl_peers (peer_list t))) < 2 ^ 30 - 1"
    and "\<And>t. torrent_lookup s h = Some t \<Longrightarrow> now_minutes env - pl_base (peer_list t) \<le> OT_TORRENT_TIMEOUT"
  defines "m \<equiv> expire (now_minutes env) (case torrent_lookup s h of None \<Rightarrow> (\<lambda>k. None) | Some t \<Rightarrow> swarm (peer_list t))"
  defines "f \<equiv> announce_flag env proto (map_option fst (m (peer_key p))) (peer_flag p)"
  shows "\<exists>reply eff s' t'. add_peer_to_torrent_and_return_peers env proto h p amount s [] = Some (reply, eff, s', []) \<and>
    torrent_lookup s' h = Some t' \<and> swarm (peer_list t') = m(peer_key p \<mapsto> (f, now_minutes env)) \<and>
    down_count (peer_list t') = (case torrent_lookup s h of None \<Rightarrow> 0 | Some t \<Rightarrow> down_count (peer_list t)) + of_bool
      ((case m (peer_key p) of None \<Rightarrow> True | Some (g, _) \<Rightarrow> g AND PEER_FLAG_COMPLETED = 0) \<and> f AND PEER_FLAG_COMPLETED \<noteq> 0)"
proof (rule add_peer_paths[OF assms(1-4,6), of proto amount "[]"], goal_cases)
  case (3 reply eff s' as1 as2 as' t stored pl')
  have as1: "as1 = []" using 3(10) by simp
  note T = announce_base_ok[OF assms(1,2,6) 3(3)] and W = announce_base_swarm[OF assms(1) 3(3)[unfolded as1] assms(7)]
  have pw: "pl_wf (peer_list t)" by (rule T(2))
  show ?case
  proof (rule store_peer_cases[OF pw assms(3), of env proto h as2], goal_cases)
    case 1
    then show ?case using W(3) by simp
  next
    case (2 eff' pl2 as3)
    have eq: "pl' = pl2" "as' = as3" using 2(1) 3(4) by simp_all
    let ?old = "peers_lookup (pl_peers (peer_list t)) (peer_key p)"
    have sw: "swarm (peer_list t) = m" using W(1) by (simp add: m_def)
    have old: "map_option fst (m (peer_key p)) = map_option peer_flag ?old"
      by (simp add: option.map_comp comp_def swarm_def flip: sw)
    have f: "peer_flag (stored_peer env proto ?old p) = f" by (simp add: stored_peer_def f_def old)
    have "swarm pl' = m(peer_key p \<mapsto> (f, now_minutes env))"
      using swarm_put[OF pw W(2) 2(3,4)] by (simp add: eq sw f) (simp add: stored_peer_def)
    moreover have "as3 = []" using 2(1) W(3) by (auto simp: store_peer_def Let_def split: prod.splits option.splits)
    moreover have "(case m (peer_key p) of None \<Rightarrow> True | Some (g, _) \<Rightarrow> g AND PEER_FLAG_COMPLETED = 0)
        = (case ?old of None \<Rightarrow> True | Some q \<Rightarrow> peer_flag q AND PEER_FLAG_COMPLETED = 0)"
      by (auto simp: swarm_def split: option.split simp flip: sw)
    ultimately show ?case
      using 3(1,5) 2(5) W(4) eq f by auto
  qed
qed (use assms(5,6) in auto)

text \<open>
  C3: An announce refines a map update. With memory available and an accepted hash, for a torrent touched within the last day
  (or not known yet), the swarm of the torrent afterwards is the old swarm without the expired peers, in which the announcing peer has the present minute
  and its sanitized flags (a \<^verbatim>\<open>COMPLETED\<close> flag seen earlier is kept, and a peer first heard of through live sync is marked); nothing
  else about the torrent changes except that the download count grows by one when the peer reports completion for the first time.
\<close>

theorem announce_refines_update:
  fixes proto :: PROTO_FLAG
  assumes "tracker_wf (now_minutes env) s" "length h = 20" "peer_wf p" "mutex_bucket_lock_by_hash h s = Some s1" "hashisvalid env h"
    and "\<And>t. torrent_lookup s h = Some t \<Longrightarrow> length (peers_entries (pl_peers (peer_list t))) < 2 ^ 30 - 1"
    and "\<And>t. torrent_lookup s h = Some t \<Longrightarrow> now_minutes env - pl_base (peer_list t) \<le> OT_TORRENT_TIMEOUT"
  defines "m \<equiv> expire (now_minutes env) (case torrent_lookup s h of None \<Rightarrow> (\<lambda>k. None) | Some t \<Rightarrow> swarm (peer_list t))"
  defines "f \<equiv> announce_flag env proto (map_option fst (m (peer_key p))) (peer_flag p)"
  shows "\<exists>reply eff s' t'. add_peer_to_torrent_and_return_peers env proto h p amount s [] = Some (reply, eff, s', []) \<and>
    torrent_lookup s' h = Some t' \<and> swarm (peer_list t') = m(peer_key p \<mapsto> (f, now_minutes env)) \<and>
    down_count (peer_list t') = (case torrent_lookup s h of None \<Rightarrow> 0 | Some t \<Rightarrow> down_count (peer_list t)) + of_bool
      ((case m (peer_key p) of None \<Rightarrow> True | Some (g, _) \<Rightarrow> g AND PEER_FLAG_COMPLETED = 0) \<and> f AND PEER_FLAG_COMPLETED \<noteq> 0)"
  unfolding m_def f_def by (rule announce_update[OF assms(1-7)])

theorem announce_refines_update_witness:
  "\<exists>reply eff s' t'. add_peer_to_torrent_and_return_peers (example_env 120) FLAG_TCP (replicate 20 7) (example_peer 3 0x80 0) 50 example_tracker []
     = Some (reply, eff, s', []) \<and> torrent_lookup s' (replicate 20 7) = Some t' \<and>
     swarm (peer_list t') (peer_key (example_peer 3 0 0)) = Some (0x80, 120)"
proof -
  let ?h = "replicate 20 7 :: bytes" and ?p = "example_peer 3 0x80 0"
  obtain s1 where l: "mutex_bucket_lock_by_hash ?h example_tracker = Some s1"
    using mutex_lock_free[OF example_tracker_wf(2)] by blast
  have wf: "tracker_wf (now_minutes (example_env 120)) example_tracker" using example_tracker_wf(1)[of 120] by simp
  have small: "length (peers_entries (pl_peers (peer_list t))) < 2 ^ 30 - 1"
      "now_minutes (example_env 120) - pl_base (peer_list t) \<le> OT_TORRENT_TIMEOUT"
    if "torrent_lookup example_tracker ?h = Some t" for t
    using that example_tracker_wf(3) by (auto simp: example_torrent_def example_peerlist_def)
  have key: "peer_key (example_peer 3 0 0) = peer_key ?p"
    by (simp add: example_peer_def peer_key_def)
  have m: "expire 120 (swarm example_peerlist) (peer_key ?p) = None"
    by (simp add: expire_def swarm_def example_peerlist_def peers_lookup_def peer_bucket_def vector_find_eq_find vec_wf_def example_peer_def peer_key_def)
  have f: "announce_flag (example_env 120) FLAG_TCP None (peer_flag ?p) = 0x80"
    by (simp add: announce_flag_def sanitize_flag_def example_peer_def)
  have pl: "peer_list example_torrent = example_peerlist" by (simp add: example_torrent_def)
  have "length ?h = 20" by simp
  from announce_refines_update[where proto = FLAG_TCP and amount = 50, OF wf this example_peer_wf[of 3 "0x80" 0] l example_env_simps(2) small]
  obtain reply eff s' t' where "add_peer_to_torrent_and_return_peers (example_env 120) FLAG_TCP ?h ?p 50 example_tracker [] = Some (reply, eff, s', [])"
    "torrent_lookup s' ?h = Some t'" "swarm (peer_list t') (peer_key ?p) = Some (0x80, 120)"
    unfolding example_tracker_wf(3) option.case pl example_env_simps(1) m option.map f by (metis fun_upd_same)
  then show ?thesis
    unfolding key by blast
qed

end
