(* ===== verification/OT_Scrape.thy ===== *)
theory OT_Scrape
  imports OT_Tracker
begin

text \<open>
  The rest of \<^verbatim>\<open>src/trackerlogic.c\<close>: removing a peer, the UDP and HTTP scrapes, torrents from a saved state, the
  iterator over all torrents and the shutdown.
\<close>

section \<open>Removing a peer\<close>

text \<open>\<^verbatim>\<open>dummy_list\<close>, a static peer list that stays zero, stands in for an unknown torrent.\<close>

abbreviation (input) dummy_list :: ot_peerlist where "dummy_list \<equiv> new_peerlist"

definition count_removed :: "nat \<Rightarrow> ot_peerlist \<Rightarrow> ot_peerlist" where
  "count_removed r pl =
    (if r = 2 then pl\<lparr>seed_count := seed_count pl - 1, peer_count := peer_count pl - 1\<rparr>
     else if r = 1 then pl\<lparr>peer_count := peer_count pl - 1\<rparr>
     else pl)"

definition remove_head_tcp :: "ot_peerlist \<Rightarrow> nat \<Rightarrow> bytes" where
  "remove_head_tcp pl erval =
    lit ''d8:completei'' @ fmt_zd (seed_count pl) @ lit ''e10:incompletei'' @ fmt_zd (peer_count pl - seed_count pl) @
    lit ''e8:intervali'' @ fmt_i (int erval) @ lit ''e12:min intervali'' @ fmt_i (int (erval div 2)) @ lit ''e5:peers0:e''"

text \<open>
  \<^verbatim>\<open>reply\<close> is the reply buffer before the call: UDP patches its words 2 to 4, live sync (\<^verbatim>\<open>FLAG_MCA\<close>) leaves it alone.
\<close>

definition remove_reply :: "tenv \<Rightarrow> PROTO_FLAG \<Rightarrow> ot_peerlist \<Rightarrow> bytes \<Rightarrow> bytes" where
  "remove_reply env proto pl reply =
    (if proto = FLAG_TCP then remove_head_tcp pl (request_interval_random (rnd env 0))
     else if proto = FLAG_UDP then
       take 8 reply @ be32 (of_nat (request_interval_random (rnd env 0))) @ be32 (ucast (peer_count pl - seed_count pl)) @
       be32 (ucast (seed_count pl))
     else reply)"

definition remove_peer_from_torrent ::
  "tenv \<Rightarrow> PROTO_FLAG \<Rightarrow> bytes \<Rightarrow> ot_peer \<Rightarrow> bytes \<Rightarrow> bucket_state \<Rightarrow> (bytes \<times> effect list \<times> bucket_state) option" where
  "remove_peer_from_torrent env proto h peer reply s =
    (let b = bucket_of_hash h in
     case mutex_bucket_lock_by_hash h s of
       None \<Rightarrow> None
     | Some s1 \<Rightarrow>
         let v = torrents_at s1 b;
             (m, exactmatch) = binary_search t_hash h (vdata v);
             eff = (if want_sync_live env \<and> proto \<noteq> FLAG_MCA
                    then [livesync_told h (peer\<lparr>peer_flag := peer_flag peer OR PEER_FLAG_STOPPED\<rparr>)] else []) in
         if exactmatch then
           let t = vdata v ! m; (pv, r) = vector_remove_peer (pl_peers (peer_list t)) (peer_key peer);
               pl = count_removed r ((peer_list t)\<lparr>pl_peers := pv\<rparr>) in
           Some (remove_reply env proto pl reply, eff,
                 mutex_bucket_unlock_by_hash h 0 (set_torrents b (v\<lparr>vdata := (vdata v)[m := t\<lparr>peer_list := pl\<rparr>]\<rparr>) s1))
         else Some (remove_reply env proto dummy_list reply, eff, mutex_bucket_unlock_by_hash h 0 s1))"

section \<open>Scrapes\<close>

text \<open>
  The part both scrapes share: lock, search, clean, remove a torrent that timed out, unlock. The result is the torrent,
  if there is one worth reporting.
\<close>

definition scrape_torrent :: "int \<Rightarrow> bytes \<Rightarrow> bucket_state \<Rightarrow> allocs \<Rightarrow> (ot_torrent option \<times> bucket_state \<times> allocs) option" where
  "scrape_torrent now h s as =
    (let b = bucket_of_hash h in
     case mutex_bucket_lock_by_hash h s of
       None \<Rightarrow> None
     | Some s1 \<Rightarrow>
         let v = torrents_at s1 b; (m, exactmatch) = binary_search t_hash h (vdata v) in
         if exactmatch then
           case clean_single_torrent now (vdata v ! m) as of (gone, t, as') \<Rightarrow>
             let v' = v\<lparr>vdata := (vdata v)[m := t]\<rparr> in
             if gone then Some (None, mutex_bucket_unlock_by_hash h (-1) (set_torrents b (vector_remove_torrent v' m) s1), as')
             else Some (Some t, mutex_bucket_unlock_by_hash h 0 (set_torrents b v' s1), as')
         else Some (None, mutex_bucket_unlock_by_hash h 0 s1, as))"

definition return_udp_scrape_for_torrent :: "int \<Rightarrow> bytes \<Rightarrow> bucket_state \<Rightarrow> allocs \<Rightarrow> (bytes \<times> bucket_state \<times> allocs) option" where
  "return_udp_scrape_for_torrent now h s as =
    map_option (\<lambda>(t, s', as').
      (case t of
         None \<Rightarrow> replicate 12 0
       | Some t \<Rightarrow> be32 (ucast (seed_count (peer_list t))) @ be32 (ucast (down_count (peer_list t))) @
                   be32 (ucast (peer_count (peer_list t) - seed_count (peer_list t))), s', as'))
      (scrape_torrent now h s as)"

definition scrape_entry :: "bytes \<Rightarrow> ot_peerlist \<Rightarrow> bytes" where
  "scrape_entry h pl =
    lit ''20:'' @ take 20 h @ lit ''d8:completei'' @ fmt_zd (seed_count pl) @ lit ''e10:downloadedi'' @ fmt_zd (down_count pl) @
    lit ''e10:incompletei'' @ fmt_zd (peer_count pl - seed_count pl) @ lit ''ee''"

fun tcp_scrape_loop :: "int \<Rightarrow> bytes list \<Rightarrow> bytes \<Rightarrow> bucket_state \<Rightarrow> allocs \<Rightarrow> (bytes \<times> bucket_state \<times> allocs) option" where
  "tcp_scrape_loop now [] r s as = Some (r, s, as)"
| "tcp_scrape_loop now (h # hs) r s as =
    (case scrape_torrent now h s as of
       None \<Rightarrow> None
     | Some (t, s', as') \<Rightarrow>
         tcp_scrape_loop now hs (case t of None \<Rightarrow> r | Some t \<Rightarrow> r @ scrape_entry h (peer_list t)) s' as')"

definition return_tcp_scrape_for_torrent :: "int \<Rightarrow> bytes list \<Rightarrow> bucket_state \<Rightarrow> allocs \<Rightarrow> (bytes \<times> bucket_state \<times> allocs) option" where
  "return_tcp_scrape_for_torrent now hash_list s as =
    map_option (\<lambda>(r, s', as'). (r @ lit ''ee'', s', as')) (tcp_scrape_loop now hash_list (lit ''d5:filesd'') s as)"

section \<open>Saved state, iteration, shutdown\<close>

definition add_torrent_from_saved_state ::
  "tenv \<Rightarrow> bytes \<Rightarrow> int \<Rightarrow> size_t \<Rightarrow> bucket_state \<Rightarrow> allocs \<Rightarrow> (bucket_state \<times> allocs) option" where
  "add_torrent_from_saved_state env h bas down s as =
    (let b = bucket_of_hash h in
     case mutex_bucket_lock_by_hash h s of
       None \<Rightarrow> None
     | Some s1 \<Rightarrow>
         if \<not> hashisvalid env h then Some (mutex_bucket_unlock_by_hash h 0 s1, as)
         else
           case alloc as of (ok, as1) \<Rightarrow>
           case vector_find_or_insert t_hash ok (stale_torrent env) (torrents_at s1 b) h of
             None \<Rightarrow> Some (mutex_bucket_unlock_by_hash h 0 s1, as1)
           | Some (v, m, exactmatch) \<Rightarrow>
               if exactmatch then Some (mutex_bucket_unlock_by_hash h 0 (set_torrents b v s1), as1)
               else
                 case alloc as1 of (ok, as2) \<Rightarrow>
                   if \<not> ok then Some (mutex_bucket_unlock_by_hash h 0 (set_torrents b (vector_remove_torrent v m) s1), as2)
                   else Some (mutex_bucket_unlock_by_hash h 1
                          (set_torrents b (v\<lparr>vdata := (vdata v)[m := \<lparr>t_hash = h,
                             peer_list = new_peerlist\<lparr>pl_base := bas, down_count := down\<rparr>\<rparr>]\<rparr>) s1), as2))"

text \<open>
  \<^verbatim>\<open>iterate_all_torrents\<close>: \<^verbatim>\<open>for_each\<close> is a function of the torrent and an accumulator that also says whether to leave the bucket;
  \<^verbatim>\<open>running b\<close> is \<^verbatim>\<open>g_opentracker_running\<close> as read after bucket b. Each bucket is locked while its torrents are visited.
\<close>

fun iterate_bucket :: "(ot_torrent \<Rightarrow> 'a \<Rightarrow> 'a \<times> bool) \<Rightarrow> ot_torrent list \<Rightarrow> 'a \<Rightarrow> 'a" where
  "iterate_bucket for_each [] d = d"
| "iterate_bucket for_each (t # ts) d = (case for_each t d of (d', stop) \<Rightarrow> if stop then d' else iterate_bucket for_each ts d')"

fun iterate_buckets :: "(nat \<Rightarrow> bool) \<Rightarrow> (ot_torrent \<Rightarrow> 'a \<Rightarrow> 'a \<times> bool) \<Rightarrow> nat list \<Rightarrow> bucket_state \<Rightarrow> 'a \<Rightarrow> (bucket_state \<times> 'a) option" where
  "iterate_buckets running for_each [] s d = Some (s, d)"
| "iterate_buckets running for_each (b # bs) s d =
    (case mutex_bucket_lock b s of
       None \<Rightarrow> None
     | Some s1 \<Rightarrow>
         let d' = iterate_bucket for_each (vdata (torrents_at s1 b)) d; s2 = mutex_bucket_unlock b 0 s1 in
         if \<not> running b then Some (s2, d') else iterate_buckets running for_each bs s2 d')"

definition iterate_all_torrents :: "(nat \<Rightarrow> bool) \<Rightarrow> (ot_torrent \<Rightarrow> 'a \<Rightarrow> 'a \<times> bool) \<Rightarrow> bucket_state \<Rightarrow> 'a \<Rightarrow> (bucket_state \<times> 'a) option" where
  "iterate_all_torrents running for_each s d = iterate_buckets running for_each [0..<OT_BUCKET_COUNT] s d"

text \<open>
  The loop of \<^verbatim>\<open>trackerlogic_deinit\<close>: the vectors are freed but keep their size; \<^verbatim>\<open>delta_torrentcount\<close> is set to 0
  before the loop and not inside it.
\<close>

fun deinit_buckets :: "nat list \<Rightarrow> int \<Rightarrow> bucket_state \<Rightarrow> bucket_state option" where
  "deinit_buckets [] delta s = Some s"
| "deinit_buckets (b # bs) delta s =
    (case mutex_bucket_lock b s of
       None \<Rightarrow> None
     | Some s1 \<Rightarrow>
         let delta' = delta - int (vsize (torrents_at s1 b)) in
         deinit_buckets bs delta' (mutex_bucket_unlock b delta' s1))"

definition trackerlogic_deinit :: "bucket_state \<Rightarrow> bucket_state option" where
  "trackerlogic_deinit s = deinit_buckets [0..<OT_BUCKET_COUNT] 0 s"

section \<open>Removal refines a map delete\<close>

lemma vector_remove_peer_eq:
  assumes "peers_wf pv"
  shows "vector_remove_peer pv k = (peers_del k pv, case peers_lookup pv k of None \<Rightarrow> 0 | Some p \<Rightarrow> if is_seeding p then 2 else 1)"
proof -
  have "snd (vector_remove_peer pv k) = (case peers_lookup pv k of None \<Rightarrow> 0 | Some p \<Rightarrow> if is_seeding p then 2 else 1)"
  proof (cases "peers_size pv = 0")
    case True
    then obtain v where "pv = Flat v" "vdata v = []"
      using assms by (cases pv) (auto simp: arr_inv_def bucket_num_def)
    then show ?thesis
      using assms pstore.lookup_entries[OF assms, of k] by (simp add: vector_remove_peer_def)
  next
    case False
    then show ?thesis
      by (auto simp: vector_remove_peer_def peers_lookup_def vector_find_def Let_def split: prod.split)
  qed
  then show ?thesis
    by (metis peers_del_def prod.collapse)
qed

lemma pl_wf_del:
  fixes k :: bytes
  assumes wf: "pl_wf pl"
  defines "pl' \<equiv> count_removed (snd (vector_remove_peer (pl_peers pl) k)) (pl\<lparr>pl_peers := fst (vector_remove_peer (pl_peers pl) k)\<rparr>)"
  shows "pl_wf pl'" "pl_peers pl' = peers_del k (pl_peers pl)" "pl_base pl' = pl_base pl" "down_count pl' = down_count pl"
proof -
  have pw: "peers_wf (pl_peers pl)" using wf by (simp add: pl_wf_def)
  show pv: "pl_peers pl' = peers_del k (pl_peers pl)" and "pl_base pl' = pl_base pl" "down_count pl' = down_count pl"
    by (simp_all add: pl'_def count_removed_def peers_del_def)
  have *: "peers_wf (pl_peers pl')" "set (peers_entries (pl_peers pl')) \<subseteq> set (peers_entries (pl_peers pl))"
    using pstore.invar_del[OF pw] pstore.set_entries_del[OF pw] by (auto simp: pv)
  note c = pstore.size_del[OF pw, of k] pstore.count_del[OF pw, of is_seeding k]
  have "peer_count pl' = of_nat (length (peers_entries (pl_peers pl'))) \<and>
    seed_count pl' = of_nat (length (filter is_seeding (peers_entries (pl_peers pl'))))"
    using wf c[symmetric]
    by (cases "peers_lookup (pl_peers pl) k")
       (auto simp: pl'_def count_removed_def vector_remove_peer_eq[OF pw] pl_wf_def)
  then show "pl_wf pl'"
    using wf * by (auto simp: pl_wf_def)
qed

lemma swarm_del:
  assumes "pl_wf pl" "pl_peers pl' = peers_del k (pl_peers pl)" "pl_base pl' = pl_base pl"
  shows "swarm pl' = (swarm pl)(k := None)"
  using assms pstore.lookup_del[of "pl_peers pl" k] by (auto simp: swarm_def fun_eq_iff pl_wf_def)

lemma search_exact:
  "binary_search key h (vdata v) = (m, True) \<Longrightarrow> vector_find_or_insert key True undefined v h = Some (v, m, True)"
  "binary_search key h (vdata v) = (m, True) \<Longrightarrow> vector_find key v h = Some (vdata v ! m)"
  "binary_search key h (vdata v) = (m, False) \<Longrightarrow> vector_find key v h = None"
  by (simp_all add: vector_find_or_insert_def vector_find_def)

lemma lock_same_torrents: "mutex_bucket_lock_by_hash h s = Some s1 \<Longrightarrow> all_torrents s1 = all_torrents s"
  by (auto simp: mutex_bucket_lock_by_hash_def mutex_bucket_lock_def split: if_splits)

lemma remove_delete:
  assumes "tracker_wf now s" "mutex_bucket_lock_by_hash h s = Some s1"
  shows "\<exists>eff s'. (\<forall>h'. h' \<noteq> h \<longrightarrow> torrent_lookup s' h' = torrent_lookup s h') \<and> tracker_wf now s' \<and> bucket_locklist s' = bucket_locklist s \<and>
    (case torrent_lookup s h of
       None \<Rightarrow> torrent_lookup s' h = None \<and>
         remove_peer_from_torrent env proto h p reply s = Some (remove_reply env proto new_peerlist reply, eff, s')
     | Some t \<Rightarrow> \<exists>t'. torrent_lookup s' h = Some t' \<and> swarm (peer_list t') = (swarm (peer_list t))(peer_key p := None) \<and>
         down_count (peer_list t') = down_count (peer_list t) \<and>
         remove_peer_from_torrent env proto h p reply s = Some (remove_reply env proto (peer_list t') reply, eff, s'))"
proof -
  let ?b = "bucket_of_hash h"
  note at = lock_same_torrents[OF assms(2)] and B = tracker_wf_bucket[OF assms(1) bucket_of_hash_bound[of h]]
  obtain m e where bs: "binary_search t_hash h (vdata (torrents_at s ?b)) = (m, e)" by fastforce
  show ?thesis
  proof (cases e)
    case True
    let ?t = "vdata (torrents_at s ?b) ! m"
    have look: "torrent_lookup s h = Some ?t" using search_exact(2) bs True by (simp add: torrent_lookup_def)
    have ok: "torrent_ok now ?t" "t_hash ?t = h" using torrent_lookup_ok[OF assms(1) look] by simp_all
    define pl where "pl = count_removed (snd (vector_remove_peer (pl_peers (peer_list ?t)) (peer_key p)))
      ((peer_list ?t)\<lparr>pl_peers := fst (vector_remove_peer (pl_peers (peer_list ?t)) (peer_key p))\<rparr>)"
    have "pl_wf (peer_list ?t)" using ok(1) by (simp add: torrent_ok_def)
    note D = pl_wf_del[OF this, of "peer_key p", folded pl_def] and S = swarm_del[OF this, of pl "peer_key p"]
    have ok': "torrent_ok now (?t\<lparr>peer_list := pl\<rparr>)" "t_hash (?t\<lparr>peer_list := pl\<rparr>) = h"
      using ok D by (simp_all add: torrent_ok_def)
    have f: "vector_find_or_insert t_hash True undefined (torrents_at s1 ?b) h = Some (torrents_at s1 ?b, m, True)"
      using search_exact(1) bs True at by simp
    define s' where "s' = mutex_bucket_unlock_by_hash h 0
      (set_torrents ?b ((torrents_at s1 ?b)\<lparr>vdata := (vdata (torrents_at s1 ?b))[m := ?t\<lparr>peer_list := pl\<rparr>]\<rparr>) s1)"
    have "0 = (if True then 0 else 1 :: int)" by simp
    note P = tracker_put_torrent[OF assms(1,2) f ok'(2,1) this, folded s'_def]
    have "\<exists>eff. remove_peer_from_torrent env proto h p reply s = Some (remove_reply env proto pl reply, eff, s')"
      using bs True assms(2) at by (simp add: remove_peer_from_torrent_def Let_def pl_def s'_def split: prod.split)
    then obtain eff where run: "remove_peer_from_torrent env proto h p reply s = Some (remove_reply env proto pl reply, eff, s')"
      by blast
    show ?thesis
      unfolding look option.case
      by (intro exI[of _ eff] exI[of _ s'] conjI exI[of _ "?t\<lparr>peer_list := pl\<rparr>"]) (use P S D run in simp_all)
  next
    case False
    have "torrent_lookup s h = None" using search_exact(3) bs False by (simp add: torrent_lookup_def)
    then show ?thesis
      using bs False assms at tracker_unlock_unchanged[OF assms] by (simp add: remove_peer_from_torrent_def Let_def)
  qed
qed

text \<open>
  C13: Removing a peer refines a map delete. When the bucket is free the removal ends with a reply, keeps the invariant of the tracker
  (the counters of the torrent follow the peer that left) and the download count, gives the lock back and does not touch other torrents; the
  swarm of the torrent loses exactly the given peer, and an unknown torrent stays unknown. The counters it reports are those after the removal.
\<close>

theorem remove_refines_delete:
  assumes "tracker_wf now s" "mutex_bucket_lock_by_hash h s = Some s1"
  shows "\<exists>eff s'. (\<forall>h'. h' \<noteq> h \<longrightarrow> torrent_lookup s' h' = torrent_lookup s h') \<and> tracker_wf now s' \<and> bucket_locklist s' = bucket_locklist s \<and>
    (case torrent_lookup s h of
       None \<Rightarrow> torrent_lookup s' h = None \<and>
         remove_peer_from_torrent env proto h p reply s = Some (remove_reply env proto new_peerlist reply, eff, s')
     | Some t \<Rightarrow> \<exists>t'. torrent_lookup s' h = Some t' \<and> swarm (peer_list t') = (swarm (peer_list t))(peer_key p := None) \<and>
         down_count (peer_list t') = down_count (peer_list t) \<and>
         remove_peer_from_torrent env proto h p reply s = Some (remove_reply env proto (peer_list t') reply, eff, s'))"
  by (rule remove_delete[OF assms])

theorem remove_refines_delete_witness:
  "\<exists>r eff s' t'. remove_peer_from_torrent (example_env 120) FLAG_UDP (replicate 20 7) (example_peer 1 0 0) [] example_tracker = Some (r, eff, s') \<and>
     torrent_lookup s' (replicate 20 7) = Some t' \<and> tracker_wf 120 s' \<and>
     swarm (peer_list t') = (swarm example_peerlist)(peer_key (example_peer 1 0 0) := None)"
proof -
  obtain s1 where "mutex_bucket_lock_by_hash (replicate 20 7) example_tracker = Some s1"
    using mutex_lock_free[OF example_tracker_wf(2)] by blast
  from remove_refines_delete[OF example_tracker_wf(1) this, of 120 "example_env 120" FLAG_UDP "example_peer 1 0 0" "[]"] show ?thesis
    by (auto simp: example_tracker_wf(3) example_torrent_def)
qed

section \<open>Scrapes report the live swarm\<close>

lemma remove_at_update [simp]: "remove_at m (xs[m := x]) = remove_at m xs"
  by (simp add: remove_at_def)

lemma tracker_remove_torrent:
  assumes wf: "tracker_wf now s" and l: "mutex_bucket_lock_by_hash h s = Some s1"
    and bs: "binary_search t_hash h (vdata (torrents_at s (bucket_of_hash h))) = (m, True)" and t: "t_hash t = h"
  defines "s' \<equiv> mutex_bucket_unlock_by_hash h (-1) (set_torrents (bucket_of_hash h)
    (vector_remove_torrent ((torrents_at s (bucket_of_hash h))\<lparr>vdata := (vdata (torrents_at s (bucket_of_hash h)))[m := t]\<rparr>) m) s1)"
  shows "tracker_wf now s'" "bucket_locklist s' = bucket_locklist s" "torrent_lookup s' h = None"
    "h' \<noteq> h \<Longrightarrow> torrent_lookup s' h' = torrent_lookup s h'"
proof -
  let ?b = "bucket_of_hash h"
  let ?v = "torrents_at s ?b"
  let ?v' = "vector_remove_torrent (?v\<lparr>vdata := (vdata ?v)[m := t]\<rparr>) m"
  note B = tracker_wf_bucket[OF wf bucket_of_hash_bound[of h]]
  have srt: "ksorted t_hash (vdata ?v)" using B(1) by (simp add: vec_wf_def)
  have m: "m < vsize ?v" "t_hash (vdata ?v ! m) = h" using binary_search_found[OF srt bs] by simp_all
  have wf': "vec_wf t_hash ?v'"
    using vector_remove_torrent_wf[OF vec_wf_update_hash[OF B(1) m(1)], of t] m t by simp
  have data: "vdata ?v' = remove_at m (vdata ?v)" using m(1) by simp
  have ms: "mset (vdata ?v') = filter_mset (\<lambda>x. t_hash x \<noteq> h) (mset (vdata ?v))"
    using mset_remove_key[OF srt m(1)] m(2) data by simp
  have set: "set (vdata ?v') = {x \<in> set (vdata ?v). t_hash x \<noteq> h}"
    using arg_cong[OF ms, of set_mset] by (simp only: set_mset_mset set_mset_filter)
  have size: "-1 = int (vsize ?v') - int (vsize ?v)" using data m(1) by simp
  have ok: "\<forall>x \<in> set (vdata ?v'). torrent_ok now x \<and> bucket_of_hash (t_hash x) = ?b" using B(2) set by auto
  note U = tracker_wf_update[OF wf bucket_of_hash_bound l[unfolded mutex_bucket_lock_by_hash_def] wf' ok size]
  have s': "s' = mutex_bucket_unlock ?b (-1) (set_torrents ?b ?v' s1)" by (simp add: s'_def mutex_bucket_unlock_by_hash_def)
  show "tracker_wf now s'" "bucket_locklist s' = bucket_locklist s" using U(1,2) by (simp_all add: s')
  note L = torrent_lookup_update[OF U(3) B(3), folded s']
  show "torrent_lookup s' h = None"
    using L[of h] torrent_vec.lookup_None_iff[OF wf', of h] set by simp
  show "torrent_lookup s' h' = torrent_lookup s h'" if "h' \<noteq> h"
    using L[of h'] torrent_vec.lookup_eqI[OF wf' B(1), of h' h'] set that by (auto simp: torrent_lookup_def)
qed

lemma scrape_torrent_result:
  assumes wf: "tracker_wf now s" and l: "mutex_bucket_lock_by_hash h s = Some s1"
  shows "\<exists>t s' as'. scrape_torrent now h s as = Some (t, s', as') \<and> tracker_wf now s' \<and> bucket_locklist s' = bucket_locklist s \<and>
    torrent_lookup s' h = t \<and> (\<forall>h'. h' \<noteq> h \<longrightarrow> torrent_lookup s' h' = torrent_lookup s h') \<and>
    rel_option (cleaned now) (case torrent_lookup s h of None \<Rightarrow> None | Some t \<Rightarrow> if \<not> torrent_gone now t then Some t else None) t"
proof -
  let ?b = "bucket_of_hash h"
  note at = lock_same_torrents[OF l] and B = tracker_wf_bucket[OF wf bucket_of_hash_bound[of h]]
  obtain m e where bs: "binary_search t_hash h (vdata (torrents_at s ?b)) = (m, e)" by fastforce
  show ?thesis
  proof (cases e)
    case True
    let ?t = "vdata (torrents_at s ?b) ! m"
    have look: "torrent_lookup s h = Some ?t" using search_exact(2) bs True by (simp add: torrent_lookup_def)
    have ok: "torrent_ok now ?t" "t_hash ?t = h" using torrent_lookup_ok[OF wf look] by simp_all
    obtain gone t as' where c: "clean_single_torrent now ?t as = (gone, t, as')" by (metis prod_cases3)
    note C = clean_single_torrent_step[OF ok(1) c]
    have th: "t_hash t = h" using clean_single_torrent_hash[OF c] ok(2) by simp
    have bs': "binary_search t_hash h (vdata (torrents_at s ?b)) = (m, True)" using bs True by simp
    show ?thesis
    proof (cases gone)
      case g: True
      define s' where "s' = mutex_bucket_unlock_by_hash h (-1) (set_torrents ?b
          (vector_remove_torrent ((torrents_at s ?b)\<lparr>vdata := (vdata (torrents_at s ?b))[m := t]\<rparr>) m) s1)"
      note R = tracker_remove_torrent[OF wf l bs' th, folded s'_def]
      have run: "scrape_torrent now h s as = Some (None, s', as')"
        unfolding scrape_torrent_def Let_def l option.case at bs' prod.case c s'_def using g by simp
      show ?thesis
        unfolding look option.case
        by (intro exI[of _ None] exI[of _ s'] exI[of _ as'] conjI) (use run R C(1) g in simp_all)
    next
      case g: False
      have f: "vector_find_or_insert t_hash True undefined (torrents_at s1 ?b) h = Some (torrents_at s1 ?b, m, True)"
        using search_exact(1) bs' at by simp
      have okt: "torrent_ok now t" using C(2)[OF g] by (simp add: cleaned_def)
      have "0 = (if True then 0 else 1 :: int)" by simp
      define s' where "s' = mutex_bucket_unlock_by_hash h 0 (set_torrents ?b
          ((torrents_at s1 ?b)\<lparr>vdata := (vdata (torrents_at s1 ?b))[m := t]\<rparr>) s1)"
      note R = tracker_put_torrent[OF wf l f th okt \<open>0 = (if True then 0 else 1 :: int)\<close>, folded s'_def]
      have run: "scrape_torrent now h s as = Some (Some t, s', as')"
        unfolding scrape_torrent_def Let_def l option.case at bs' prod.case c s'_def using g by simp
      show ?thesis
        unfolding look option.case
        by (intro exI[of _ "Some t"] exI[of _ s'] exI[of _ as'] conjI) (use run R C g in simp_all)
    qed
  next
    case False
    have "torrent_lookup s h = None" using search_exact(3) bs False by (simp add: torrent_lookup_def)
    then show ?thesis
      using bs False wf l at tracker_unlock_unchanged[OF wf l] by (simp add: scrape_torrent_def Let_def)
  qed
qed

lemma card_swarm:
  assumes wf: "pl_wf pl" and P: "\<And>p. P (peer_flag p) = Q p"
  shows "length (filter Q (peers_entries (pl_peers pl))) = card {k. \<exists>f seen. swarm pl k = Some (f, seen) \<and> P f}"
proof -
  let ?ps = "peers_entries (pl_peers pl)"
  have pw: "peers_wf (pl_peers pl)" using wf by (simp add: pl_wf_def)
  have "{k. \<exists>f seen. swarm pl k = Some (f, seen) \<and> P f} = peer_key ` set (filter Q ?ps)"
    using P by (auto simp: swarm_def pstore.lookup_Some_iff[OF pw])
  moreover have "inj_on peer_key (set (filter Q ?ps))"
    using pstore.distinct_keys[OF pw] by (auto simp: distinct_map inj_on_def)
  moreover have "distinct (filter Q ?ps)"
    using pstore.distinct_keys[OF pw] by (simp add: distinct_map)
  ultimately show ?thesis
    by (simp only: card_image distinct_card)
qed

lemma expire_gone:
  assumes "torrent_ok now t" "torrent_gone now t"
  shows "expire now (swarm (peer_list t)) = (\<lambda>k. None)"
proof
  fix k
  have wf: "pl_wf (peer_list t)" using assms(1) by (simp add: torrent_ok_def)
  show "expire now (swarm (peer_list t)) k = None"
  proof (cases "swarm (peer_list t) k")
    case (Some fs)
    then obtain p where "p \<in> set (peers_entries (pl_peers (peer_list t)))" "snd fs = pl_base (peer_list t) - uint (peer_time p)"
      using pl_wf_swarm_some[OF wf, of k] by (cases fs) auto
    moreover from this have "1440 < now - pl_base (peer_list t)"
      using assms(2) by (auto simp: torrent_gone_def Let_def)
    ultimately have "45 \<le> now - snd fs"
      using unsigned_greater_eq[where 'a = int, of "peer_time p"] by linarith
    then show ?thesis using Some by (auto simp: expire_def split: prod.split)
  qed (simp add: expire_def)
qed

text \<open>The swarm a scrape reports on: what is known of the torrent, without the expired peers.\<close>

definition live_swarm :: "int \<Rightarrow> bucket_state \<Rightarrow> bytes \<Rightarrow> bytes \<Rightarrow> (byte \<times> int) option" where
  "live_swarm now s h = (case torrent_lookup s h of None \<Rightarrow> (\<lambda>k. None) | Some t \<Rightarrow> expire now (swarm (peer_list t)))"

definition seeders :: "(bytes \<Rightarrow> (byte \<times> int) option) \<Rightarrow> nat" where
  "seeders m = card {k. \<exists>f seen. m k = Some (f, seen) \<and> f AND PEER_FLAG_SEEDING \<noteq> 0}"

definition leechers :: "(bytes \<Rightarrow> (byte \<times> int) option) \<Rightarrow> nat" where
  "leechers m = card {k. \<exists>f seen. m k = Some (f, seen) \<and> f AND PEER_FLAG_SEEDING = 0}"

lemma counts_swarm:
  assumes wf: "pl_wf pl"
  shows "seed_count pl = of_nat (seeders (swarm pl))" "peer_count pl - seed_count pl = of_nat (leechers (swarm pl))"
proof -
  let ?ps = "peers_entries (pl_peers pl)"
  show "seed_count pl = of_nat (seeders (swarm pl))"
    using card_swarm[OF wf, of "\<lambda>f. f AND PEER_FLAG_SEEDING \<noteq> 0" is_seeding] wf
    by (simp add: seeders_def pl_wf_def is_seeding_def)
  have "length (filter (\<lambda>p. \<not> is_seeding p) ?ps) + length (filter is_seeding ?ps) = length ?ps"
    using sum_length_filter_compl[of is_seeding ?ps] by simp
  from of_nat_minus_word[OF this] have "peer_count pl - seed_count pl = of_nat (length (filter (\<lambda>p. \<not> is_seeding p) ?ps))"
    using wf by (simp add: pl_wf_def)
  then show "peer_count pl - seed_count pl = of_nat (leechers (swarm pl))"
    using card_swarm[OF wf, of "\<lambda>f. f AND PEER_FLAG_SEEDING = 0" "\<lambda>p. \<not> is_seeding p"]
    by (simp add: leechers_def is_seeding_def)
qed

lemma ucast_of_nat: "(ucast (of_nat n :: size_t) :: u32) = of_nat n"
  by transfer simp

text \<open>
  C34: A UDP scrape reports the live swarm. When the bucket is free, the scrape of a hash ends with twelve bytes: the number of seeders, the number of
  completed downloads and the number of leechers of the torrent, where peers that were silent for 45 minutes are not
  counted (all zero for a torrent that is unknown or timed out). It keeps the invariant and the other torrents and releases the bucket.
\<close>

theorem udp_scrape_reports_live_swarm:
  assumes "tracker_wf now s" "mutex_bucket_lock_by_hash h s = Some s1"
  shows "\<exists>s' as'. return_udp_scrape_for_torrent now h s as = Some
      (be32 (of_nat (seeders (live_swarm now s h))) @
       be32 (case torrent_lookup s h of None \<Rightarrow> 0 | Some t \<Rightarrow> if torrent_gone now t then 0 else ucast (down_count (peer_list t))) @
       be32 (of_nat (leechers (live_swarm now s h))), s', as') \<and>
    tracker_wf now s' \<and> bucket_locklist s' = bucket_locklist s \<and> (\<forall>h'. h' \<noteq> h \<longrightarrow> torrent_lookup s' h' = torrent_lookup s h')"
proof -
  obtain t s' as' where r: "scrape_torrent now h s as = Some (t, s', as')" "tracker_wf now s'" "bucket_locklist s' = bucket_locklist s"
    "\<forall>h'. h' \<noteq> h \<longrightarrow> torrent_lookup s' h' = torrent_lookup s h'"
    "rel_option (cleaned now) (case torrent_lookup s h of None \<Rightarrow> None | Some t \<Rightarrow> if \<not> torrent_gone now t then Some t else None) t"
    using scrape_torrent_result[OF assms, of as] by blast
  have none: "seeders (\<lambda>k. None) = 0" "leechers (\<lambda>k. None) = 0" by (simp_all add: seeders_def leechers_def)
  have zero: "replicate 12 0 = be32 0 @ be32 0 @ be32 0" by (simp add: be32_def numeral_eq_Suc)
  have reply: "(case t of None \<Rightarrow> replicate 12 0
       | Some t \<Rightarrow> be32 (ucast (seed_count (peer_list t))) @ be32 (ucast (down_count (peer_list t))) @
                   be32 (ucast (peer_count (peer_list t) - seed_count (peer_list t)))) =
      be32 (of_nat (seeders (live_swarm now s h))) @
       be32 (case torrent_lookup s h of None \<Rightarrow> 0 | Some t \<Rightarrow> if torrent_gone now t then 0 else ucast (down_count (peer_list t))) @
       be32 (of_nat (leechers (live_swarm now s h)))"
  proof (cases "torrent_lookup s h")
    case None
    then show ?thesis using r(5) none zero by (simp add: live_swarm_def)
  next
    case (Some t0)
    note ok = torrent_lookup_ok[OF assms(1) Some]
    show ?thesis
    proof (cases "torrent_gone now t0")
      case True
      then show ?thesis using r(5) Some none zero expire_gone[of now t0] ok by (simp add: live_swarm_def)
    next
      case False
      then obtain t1 where t1: "t = Some t1" "cleaned now t0 t1" using r(5) Some by (auto simp: option_rel_Some1)
      then have "pl_wf (peer_list t1)" by (simp add: cleaned_def torrent_ok_def)
      from counts_swarm[OF this] show ?thesis
        using t1 Some False by (simp add: live_swarm_def cleaned_def ucast_of_nat)
    qed
  qed
  show ?thesis
    using r(1-4) reply by (simp add: return_udp_scrape_for_torrent_def)
qed

theorem udp_scrape_reports_live_swarm_witness:
  "\<exists>s' as'. return_udp_scrape_for_torrent 120 (replicate 20 7) example_tracker [] = Some
     (be32 (of_nat (seeders (live_swarm 120 example_tracker (replicate 20 7)))) @ be32 0 @
      be32 (of_nat (leechers (live_swarm 120 example_tracker (replicate 20 7)))), s', as')"
proof -
  obtain s1 where "mutex_bucket_lock_by_hash (replicate 20 7) example_tracker = Some s1"
    using mutex_lock_free[OF example_tracker_wf(2)] by blast
  from udp_scrape_reports_live_swarm[OF example_tracker_wf(1) this, of 120 "[]"] show ?thesis
    by (auto simp: example_tracker_wf(3) example_torrent_def example_peerlist_def)
qed

lemma length_scrape_entry:
  assumes "pl_wf pl" "length h = 20"
  shows "length (scrape_entry h pl) \<le> 117"
proof -
  let ?ps = "peers_entries (pl_peers pl)"
  have le: "length ?ps \<le> 2 ^ 48" using peers_entries_bound assms(1) by (simp add: pl_wf_def)
  have sc: "unat (seed_count pl) \<le> length ?ps" using pl_wf_seed_count[OF assms(1)] by simp
  then have inc: "unat (peer_count pl - seed_count pl) \<le> length ?ps"
    using pl_wf_peer_count[OF assms(1)] by (simp add: unat_sub word_le_nat_alt)
  have "length (fmt_zd (seed_count pl)) \<le> 15" "length (fmt_zd (peer_count pl - seed_count pl)) \<le> 15"
    using sc inc le by (intro length_fmt_zd_small; simp)+
  then show ?thesis
    using length_fmt_zd[of "down_count pl"] assms(2) by (simp add: scrape_entry_def)
qed

lemma tcp_scrape_loop_result:
  assumes "tracker_wf now s" "bucket_locklist s = []" "distinct hs" "\<forall>h \<in> set hs. length h = 20"
  shows "\<exists>s' as'. tcp_scrape_loop now hs r s as = Some
      (r @ concat (map (\<lambda>h. case torrent_lookup s' h of None \<Rightarrow> [] | Some t \<Rightarrow> scrape_entry h (peer_list t)) hs), s', as') \<and>
    tracker_wf now s' \<and> bucket_locklist s' = [] \<and> (\<forall>h. h \<notin> set hs \<longrightarrow> torrent_lookup s' h = torrent_lookup s h) \<and>
    (\<forall>h \<in> set hs. rel_option (cleaned now) (case torrent_lookup s h of None \<Rightarrow> None | Some t \<Rightarrow> if \<not> torrent_gone now t then Some t else None) (torrent_lookup s' h))"
  using assms
proof (induction hs arbitrary: r s as)
  case (Cons h hs)
  obtain s1 where l: "mutex_bucket_lock_by_hash h s = Some s1" using mutex_lock_free[OF Cons.prems(2)] by blast
  obtain t s2 as2 where r: "scrape_torrent now h s as = Some (t, s2, as2)" "tracker_wf now s2" "bucket_locklist s2 = []"
    "torrent_lookup s2 h = t" "\<forall>h'. h' \<noteq> h \<longrightarrow> torrent_lookup s2 h' = torrent_lookup s h'"
    "rel_option (cleaned now) (case torrent_lookup s h of None \<Rightarrow> None | Some t \<Rightarrow> if \<not> torrent_gone now t then Some t else None) t"
    using scrape_torrent_result[OF Cons.prems(1) l, of as] Cons.prems(2) by auto
  let ?r = "case t of None \<Rightarrow> r | Some t \<Rightarrow> r @ scrape_entry h (peer_list t)"
  obtain s' as' where IH: "tcp_scrape_loop now hs ?r s2 as2 = Some
      (?r @ concat (map (\<lambda>h. case torrent_lookup s' h of None \<Rightarrow> [] | Some t \<Rightarrow> scrape_entry h (peer_list t)) hs), s', as')"
    "tracker_wf now s'" "bucket_locklist s' = []" "\<forall>h. h \<notin> set hs \<longrightarrow> torrent_lookup s' h = torrent_lookup s2 h"
    "\<forall>h \<in> set hs. rel_option (cleaned now) (case torrent_lookup s2 h of None \<Rightarrow> None | Some t \<Rightarrow> if \<not> torrent_gone now t then Some t else None) (torrent_lookup s' h)"
    using Cons.IH[OF r(2,3), of ?r as2] Cons.prems(3,4) by auto
  have h: "torrent_lookup s' h = t" using IH(4) r(4) Cons.prems(3) by simp
  have "tcp_scrape_loop now (h # hs) r s as = Some
      (r @ concat (map (\<lambda>h. case torrent_lookup s' h of None \<Rightarrow> [] | Some t \<Rightarrow> scrape_entry h (peer_list t)) (h # hs)), s', as')"
    using r(1) IH(1) h by (simp split: option.split)
  moreover have "\<forall>h \<in> set hs. torrent_lookup s2 h = torrent_lookup s h" using r(5) Cons.prems(3) by auto
  ultimately show ?case
    using IH(2-5) r(5,6) h by (intro exI[of _ s'] exI[of _ as']) auto
qed simp



section \<open>Saved state, iteration, shutdown: what they do\<close>

lemma saved_state_added:
  assumes wf: "tracker_wf now s" and l: "mutex_bucket_lock_by_hash h s = Some s1" and h: "length h = 20" "bas \<le> now" "hashisvalid env h"
  shows "\<exists>s'. add_torrent_from_saved_state env h bas down s [] = Some (s', []) \<and> tracker_wf now s' \<and> bucket_locklist s' = bucket_locklist s \<and>
    torrent_lookup s' h = Some (case torrent_lookup s h of Some t \<Rightarrow> t
      | None \<Rightarrow> \<lparr>t_hash = h, peer_list = new_peerlist\<lparr>pl_base := bas, down_count := down\<rparr>\<rparr>) \<and>
    (\<forall>h'. h' \<noteq> h \<longrightarrow> torrent_lookup s' h' = torrent_lookup s h')"
proof -
  let ?b = "bucket_of_hash h"
  let ?t = "\<lparr>t_hash = h, peer_list = new_peerlist\<lparr>pl_base := bas, down_count := down\<rparr>\<rparr>"
  note at = lock_same_torrents[OF l] and B = tracker_wf_bucket[OF wf bucket_of_hash_bound[of h]]
  show ?thesis
  proof (rule vector_find_or_insert_cases[OF B(1), of True "stale_torrent env" h], goal_cases)
    case (1 m)
    have "torrent_lookup s h = Some (vdata (torrents_at s ?b) ! m)" using 1(4) by (simp add: torrent_lookup_def)
    then show ?case
      using tracker_same_data[OF wf l refl B(1)] 1(1) l h(3) at by (simp add: add_torrent_from_saved_state_def Let_def)
  next
    case (3 v m)
    have none: "torrent_lookup s h = None" using 3(7) by (simp add: torrent_lookup_def)
    have f: "vector_find_or_insert t_hash True (stale_torrent env) (torrents_at s1 ?b) h = Some (v, m, False)" using 3(1) at by simp
    have ok: "torrent_ok now ?t" "t_hash ?t = h" using new_peerlist_wf h by (simp_all add: torrent_ok_def pl_wf_def)
    have one: "1 = (if False then 0 else 1 :: int)" by simp
    define s' where "s' = mutex_bucket_unlock_by_hash h 1 (set_torrents ?b (v\<lparr>vdata := (vdata v)[m := ?t]\<rparr>) s1)"
    note P = tracker_put_torrent[OF wf l f ok(2,1) one, folded s'_def]
    have "add_torrent_from_saved_state env h bas down s [] = Some (s', [])"
      using f l h(3) by (simp add: add_torrent_from_saved_state_def Let_def s'_def)
    then show ?case using P none by auto
  qed simp
qed

text \<open>
  C36: Loading a torrent from the saved state adds it once. With memory available and an accepted hash, a hash that is not known becomes a torrent without
  peers, with the saved base and download count, and counts as one more torrent; a torrent that is already known
  (with its live peers) is left as it is. Other torrents are untouched and the bucket is released.
\<close>

theorem saved_state_adds_once:
  assumes wf: "tracker_wf now s" and l: "mutex_bucket_lock_by_hash h s = Some s1" and h: "length h = 20" "bas \<le> now" "hashisvalid env h"
  shows "\<exists>s'. add_torrent_from_saved_state env h bas down s [] = Some (s', []) \<and> tracker_wf now s' \<and> bucket_locklist s' = bucket_locklist s \<and>
    torrent_lookup s' h = Some (case torrent_lookup s h of Some t \<Rightarrow> t
      | None \<Rightarrow> \<lparr>t_hash = h, peer_list = new_peerlist\<lparr>pl_base := bas, down_count := down\<rparr>\<rparr>) \<and>
    (\<forall>h'. h' \<noteq> h \<longrightarrow> torrent_lookup s' h' = torrent_lookup s h')"
  using saved_state_added[OF assms] .

theorem saved_state_adds_once_witness:
  "\<exists>s'. add_torrent_from_saved_state (example_env 120) (replicate 20 9) 100 42 example_tracker [] = Some (s', []) \<and>
     mutex_get_torrent_count s' = of_nat (length (torrents_entries (all_torrents s')))"
proof -
  obtain s1 where "mutex_bucket_lock_by_hash (replicate 20 9) example_tracker = Some s1"
    using mutex_lock_free[OF example_tracker_wf(2)] by blast
  from saved_state_adds_once[OF example_tracker_wf(1) this, of 120 100 "example_env 120" 42] show ?thesis
    by (auto simp: tracker_wf_def mutex_get_torrent_count_def)
qed

lemma lock_unlock_free:
  "bucket_locklist s = [] \<Longrightarrow> \<exists>s1. mutex_bucket_lock b s = Some s1 \<and> all_torrents s1 = all_torrents s \<and>
    mutex_bucket_unlock b d s1 = s\<lparr>g_torrent_count := g_torrent_count s + of_int d\<rparr>"
  by (simp add: mutex_bucket_lock_def bucket_check_def mutex_bucket_unlock_def bucket_push_def bucket_remove_eq_remove1)

lemma iterate_bucket_fold: "iterate_bucket (\<lambda>t d. (f t d, False)) ts d = fold f ts d"
  by (induction ts arbitrary: d) simp_all

lemma iterate_buckets_fold:
  assumes "bucket_locklist s = []"
  shows "iterate_buckets (\<lambda>b. True) (\<lambda>t d. (f t d, False)) bs s d = Some (s, fold f (concat (map (\<lambda>b. vdata (torrents_at s b)) bs)) d)"
proof (induction bs arbitrary: d)
  case (Cons b bs)
  obtain s1 where "mutex_bucket_lock b s = Some s1" "all_torrents s1 = all_torrents s" "mutex_bucket_unlock b 0 s1 = s"
    using lock_unlock_free[OF assms, of b 0] by auto
  then show ?case using Cons by (simp add: iterate_bucket_fold)
qed simp

text \<open>
  The iterator visits every torrent once. On a tracker with free buckets, a visitor that never asks to stop sees every torrent of every bucket
  exactly once, in bucket order, and the iteration leaves the tracker as it was, with all buckets free.
\<close>

lemma iterate_visits_all:
  assumes "bucket_locklist s = []" "length (all_torrents s) = OT_BUCKET_COUNT"
  shows "iterate_all_torrents (\<lambda>b. True) (\<lambda>t d. (f t d, False)) s d = Some (s, fold f (torrents_entries (all_torrents s)) d)"
proof -
  have "map (\<lambda>b. vdata (torrents_at s b)) [0..<OT_BUCKET_COUNT] = map vdata (all_torrents s)"
    using assms(2) by (intro nth_equalityI) simp_all
  then show ?thesis
    by (simp add: iterate_all_torrents_def iterate_buckets_fold[OF assms(1)] torrents_entries_def)
qed

lemma deinit_buckets_count:
  assumes "bucket_locklist s = []" "i \<le> n"
  shows "\<exists>s'. deinit_buckets [i..<n] delta s = Some s' \<and> all_torrents s' = all_torrents s \<and>
    g_torrent_count s' = g_torrent_count s + of_int (int (n - i) * delta - (\<Sum>b = i..<n. int (n - b) * int (vsize (torrents_at s b))))"
  using assms
proof (induction "n - i" arbitrary: i delta s)
  case (Suc k)
  then have i: "i < n" "[i..<n] = i # [Suc i..<n]" by (auto simp: upt_conv_Cons)
  define delta' where "delta' = delta - int (vsize (torrents_at s i))"
  obtain s1 where l: "mutex_bucket_lock i s = Some s1" "all_torrents s1 = all_torrents s"
    "mutex_bucket_unlock i delta' s1 = s\<lparr>g_torrent_count := g_torrent_count s + of_int delta'\<rparr>"
    using lock_unlock_free[OF Suc.prems(1), of i delta'] by blast
  define s2 where "s2 = s\<lparr>g_torrent_count := g_torrent_count s + of_int delta'\<rparr>"
  have "k = n - Suc i" "bucket_locklist s2 = []" "Suc i \<le> n" using Suc.hyps(2) Suc.prems i by (simp_all add: s2_def)
  from Suc.hyps(1)[OF this, of delta'] obtain s' where s': "deinit_buckets [Suc i..<n] delta' s2 = Some s'" "all_torrents s' = all_torrents s2"
    "g_torrent_count s' = g_torrent_count s2 + of_int (int (n - Suc i) * delta' - (\<Sum>b = Suc i..<n. int (n - b) * int (vsize (torrents_at s2 b))))"
    by blast
  have n: "int (n - i) = int (n - Suc i) + 1" using i(1) by simp
  have "int (n - i) * delta - (\<Sum>b = i..<n. int (n - b) * int (vsize (torrents_at s b)))
      = delta' + (int (n - Suc i) * delta' - (\<Sum>b = Suc i..<n. int (n - b) * int (vsize (torrents_at s b))))"
    unfolding sum.atLeast_Suc_lessThan[OF i(1)] n delta'_def by (simp add: algebra_simps)
  then show ?case
    using s' l i(2) by (simp add: s2_def delta'_def Let_def)
qed simp

text \<open>
  The shutdown subtracts too much. Because \<^verbatim>\<open>delta_torrentcount\<close> is never reset, \<^verbatim>\<open>trackerlogic_deinit\<close> subtracts the torrents of bucket b not once but
  once for each of the buckets from b on: the counter is left at its value minus the sum of \<^verbatim>\<open>(1024 - b)\<close> times the number of torrents in bucket b.
\<close>

lemma deinit_overcounts:
  assumes "bucket_locklist s = []"
  shows "\<exists>s'. trackerlogic_deinit s = Some s' \<and> mutex_get_torrent_count s' = mutex_get_torrent_count s -
    of_int (\<Sum>b = 0..<OT_BUCKET_COUNT. int (OT_BUCKET_COUNT - b) * int (vsize (torrents_at s b)))"
  using deinit_buckets_count[OF assms, of 0 OT_BUCKET_COUNT 0]
  by (auto simp: trackerlogic_deinit_def mutex_get_torrent_count_def)

section \<open>Announces and removals while no bucket is held\<close>

definition small_torrents :: "bucket_state \<Rightarrow> bool" where
  "small_torrents s \<longleftrightarrow> (\<forall>h t. torrent_lookup s h = Some t \<longrightarrow> length (peers_entries (pl_peers (peer_list t))) < 2 ^ 30 - 1)"

lemma example_tracker_small: "small_torrents example_tracker"
proof -
  have "t = example_torrent" if "torrent_lookup example_tracker h = Some t" for h t
  proof -
    have "t \<in> set (vdata (torrents_at example_tracker (bucket_of_hash h)))"
      using that tracker_wf_bucket(1) [OF example_tracker_wf(1) [OF order_refl] bucket_of_hash_bound, of h] torrent_vec.lookup_Some_iff
      by (auto simp: torrent_lookup_def)
    then show ?thesis
      using bucket_of_hash_bound [of h]
      by (auto simp: example_tracker_def mutex_init_def nth_list_update split: if_splits)
  qed
  moreover have "length (peers_entries (pl_peers (peer_list example_torrent))) < 2 ^ 30 - 1"
    by (simp add: example_torrent_def example_peerlist_def)
  ultimately show ?thesis
    unfolding small_torrents_def by blast
qed

lemma add_peer_free:
  assumes "tracker_wf (now_minutes env) s" "length h = 20" "peer_wf p" "bucket_locklist s = []" "small_torrents s"
  shows "\<exists>reply eff s' as'. add_peer_to_torrent_and_return_peers env proto h p amount s as = Some (reply, eff, s', as') \<and>
    length reply \<le> (if proto = FLAG_TCP then 154 else 12) + 6 * amount \<and> tracker_wf (now_minutes env) s' \<and> bucket_locklist s' = []"
proof -
  obtain s1 where l: "mutex_bucket_lock_by_hash h s = Some s1" using mutex_lock_free [OF assms(4)] by blast
  have small: "torrent_lookup s h = Some t \<Longrightarrow> length (peers_entries (pl_peers (peer_list t))) < 2 ^ 30 - 1" for t
    using assms(5) by (simp add: small_torrents_def)
  show ?thesis
  proof (rule add_peer_paths [OF assms(1-3) l small, of proto amount as], goal_cases)
    case (3 reply eff s' as1 as2 as' t stored pl')
    note T = announce_base_ok [OF assms(1,2) small 3(3)]
    note S = store_peer_result [OF 3(4) T(2) assms(3)]
    have "length reply \<le> (if proto = FLAG_TCP then 154 else 12) + 6 * amount"
      using 3(9) length_return_peers [OF S(1), of "rnd env" amount proto reply] S(3) T(3) by (auto split: if_splits)
    then show ?case using 3 assms(4) by auto
  qed (use assms(4) in auto)
qed

lemma remove_peer_free:
  assumes "tracker_wf now s" "bucket_locklist s = []"
  shows "\<exists>pl eff s'. remove_peer_from_torrent env proto h p reply s = Some (remove_reply env proto pl reply, eff, s') \<and>
    pl_wf pl \<and> tracker_wf now s' \<and> bucket_locklist s' = []"
proof -
  obtain s1 where l: "mutex_bucket_lock_by_hash h s = Some s1" using mutex_lock_free [OF assms(2)] by blast
  obtain eff s' where s': "tracker_wf now s'" "bucket_locklist s' = bucket_locklist s" and
    r: "case torrent_lookup s h of
       None \<Rightarrow> torrent_lookup s' h = None \<and>
         remove_peer_from_torrent env proto h p reply s = Some (remove_reply env proto new_peerlist reply, eff, s')
     | Some t \<Rightarrow> \<exists>t'. torrent_lookup s' h = Some t' \<and> swarm (peer_list t') = (swarm (peer_list t))(peer_key p := None) \<and>
         down_count (peer_list t') = down_count (peer_list t) \<and>
         remove_peer_from_torrent env proto h p reply s = Some (remove_reply env proto (peer_list t') reply, eff, s')"
    using remove_delete [OF assms(1) l, of env proto p reply] by blast
  show ?thesis
  proof (cases "torrent_lookup s h")
    case None
    then show ?thesis using r s' assms(2) new_peerlist_wf(1) by auto
  next
    case (Some t)
    then obtain t' where "torrent_lookup s' h = Some t'"
        "remove_peer_from_torrent env proto h p reply s = Some (remove_reply env proto (peer_list t') reply, eff, s')"
      using r by auto
    then show ?thesis using s' assms(2) torrent_lookup_ok [OF s'(1)] by (auto simp: torrent_ok_def)
  qed
qed

lemma length_remove_head_tcp:
  assumes "pl_wf pl"
  shows "length (remove_head_tcp pl (request_interval_random r)) \<le> 140"
proof -
  have i: "request_interval_random r < 1980" by (simp add: request_interval_random_def)
  then have "length (fmt_i (int (request_interval_random r))) \<le> 4" "length (fmt_i (int (request_interval_random r div 2))) \<le> 3"
    by (intro length_fmt_i; simp)+
  then show ?thesis
    using length_fmt_zd [of "seed_count pl"] length_fmt_zd [of "peer_count pl - seed_count pl"] by (simp add: remove_head_tcp_def)
qed

end
