(* ===== verification/OT_Scan.thy ===== *)
theory OT_Scan
  imports OT_Prelude
begin

text \<open>
  \<^verbatim>\<open>src/scan_urlencoded_query.c\<close>: decoding of URL components. The code decodes in place, reading and writing the same buffer; the model
  does the same on one list with a read and a write index. Reading past the end of the buffer is None. It is shown equal to an out-of-place
  decoder, never to overwrite unread input, to stay inside a NUL terminated buffer, and to invert percent encoding.
\<close>

section \<open>Characters\<close>

abbreviation (input) SCAN_PATH :: byte where "SCAN_PATH \<equiv> 1"
abbreviation (input) SCAN_SEARCHPATH_PARAM :: byte where "SCAN_SEARCHPATH_PARAM \<equiv> 2"
abbreviation (input) SCAN_SEARCHPATH_VALUE :: byte where "SCAN_SEARCHPATH_VALUE \<equiv> 4"
abbreviation (input) SCAN_SEARCHPATH_TERMINATOR :: byte where "SCAN_SEARCHPATH_TERMINATOR \<equiv> 8"

definition is_unreserved_table :: "nat list" where
  "is_unreserved_table =
  [8,0,0,0,0,0,0,0,0,0,8,0,0,8,0,0,0,0,0,0,0,0,0,0,0,0,0,0,0,0,0,0,
   8,7,8,8,8,7,0,7,7,7,7,7,7,7,7,7,7,7,7,7,7,7,7,7,7,7,7,7,7,4,7,6,
   4,7,7,7,7,7,7,7,7,7,7,7,7,7,7,7,7,7,7,7,7,7,7,7,7,7,7,8,8,8,8,7,
   8,7,7,7,7,7,7,7,7,7,7,7,7,7,7,7,7,7,7,7,7,7,7,7,7,7,7,8,8,8,7,0] @ replicate 128 0"

definition is_unreserved :: "byte \<Rightarrow> byte" where
  "is_unreserved c = of_nat (is_unreserved_table ! unat c)"

definition fromhex :: "byte \<Rightarrow> byte" where
  "fromhex x =
    (let x = x - 0x30 in
     if x \<le> 9 then x
     else let x = (x AND NOT 0x20) - (0x41 - 0x30) in
       if x < 6 then x + 10 else 0xff)"

section \<open>Scanning\<close>

function skipvalue_loop :: "bytes \<Rightarrow> nat \<Rightarrow> (byte \<times> nat) option" where
  "skipvalue_loop buf s =
    (if s < length buf then
       let f = is_unreserved (buf ! s) in
       if f AND SCAN_SEARCHPATH_VALUE \<noteq> 0 then skipvalue_loop buf (s + 1) else Some (f, s + 1)
     else None)"
  by pat_completeness auto
termination
  by (relation "measure (\<lambda>(buf, s). length buf - s)") auto

declare skipvalue_loop.simps [simp del]

definition scan_urlencoded_skipvalue :: "bytes \<Rightarrow> nat \<Rightarrow> nat option" where
  "scan_urlencoded_skipvalue buf s =
    (case skipvalue_loop buf s of
       None \<Rightarrow> None
     | Some (f, s') \<Rightarrow> Some (if f AND SCAN_SEARCHPATH_TERMINATOR \<noteq> 0 then s' - 1 else s'))"

text \<open>
  The decoding loop: \<^verbatim>\<open>Inl\<close> is the early \<^verbatim>\<open>return -1\<close> for a bad escape (with the buffer as written so far), \<^verbatim>\<open>Inr\<close> the
  character that ended the loop with the read and write indices.
\<close>

function query_loop :: "byte \<Rightarrow> bytes \<Rightarrow> nat \<Rightarrow> nat \<Rightarrow> (bytes \<times> (unit + byte \<times> nat \<times> nat)) option" where
  "query_loop flags buf s d =
    (if s < length buf then
       let c = buf ! s in
       if is_unreserved c AND flags \<noteq> 0 then
         if c = 0x25 then
           if s + 1 < length buf then
             let b = fromhex (buf ! (s + 1)) in
             if b = 0xff then Some (buf, Inl ())
             else if s + 2 < length buf then
               let c = fromhex (buf ! (s + 2)) in
               if c = 0xff then Some (buf, Inl ())
               else query_loop flags (buf[d := c OR push_bit 4 b]) (s + 3) (d + 1)
             else None
           else None
         else query_loop flags (buf[d := c]) (s + 1) (d + 1)
       else Some (buf, Inr (c, s + 1, d))
     else None)"
  by pat_completeness auto
termination
  by (relation "measure (\<lambda>(flags, buf, s, d). length buf - s)") auto

declare query_loop.simps [simp del]

text \<open>The \<^verbatim>\<open>switch\<close> after the loop: None is \<^verbatim>\<open>return -1\<close> or \<^verbatim>\<open>return -2\<close>, as given by the flag, else how far the read index moves.\<close>

definition query_switch :: "byte \<Rightarrow> byte \<Rightarrow> bool \<Rightarrow> nat \<Rightarrow> int + nat" where
  "query_switch flags c nothing s =
    (if c \<in> {0, 0x0d, 0x0a, 0x20} then if nothing then Inl (-2) else Inr (s - 1)
     else if c = 0x3f then if flags \<noteq> SCAN_PATH then Inl (-1) else Inr s
     else if c = 0x3d then if flags \<noteq> SCAN_SEARCHPATH_PARAM then Inl (-1) else Inr s
     else if c = 0x26 then
       if flags = SCAN_PATH then Inl (-1)
       else if flags = SCAN_SEARCHPATH_PARAM then Inr (s - 1) else Inr s
     else Inl (-1))"

text \<open>Return value, buffer and read index (unchanged on errors).\<close>

definition scan_urlencoded_query :: "bytes \<Rightarrow> nat \<Rightarrow> nat \<Rightarrow> byte \<Rightarrow> (int \<times> bytes \<times> nat) option" where
  "scan_urlencoded_query buf s dest flags =
    (case query_loop flags buf s dest of
       None \<Rightarrow> None
     | Some (buf', Inl _) \<Rightarrow> Some (-1, buf', s)
     | Some (buf', Inr (c, s', d)) \<Rightarrow>
         (case query_switch flags c (d = dest) s' of
            Inl e \<Rightarrow> Some (e, buf', s)
          | Inr s'' \<Rightarrow> Some (int (d - dest), buf', s'')))"

text \<open>
  \<^verbatim>\<open>scan_find_keywords\<close>: keys are C strings. \<^verbatim>\<open>strncmp\<close> stops at a NUL common to both, so a decoded name with a NUL can equal a shorter key;
  the code then reads the key behind its terminator, which is None here.
\<close>

fun strncmp_eq :: "bytes \<Rightarrow> bytes \<Rightarrow> bool" where
  "strncmp_eq key [] = True"
| "strncmp_eq [] (c # cs) = (c = 0)"
| "strncmp_eq (k # ks) (c # cs) = (k = c \<and> strncmp_eq ks cs)"

fun keyword_value :: "(bytes \<times> int) list \<Rightarrow> bytes \<Rightarrow> int option" where
  "keyword_value [] name = Some (-3)"
| "keyword_value ((k, v) # ks) name =
    (if strncmp_eq k name then
       if length name < length k then keyword_value ks name
       else if length name = length k then Some v
       else None
     else keyword_value ks name)"

definition scan_find_keywords :: "(bytes \<times> int) list \<Rightarrow> bytes \<Rightarrow> nat \<Rightarrow> byte \<Rightarrow> (int \<times> bytes \<times> nat) option" where
  "scan_find_keywords keywords buf s flags =
    (case scan_urlencoded_query buf s s flags of
       None \<Rightarrow> None
     | Some (match_length, buf', s') \<Rightarrow>
         if match_length < 0 then Some (match_length, buf', s')
         else if match_length = 0 then Some (-3, buf', s')
         else (case keyword_value keywords (take (nat match_length) (drop s buf')) of
                 None \<Rightarrow> None
               | Some v \<Rightarrow> Some (v, buf', s')))"

text \<open>
  \<^verbatim>\<open>scan_fixed_int\<close>: the number of unparsed characters and the value. Like the code it looks at the first character even when
  \<^verbatim>\<open>len\<close> is 0; \<^verbatim>\<open>len\<close> is a \<^verbatim>\<open>size_t\<close> and the value a 32-bit signed integer, both wrapping around.
\<close>

function fixed_int_loop :: "bytes \<Rightarrow> nat \<Rightarrow> size_t \<Rightarrow> 32 word \<Rightarrow> (size_t \<times> 32 word) option" where
  "fixed_int_loop buf s len tmp =
    (if len > 0 then
       if s < length buf then
         if 0x30 \<le> buf ! s \<and> buf ! s \<le> 0x39
         then fixed_int_loop buf (s + 1) (len - 1) (10 * tmp + ucast (buf ! s) - 0x30)
         else Some (len, tmp)
       else None
     else Some (len, tmp))"
  by pat_completeness auto
termination
  by (relation "measure (\<lambda>(buf, s, len, tmp). length buf - s)") auto

declare fixed_int_loop.simps [simp del]

definition scan_fixed_int :: "bytes \<Rightarrow> nat \<Rightarrow> size_t \<Rightarrow> (size_t \<times> int) option" where
  "scan_fixed_int buf s len =
    (if s < length buf then
       if buf ! s = 0x2d then map_option (\<lambda>(len, tmp). (len, sint (- tmp))) (fixed_int_loop buf (s + 1) (len - 1) 0)
       else map_option (\<lambda>(len, tmp). (len, sint tmp)) (fixed_int_loop buf s len 0)
     else None)"

section \<open>In-place decoding is decoding\<close>

text \<open>The reference decoder works on the unread input and builds the output separately: decoded bytes, ending character, rest.\<close>

fun url_decode :: "byte \<Rightarrow> bytes \<Rightarrow> (unit + bytes \<times> byte \<times> bytes) option" where
  "url_decode flags [] = None"
| "url_decode flags (c # cs) =
    (if is_unreserved c AND flags \<noteq> 0 then
       if c = 0x25 then
         (case cs of
            [] \<Rightarrow> None
          | h # cs' \<Rightarrow>
              if fromhex h = 0xff then Some (Inl ())
              else (case cs' of
                      [] \<Rightarrow> None
                    | l # cs'' \<Rightarrow>
                        if fromhex l = 0xff then Some (Inl ())
                        else map_option (map_sum id (\<lambda>(out, e, rest). ((fromhex l OR push_bit 4 (fromhex h)) # out, e, rest)))
                               (url_decode flags cs'')))
       else map_option (map_sum id (\<lambda>(out, e, rest). (c # out, e, rest))) (url_decode flags cs)
     else Some (Inr ([], c, cs)))"

text \<open>One write of the loop moves a byte over to the decoded part; the gap before the unread input never gets negative.\<close>

lemma write_in_gap:
  assumes "mid \<noteq> []"
  shows "(pre @ mid @ cs)[length pre := x] = (pre @ [x]) @ tl mid @ cs"
  using assms by (cases mid) (auto simp: list_update_append)

lemma query_loop_literal:
  assumes "is_unreserved c AND flags \<noteq> 0" and "c \<noteq> 0x25"
  shows "query_loop flags (pre @ junk @ c # cs) (length pre + length junk) (length pre) =
    query_loop flags ((pre @ [c]) @ tl (junk @ [c]) @ cs) (length (pre @ [c]) + length (tl (junk @ [c]))) (length (pre @ [c]))"
proof -
  have upd: "(pre @ junk @ c # cs)[length pre := c] = (pre @ [c]) @ tl (junk @ [c]) @ cs"
    using write_in_gap [of "junk @ [c]" pre cs c] by simp
  have nth: "(pre @ junk @ c # cs) ! (length pre + length junk) = c"
    by (simp add: nth_append)
  have idx: "length pre + length junk + 1 = length (pre @ [c]) + length (tl (junk @ [c]))"
    by simp
  show ?thesis
    by (subst query_loop.simps) (use assms in \<open>simp add: nth upd idx Let_def\<close>)
qed

lemma query_loop_escape:
  assumes "is_unreserved 0x25 AND flags \<noteq> 0" and "fromhex h \<noteq> 0xff" and "fromhex l \<noteq> 0xff"
  shows "query_loop flags (pre @ junk @ 0x25 # h # l # cs) (length pre + length junk) (length pre) =
    (let x = fromhex l OR push_bit 4 (fromhex h); mid = tl (junk @ [0x25, h, l])
     in query_loop flags ((pre @ [x]) @ mid @ cs) (length (pre @ [x]) + length mid) (length (pre @ [x])))"
proof -
  let ?b = "pre @ junk @ 0x25 # h # l # cs" and ?s = "length pre + length junk"
  have upd: "?b[length pre := x] = (pre @ [x]) @ tl (junk @ [0x25, h, l]) @ cs" for x
    using write_in_gap [of "junk @ [0x25, h, l]" pre cs x] by simp
  have nth: "?b ! ?s = 0x25" "?b ! Suc ?s = h" "?b ! Suc (Suc ?s) = l"
    by (simp_all add: nth_append)
  have idx: "?s + 3 = Suc (length pre) + length (tl (junk @ [0x25, h, l]))"
    by simp
  show ?thesis
    by (subst query_loop.simps) (use assms in \<open>simp add: nth upd idx Let_def\<close>)
qed

lemma query_loop_stop:
  assumes "is_unreserved c AND flags = 0"
  shows "query_loop flags (pre @ junk @ c # cs) (length pre + length junk) (length pre) =
    Some (pre @ junk @ c # cs, Inr (c, length pre + length junk + 1, length pre))"
  by (subst query_loop.simps) (simp add: assms nth_append)

definition decode_result :: "bytes \<Rightarrow> nat \<Rightarrow> (unit + bytes \<times> byte \<times> bytes) option \<Rightarrow> (bytes \<times> (unit + byte \<times> nat \<times> nat)) option \<Rightarrow> bool" where
  "decode_result pre n r q =
    (case r of
       None \<Rightarrow> q = None
     | Some (Inl _) \<Rightarrow> \<exists>buf'. q = Some (buf', Inl ()) \<and> length buf' = n
     | Some (Inr (out, c, rest)) \<Rightarrow>
         \<exists>gap. q = Some (pre @ out @ gap @ c # rest, Inr (c, length pre + length out + length gap + 1, length pre + length out))
           \<and> length pre + length out + length gap + 1 + length rest = n)"

lemma decode_result_step:
  "decode_result (pre @ [x]) n r q \<Longrightarrow> decode_result pre n (map_option (map_sum id (\<lambda>(out, e, rest). (x # out, e, rest))) r) q"
  by (auto simp: decode_result_def split: option.splits sum.splits)

theorem query_loop_decodes:
  "decode_result pre (length (pre @ junk @ input)) (url_decode flags input)
    (query_loop flags (pre @ junk @ input) (length pre + length junk) (length pre))"
proof (induction flags input arbitrary: pre junk rule: url_decode.induct)
  case (1 flags)
  then show ?case
    by (subst query_loop.simps) (simp add: decode_result_def)
next
  case (2 flags c cs)
  let ?b = "pre @ junk @ c # cs" and ?s = "length pre + length junk"
  consider (stop) "is_unreserved c AND flags = 0"
    | (lit) "is_unreserved c AND flags \<noteq> 0" "c \<noteq> 0x25"
    | (esc) "is_unreserved c AND flags \<noteq> 0" "c = 0x25" by blast
  then show ?case
  proof cases
    case stop
    then show ?thesis
      by (simp add: query_loop_stop decode_result_def)
  next
    case lit
    show ?thesis
      using decode_result_step [OF "2.IH"(2) [OF lit, of "pre @ [c]" "tl (junk @ [c])"]] lit
      by (simp add: query_loop_literal)
  next
    case esc
    have nth: "?b ! ?s = c" by (simp add: nth_append)
    show ?thesis
    proof (cases "cs = [] \<or> fromhex (hd cs) = 0xff \<or> tl cs = [] \<or> fromhex (hd (tl cs)) = 0xff")
      case True
      have "(pre @ junk @ c # h # cs') ! Suc ?s = h" "(pre @ junk @ c # h # l # cs') ! Suc (Suc ?s) = l" for h l cs'
        by (simp_all add: nth_append)
      with True esc show ?thesis
        by (subst query_loop.simps) (auto simp: nth decode_result_def Let_def split: list.splits)
    next
      case False
      then obtain h l cs'' where cs: "cs = h # l # cs''" and hex: "fromhex h \<noteq> 0xff" "fromhex l \<noteq> 0xff"
        by (metis list.exhaust_sel)
      show ?thesis
        using decode_result_step [OF "2.IH"(1) [OF esc cs hex(1) refl hex(2),
              of "pre @ [fromhex l OR push_bit 4 (fromhex h)]" "tl (junk @ [c, h, l])"]] esc hex
        by (simp add: query_loop_escape cs Let_def)
    qed
  qed
qed

section \<open>Memory safety\<close>

lemma is_unreserved_simps:
  "is_unreserved 0 = 8" "is_unreserved 0x25 = 7" "is_unreserved 0x26 = 0" "is_unreserved 0x3d = 4"
  "is_unreserved 0x3f = 6" "is_unreserved 0x20 = 8" "is_unreserved 0x0a = 8" "is_unreserved 0x0d = 8"
  by (simp_all add: is_unreserved_def is_unreserved_table_def)

text \<open>The hard terminators: NUL, line feed, carriage return and blank. None is a hexadecimal digit, so an escape cannot run over them.\<close>

definition terminator :: "byte \<Rightarrow> bool" where
  "terminator c \<longleftrightarrow> c \<in> {0, 0x0a, 0x0d, 0x20}"

lemma terminator_simps:
  assumes "terminator c"
  shows "is_unreserved c = 8" "fromhex c = 0xff" "c \<noteq> 0x25"
  using assms by (auto simp: terminator_def is_unreserved_simps fromhex_def Let_def)

lemma url_decode_terminator:
  assumes "8 AND flags = (0 :: byte)" and "terminator e" and "\<forall>x \<in> set xs. \<not> terminator x"
  shows "url_decode flags (xs @ e # ys) = Some (Inl ()) \<or>
    (\<exists>out c rest. url_decode flags (xs @ e # ys) = Some (Inr (out, c, rest)) \<and>
       length ys \<le> length rest \<and> (\<not> terminator c \<longrightarrow> length ys < length rest) \<and> length out + length rest \<le> length xs + length ys)"
  using assms
proof (induction flags xs rule: url_decode.induct)
  case (1 flags)
  then show ?case using terminator_simps by simp
next
  case (2 flags c cs)
  consider (stop) "is_unreserved c AND flags = 0"
    | (lit) "is_unreserved c AND flags \<noteq> 0" "c \<noteq> 0x25"
    | (esc) "is_unreserved c AND flags \<noteq> 0" "c = 0x25" by blast
  then show ?case
  proof cases
    case stop
    then show ?thesis by simp
  next
    case lit
    then show ?thesis using "2.IH"(2) [OF lit] "2.prems" by auto
  next
    case esc
    show ?thesis
    proof (cases "cs = [] \<or> fromhex (hd cs) = 0xff \<or> tl cs = [] \<or> fromhex (hd (tl cs)) = 0xff")
      case True
      with esc show ?thesis using terminator_simps(2) [OF "2.prems"(2)] by (cases cs; cases "tl cs") auto
    next
      case False
      then obtain h l cs'' where cs: "cs = h # l # cs''" and hex: "fromhex h \<noteq> 0xff" "fromhex l \<noteq> 0xff"
        by (metis list.exhaust_sel)
      show ?thesis using "2.IH"(1) [OF esc cs hex(1) refl hex(2)] "2.prems" esc cs hex by auto
    qed
  qed
qed

lemma terminator_split:
  assumes "s \<le> e" and "e < length buf" and "terminator (buf ! e)"
  obtains xs c ys where "drop s buf = xs @ c # ys" and "terminator c" and "\<forall>x \<in> set xs. \<not> terminator x" and "s + length xs \<le> e"
proof -
  have "\<exists>x \<in> set (drop s buf). terminator x"
    using assms nth_mem [of "e - s" "drop s buf"] by auto
  from split_list_first_prop [OF this] obtain xs c ys where eq: "drop s buf = xs @ c # ys" "terminator c" "\<forall>x \<in> set xs. \<not> terminator x"
    by blast
  have "s + length xs \<le> e"
  proof (rule ccontr)
    assume "\<not> s + length xs \<le> e"
    then have "drop s buf ! (e - s) = xs ! (e - s)" "e - s < length xs"
      using assms(1) eq(1) by (auto simp: nth_append)
    moreover have "terminator (drop s buf ! (e - s))" using assms by simp
    ultimately show False using eq(3) by auto
  qed
  with eq that show thesis by blast
qed

lemma decode_cons_iff:
  "map_sum id (\<lambda>(out, y). (x # out, y)) z = Inr (out, c, rest) \<longleftrightarrow> (\<exists>out'. z = Inr (out', c, rest) \<and> out = x # out')"
  by (cases z) auto

lemma url_decode_suffix:
  assumes "url_decode flags input = Some (Inr (out, c, rest))"
  shows "(\<exists>zs. input = zs @ c # rest) \<and> (out = [] \<longrightarrow> input = c # rest)"
  using assms
proof (induction flags input arbitrary: out rule: url_decode.induct)
  case (2 flags d cs)
  consider (stop) "is_unreserved d AND flags = 0"
    | (lit) "is_unreserved d AND flags \<noteq> 0" "d \<noteq> 0x25"
    | (esc) "is_unreserved d AND flags \<noteq> 0" "d = 0x25" by blast
  then show ?case
  proof cases
    case stop
    then show ?thesis using "2.prems" by simp
  next
    case lit
    then obtain out' where "url_decode flags cs = Some (Inr (out', c, rest))" "out = d # out'"
      using "2.prems" by (auto simp: decode_cons_iff)
    then show ?thesis using "2.IH"(2) [OF lit] by (metis append_Cons list.distinct(1))
  next
    case esc
    then obtain h l cs' out' where cs: "cs = h # l # cs'" and hex: "fromhex h \<noteq> 0xff" "fromhex l \<noteq> 0xff"
      and rec: "url_decode flags cs' = Some (Inr (out', c, rest))" "out \<noteq> []"
      using "2.prems" by (auto simp: decode_cons_iff split: list.splits if_splits)
    from "2.IH"(1) [OF esc cs hex(1) refl hex(2) rec(1)] show ?thesis using cs rec(2) by (metis append_Cons)
  qed
qed simp
lemma byte_less_16_cases:
  assumes "n < (16 :: byte)"
  shows "n \<in> {0, 1, 2, 3, 4, 5, 6, 7, 8, 9, 10, 11, 12, 13, 14, 15}"
proof -
  have "unat n < 16" using assms by (simp add: word_less_nat_alt)
  then have "unat n \<in> set [0..<16]" by simp
  then have "word_of_nat (unat n) \<in> (word_of_nat ` set [0..<16] :: byte set)" by blast
  then show ?thesis by (simp add: upt_conv_Cons)
qed

text \<open>Input without the escape \<^verbatim>\<open>%00\<close> decodes to bytes without NUL.\<close>

definition no_nul_escape :: "bytes \<Rightarrow> bool" where
  "no_nul_escape xs \<longleftrightarrow> (\<forall>i. take 3 (drop i xs) \<noteq> [0x25, 0x30, 0x30])"

lemma no_nul_escape_drop: "no_nul_escape xs \<Longrightarrow> no_nul_escape (drop n xs)"
  by (auto simp: no_nul_escape_def)

lemma fromhex_zero:
  assumes "fromhex x = 0"
  shows "x = 0x30"
proof -
  have "y + 10 \<noteq> 0" if "y < (6 :: byte)" for y
    using that by (simp add: eq_neg_iff_add_eq_0 [symmetric]) (auto simp: word_less_nat_alt)
  then show ?thesis using assms by (auto simp: fromhex_def Let_def split: if_splits)
qed

lemma fromhex_bound: "fromhex x \<noteq> 0xff \<Longrightarrow> fromhex x < 16"
proof -
  have "y + 10 < 16" if "y < (6 :: byte)" for y
    using that by (simp add: word_less_nat_alt unat_word_ariths(1))
  moreover have "y \<le> 9 \<Longrightarrow> y < (16 :: byte)" for y by (simp add: word_less_nat_alt word_le_nat_alt)
  moreover define z where "z = ((x - 0x30) AND NOT 0x20) - (0x41 - 0x30)"
  have "fromhex x = (if x - 0x30 \<le> 9 then x - 0x30 else if z < 6 then z + 10 else 0xff)"
    unfolding fromhex_def Let_def z_def ..
  ultimately show "fromhex x \<noteq> 0xff \<Longrightarrow> fromhex x < 16" by (simp split: if_splits)
qed

lemma nibbles_zero:
  assumes "b < (16 :: byte)" and "c OR push_bit 4 b = 0"
  shows "c = 0 \<and> b = 0"
proof -
  have c: "c = 0" and p: "push_bit 4 b = 0" using assms(2) by (auto simp: or_eq_0_iff)
  have "b = 0"
    using byte_less_16_cases [OF assms(1)] p by auto
  with c show ?thesis by simp
qed

lemma url_decode_no_nul:
  assumes "url_decode flags input = Some (Inr (out, c, rest))" and "8 AND flags = 0" and "no_nul_escape input"
  shows "0 \<notin> set out"
  using assms
proof (induction flags input arbitrary: out rule: url_decode.induct)
  case (2 flags d cs)
  have nn: "no_nul_escape cs" using no_nul_escape_drop [OF "2.prems"(3), of 1] by simp
  consider (stop) "is_unreserved d AND flags = 0"
    | (lit) "is_unreserved d AND flags \<noteq> 0" "d \<noteq> 0x25"
    | (esc) "is_unreserved d AND flags \<noteq> 0" "d = 0x25" by blast
  then show ?case
  proof cases
    case stop
    then show ?thesis using "2.prems" by simp
  next
    case lit
    then obtain out' where "url_decode flags cs = Some (Inr (out', c, rest))" "out = d # out'"
      using "2.prems" by (auto simp: decode_cons_iff)
    moreover have "d \<noteq> 0" using lit(1) "2.prems"(2) by (auto simp: is_unreserved_simps)
    ultimately show ?thesis using "2.IH"(2) [OF lit _ "2.prems"(2) nn] by auto
  next
    case esc
    then obtain h l cs' out' where cs: "cs = h # l # cs'" and hex: "fromhex h \<noteq> 0xff" "fromhex l \<noteq> 0xff"
      and rec: "url_decode flags cs' = Some (Inr (out', c, rest))" "out = (fromhex l OR push_bit 4 (fromhex h)) # out'"
      using "2.prems" by (auto simp: decode_cons_iff split: list.splits if_splits)
    have "\<not> (h = 0x30 \<and> l = 0x30)"
      using "2.prems"(3) esc(2) cs by (auto simp: no_nul_escape_def dest: spec [of _ 0])
    then have "fromhex l OR push_bit 4 (fromhex h) \<noteq> 0"
      using nibbles_zero [OF fromhex_bound [OF hex(1)], of "fromhex l"] fromhex_zero by blast
    moreover have "no_nul_escape cs'" using no_nul_escape_drop [OF nn, of 2] by (simp add: cs)
    ultimately show ?thesis using "2.IH"(1) [OF esc cs hex(1) refl hex(2) rec(1) "2.prems"(2)] rec(2) by simp
  qed
qed simp

text \<open>What one call does on a buffer with a terminator at \<^verbatim>\<open>e\<close>, the facts the request parsers build on.\<close>

definition scan_post :: "byte \<Rightarrow> bytes \<Rightarrow> nat \<Rightarrow> nat \<Rightarrow> nat \<Rightarrow> int \<Rightarrow> bytes \<Rightarrow> nat \<Rightarrow> bool" where
  "scan_post flags buf s dest e r buf' s' \<longleftrightarrow>
    length buf' = length buf \<and> s \<le> s' \<and> s' \<le> e \<and> - 2 \<le> r \<and> (0 \<le> r \<longrightarrow> r \<le> int (s' - s)) \<and> (r < 0 \<longrightarrow> s' = s) \<and>
    (r \<noteq> -1 \<longrightarrow> take dest buf' = take dest buf \<and> drop s' buf' = drop s' buf) \<and> (r = -2 \<longrightarrow> terminator (buf ! s)) \<and>
    (terminator (buf ! s) \<longrightarrow> r = -2) \<and> (r = 0 \<longrightarrow> s < s' \<or> buf ! s = 0x26) \<and>
    (0 \<le> r \<and> no_nul_escape (drop s buf) \<longrightarrow> 0 \<notin> set (take (nat r) (drop dest buf')))"

lemma query_switch_cases:
  "(nothing \<longrightarrow> \<not> terminator c) \<Longrightarrow>
    query_switch flags c nothing (p + 1) = Inl (-1) \<or> query_switch flags c nothing (p + 1) = Inr p \<and> terminator c \<or>
    query_switch flags c nothing (p + 1) = Inr p \<and> c = 0x26 \<or> query_switch flags c nothing (p + 1) = Inr (p + 1) \<and> \<not> terminator c"
  by (auto simp: query_switch_def terminator_def)

lemma scan_urlencoded_query_result:
  assumes "8 AND flags = 0" and "dest \<le> s" and "s \<le> e" and "e < length buf" and "terminator (buf ! e)"
  shows "\<exists>r buf' s'. scan_urlencoded_query buf s dest flags = Some (r, buf', s') \<and> scan_post flags buf s dest e r buf' s'"
proof -
  obtain xs t ys where split: "drop s buf = xs @ t # ys" "terminator t" "\<forall>x \<in> set xs. \<not> terminator x" "s + length xs \<le> e"
    using terminator_split [OF assms(3-5)] by blast
  define pre junk where "pre = take dest buf" and "junk = take (s - dest) (drop dest buf)"
  have buf: "buf = pre @ junk @ xs @ t # ys"
    using assms(2) append_take_drop_id [of "s - dest" "drop dest buf"] append_take_drop_id [of dest buf] split(1)
    by (simp add: pre_def junk_def)
  have len: "length pre = dest" "length pre + length junk = s"
    using assms by (auto simp: pre_def junk_def)
  have first: "buf ! s = hd (xs @ [t])"
    using buf len by (cases xs) (auto simp: nth_append)
  have dec: "decode_result pre (length buf) (url_decode flags (xs @ t # ys)) (query_loop flags buf s dest)"
    using query_loop_decodes [of pre junk "xs @ t # ys" flags] len buf by simp
  show ?thesis
  proof (cases "terminator (buf ! s)")
    case True
    then have "xs = []" using split(3) first by (cases xs) auto
    then have "url_decode flags (xs @ t # ys) = Some (Inr ([], t, ys))"
      using terminator_simps [OF split(2)] assms(1) by simp
    then have "query_loop flags buf s dest = Some (buf, Inr (t, s + 1, dest))"
      using query_loop_stop [of t flags pre junk ys] terminator_simps [OF split(2)] assms(1) buf len \<open>xs = []\<close> by simp
    then show ?thesis
      using split(2) True assms(3) by (auto simp: scan_urlencoded_query_def query_switch_def terminator_def scan_post_def)
  next
    case False
    then have "xs \<noteq> []" using first split(2) by auto
    consider (err) "url_decode flags (xs @ t # ys) = Some (Inl ())"
      | (ok) out c rest where "url_decode flags (xs @ t # ys) = Some (Inr (out, c, rest))"
          "length ys \<le> length rest" "\<not> terminator c \<longrightarrow> length ys < length rest" "length out + length rest \<le> length xs + length ys"
      using url_decode_terminator [OF assms(1) split(2,3), of ys] by blast
    then show ?thesis
    proof cases
      case err
      then obtain buf' where "query_loop flags buf s dest = Some (buf', Inl ())" "length buf' = length buf"
        using dec by (auto simp: decode_result_def)
      then show ?thesis using assms False by (simp add: scan_urlencoded_query_def scan_post_def)
    next
      case ok
      obtain gap where q: "query_loop flags buf s dest =
            Some (pre @ out @ gap @ c # rest, Inr (c, dest + length out + length gap + 1, dest + length out))"
          and n: "dest + length out + length gap + 1 + length rest = length buf"
        using dec ok(1) len(1) by (auto simp: decode_result_def)
      define p where "p = dest + length out + length gap"
      obtain zs where zs: "xs @ t # ys = zs @ c # rest" and hd: "out = [] \<longrightarrow> xs @ t # ys = c # rest"
        using url_decode_suffix [OF ok(1)] by blast
      have buf2: "buf = (pre @ junk @ zs) @ c # rest" using buf zs by simp
      have lz: "length (pre @ junk @ zs) = p" using n buf2 by (simp add: p_def)
      have tail: "drop p (pre @ out @ gap @ c # rest) = drop p buf" "drop (p + 1) (pre @ out @ gap @ c # rest) = drop (p + 1) buf"
        using lz len(1) unfolding buf2 by (simp_all add: p_def)
      have pre: "take dest (pre @ out @ gap @ c # rest) = take dest buf" using len(1) buf by simp
      have c: "out = [] \<Longrightarrow> \<not> terminator c" using hd False first \<open>xs \<noteq> []\<close> by (cases xs) auto
      have le: "p \<le> e" "\<not> terminator c \<Longrightarrow> p + 1 \<le> e" "s + length out \<le> p"
        using ok(2-4) n len buf split(4) by (auto simp: p_def)
      have amp: "out = [] \<Longrightarrow> buf ! s = c" using hd first \<open>xs \<noteq> []\<close> by (cases xs) auto
      have lenb: "length (pre @ out @ gap @ c # rest) = length buf" using n len(1) by simp
      have nn: "no_nul_escape (drop s buf) \<longrightarrow> 0 \<notin> set (take (length out) (drop dest (pre @ out @ gap @ c # rest)))"
        using url_decode_no_nul [OF ok(1) assms(1)] split(1) len(1) by simp
      have sw: "scan_urlencoded_query buf s dest flags =
        (case query_switch flags c (out = []) (p + 1) of Inl e \<Rightarrow> Some (e, pre @ out @ gap @ c # rest, s)
         | Inr s'' \<Rightarrow> Some (int (length out), pre @ out @ gap @ c # rest, s''))"
        by (simp add: scan_urlencoded_query_def q p_def split: sum.split)
      have "out = [] \<longrightarrow> \<not> terminator c" using c by blast
      from query_switch_cases [OF this, of flags p] show ?thesis
      proof (elim disjE conjE)
        assume "query_switch flags c (out = []) (p + 1) = Inl (-1)"
        then show ?thesis using sw lenb False assms(3) by (simp add: scan_post_def)
      next
        assume "query_switch flags c (out = []) (p + 1) = Inr p" "terminator c"
        then show ?thesis using sw lenb False le(1,3) tail(1) pre c nn by (auto simp: scan_post_def)
      next
        assume "query_switch flags c (out = []) (p + 1) = Inr p" "c = 0x26"
        then show ?thesis using sw lenb False le(1,3) tail(1) pre amp nn by (auto simp: scan_post_def)
      next
        assume "query_switch flags c (out = []) (p + 1) = Inr (p + 1)" "\<not> terminator c"
        then show ?thesis using sw lenb False le(2,3) tail(2) pre nn by (simp add: scan_post_def)
      qed
    qed
  qed
qed

text \<open>
  C30: Decoding is memory safe when a hard terminator (NUL, line end or blank) stands at or after the read position. The decoder then always returns, in all
  positions of a request (path, parameter name, value); it keeps the length of the buffer, and the read pointer it hands back has not passed the terminator. The number
  of bytes it reports to have written at the destination is at most the number of bytes it has read.
\<close>

theorem scan_urlencoded_query_safe:
  assumes "8 AND flags = 0" and "dest \<le> s" and "s \<le> e" and "e < length buf" and "terminator (buf ! e)"
  shows "\<exists>r buf' s'. scan_urlencoded_query buf s dest flags = Some (r, buf', s') \<and> length buf' = length buf \<and>
    s \<le> s' \<and> s' \<le> e \<and> - 2 \<le> r \<and> (r \<ge> 0 \<longrightarrow> r \<le> int (s' - s)) \<and> (r < 0 \<longrightarrow> s' = s)"
  using scan_urlencoded_query_result [OF assms] by (auto simp: scan_post_def)

theorem scan_urlencoded_query_safe_witness:
  "\<exists>r buf' s'. scan_urlencoded_query [0x61, 0x25, 0x34, 0x31, 0x26, 0x78, 0] 0 0 4 = Some (r, buf', s') \<and> length buf' = 7 \<and> s' \<le> 6"
  using scan_urlencoded_query_safe [of 4 0 0 6 "[0x61, 0x25, 0x34, 0x31, 0x26, 0x78, 0]"] by (auto simp: terminator_def)

section \<open>Percent encoding\<close>

text \<open>
  An encoder in the sense of RFC 3986: bytes chosen by \<^verbatim>\<open>p\<close> stand for themselves, the others are escaped, with upper or lower case
  hexadecimal digits.
\<close>

definition hexdigit :: "bool \<Rightarrow> byte \<Rightarrow> byte" where
  "hexdigit upper n = (if n < 10 then n + 0x30 else if upper then n + 0x37 else n + 0x57)"

definition url_encode :: "(byte \<Rightarrow> bool) \<Rightarrow> bool \<Rightarrow> bytes \<Rightarrow> bytes" where
  "url_encode p upper xs = concat (map (\<lambda>b. if p b then [b] else [0x25, hexdigit upper (drop_bit 4 b), hexdigit upper (b AND 0xf)]) xs)"

lemma fromhex_hexdigit: "n < 16 \<Longrightarrow> fromhex (hexdigit u n) = n"
  using byte_less_16_cases [of n] by (cases u) (auto simp: fromhex_def hexdigit_def)

lemma nibbles:
  fixes b :: byte
  shows "drop_bit 4 b < 16" and "b AND 0xf < 16" and "(b AND 0xf) OR push_bit 4 (drop_bit 4 b) = b"
proof -
  have "unat (drop_bit 4 b) < 16"
    using unsigned_less [of b, where 'a = nat] by (simp only: unat_drop_bit_eq) (simp add: drop_bit_eq_div less_mult_imp_div_less)
  then show "drop_bit 4 b < 16" by (simp add: word_less_nat_alt)
  have mask: "b AND 0xf = take_bit 4 b" by (simp add: take_bit_eq_mask mask_numeral)
  have "unat (take_bit 4 b) < 2 ^ 4" by (simp only: unsigned_take_bit_eq take_bit_nat_less_exp)
  then show "b AND 0xf < 16" by (simp add: mask word_less_nat_alt)
  show "(b AND 0xf) OR push_bit 4 (drop_bit 4 b) = b"
  proof (rule bit_word_eqI)
    show "bit ((b AND 0xf) OR push_bit 4 (drop_bit 4 b)) n \<longleftrightarrow> bit b n" if "n < LENGTH(8)" for n
      using that by (cases "n < 4") (simp_all add: mask bit_simps)
  qed
qed

lemma url_decode_encode:
  assumes "\<And>b. p b \<Longrightarrow> is_unreserved b AND flags \<noteq> 0 \<and> b \<noteq> 0x25" and "is_unreserved 0x25 AND flags \<noteq> 0"
    and "is_unreserved e AND flags = 0"
  shows "url_decode flags (url_encode p u xs @ e # rest) = Some (Inr (xs, e, rest))"
proof (induction xs)
  case Nil
  then show ?case using assms(3) by (simp add: url_encode_def)
next
  case (Cons b xs)
  have "n < 16 \<Longrightarrow> n \<noteq> (0xff :: byte)" for n by auto
  then show ?case
    using Cons assms(1) [of b] assms(2) by (auto simp: url_encode_def fromhex_hexdigit nibbles)
qed

text \<open>
  C29: Decoding inverts percent encoding for every byte string, an info hash for example. If the value of a parameter is any percent encoding
  of \<^verbatim>\<open>xs\<close> (which bytes are escaped and the case of the digits do not matter) and the separator \<^verbatim>\<open>&\<close> follows, then scanning
  the value returns the length of \<^verbatim>\<open>xs\<close>, leaves exactly \<^verbatim>\<open>xs\<close> at the destination and moves on behind the separator.
\<close>

theorem scan_urlencoded_query_encode:
  assumes "\<And>b. p b \<Longrightarrow> is_unreserved b AND SCAN_SEARCHPATH_VALUE \<noteq> 0 \<and> b \<noteq> 0x25"
    and "buf = pre @ junk @ url_encode p u xs @ 0x26 # rest"
  shows "\<exists>gap. scan_urlencoded_query buf (length pre + length junk) (length pre) SCAN_SEARCHPATH_VALUE =
      Some (int (length xs), pre @ xs @ gap @ 0x26 # rest, length buf - length rest)"
proof -
  have "url_decode 4 (url_encode p u xs @ 0x26 # rest) = Some (Inr (xs, 0x26, rest))"
    using assms(1) by (intro url_decode_encode) (simp_all add: is_unreserved_simps)
  then obtain gap where "query_loop 4 buf (length pre + length junk) (length pre) =
        Some (pre @ xs @ gap @ 0x26 # rest, Inr (0x26, length pre + length xs + length gap + 1, length pre + length xs))"
      "length pre + length xs + length gap + 1 + length rest = length buf"
    using query_loop_decodes [of pre junk "url_encode p u xs @ 0x26 # rest" 4] assms(2)
    by (auto simp: decode_result_def)
  then show ?thesis by (intro exI [of _ gap]) (simp add: scan_urlencoded_query_def query_switch_def)
qed

theorem scan_urlencoded_query_encode_witness:
  "\<exists>gap. scan_urlencoded_query [0x25, 0x30, 0x30, 0x25, 0x66, 0x66, 0x26, 0] 0 0 4 = Some (2, [0, 0xff] @ gap @ [0x26, 0], 7)"
proof -
  have "[0x25, 0x30, 0x30, 0x25, 0x66, 0x66, 0x26, 0] = [] @ [] @ url_encode (\<lambda>_. False) False [0, 0xff] @ 0x26 # [0]"
    by (simp add: url_encode_def hexdigit_def)
  from scan_urlencoded_query_encode [OF _ this] show ?thesis by (simp add: numeral_eq_Suc)
qed

section \<open>Numbers\<close>

definition digits_value :: "32 word \<Rightarrow> bytes \<Rightarrow> 32 word" where
  "digits_value = foldl (\<lambda>tmp c. 10 * tmp + ucast c - 0x30)"

lemma fixed_int_loop_digits:
  assumes "\<forall>c \<in> set ds. 0x30 \<le> c \<and> c \<le> 0x39" and "length ds < 2 ^ 64"
  shows "fixed_int_loop (pre @ ds @ post) (length pre) (of_nat (length ds)) tmp = Some (0, digits_value tmp ds)"
  using assms
proof (induction ds arbitrary: pre tmp)
  case Nil
  then show ?case by (subst fixed_int_loop.simps) (simp add: digits_value_def)
next
  case (Cons c ds)
  have len: "(of_nat (length (c # ds)) :: size_t) > 0"
    using Cons.prems(2) by (simp add: word_less_nat_alt unat_of_nat del: of_nat_Suc)
  have "(of_nat (length (c # ds)) :: size_t) - 1 = of_nat (length ds)" by simp
  then show ?case
    using Cons.IH [of "pre @ [c]" "10 * tmp + ucast c - 0x30"] Cons.prems len
    by (subst fixed_int_loop.simps) (simp add: digits_value_def nth_append del: of_nat_Suc)
qed

section \<open>The other scanners on a terminated buffer\<close>

lemma skipvalue_loop_result:
  assumes "s \<le> e" and "e < length buf" and "terminator (buf ! e)"
  shows "\<exists>f n. skipvalue_loop buf s = Some (f, n + 1) \<and> s \<le> n \<and> n \<le> e \<and> f = is_unreserved (buf ! n) \<and> f AND SCAN_SEARCHPATH_VALUE = 0"
  using assms(1)
proof (induction "e - s" arbitrary: s)
  case 0
  then have "s = e" by simp
  then show ?case using assms by (subst skipvalue_loop.simps) (simp add: terminator_simps)
next
  case (Suc k)
  show ?case
  proof (cases "is_unreserved (buf ! s) AND SCAN_SEARCHPATH_VALUE = 0")
    case True
    then show ?thesis using Suc.prems assms(2) by (subst skipvalue_loop.simps) (simp add: Let_def)
  next
    case False
    then have "skipvalue_loop buf s = skipvalue_loop buf (s + 1)"
      using Suc.prems assms(2) by (subst skipvalue_loop.simps) (simp add: Let_def)
    moreover have "k = e - (s + 1)" "s + 1 \<le> e" using Suc.hyps(2) by auto
    note Suc.hyps(1) [OF this]
    ultimately show ?thesis by (metis Suc_eq_plus1 Suc_leD)
  qed
qed

lemma scan_urlencoded_skipvalue_result:
  assumes "s \<le> e" and "e < length buf" and "terminator (buf ! e)"
  shows "\<exists>s'. scan_urlencoded_skipvalue buf s = Some s' \<and> s \<le> s' \<and> s' \<le> e \<and> (buf ! s = 0x26 \<longrightarrow> s < s')"
proof -
  obtain f n where r: "skipvalue_loop buf s = Some (f, n + 1)" "s \<le> n" "n \<le> e" "f = is_unreserved (buf ! n)"
    using skipvalue_loop_result [OF assms] by blast
  have "n < e \<or> f AND SCAN_SEARCHPATH_TERMINATOR \<noteq> 0"
    using r(3,4) terminator_simps(1) [OF assms(3)] by (cases "n = e") auto
  moreover have "f AND SCAN_SEARCHPATH_TERMINATOR \<noteq> 0 \<Longrightarrow> buf ! s = 0x26 \<Longrightarrow> s < n"
    using r(2,4) by (cases "n = s") (auto simp: is_unreserved_simps)
  ultimately show ?thesis using r by (auto simp: scan_urlencoded_skipvalue_def)
qed

lemma keyword_value_result:
  assumes "0 \<notin> set name"
  shows "\<exists>v. keyword_value ks name = Some v \<and> v \<in> insert (-3) (snd ` set ks)"
proof -
  have le: "strncmp_eq k name \<Longrightarrow> length name \<le> length k" for k
    using assms by (induction k name rule: strncmp_eq.induct) auto
  show ?thesis by (induction ks) (use le in \<open>force+\<close>)
qed

definition find_post :: "(bytes \<times> int) list \<Rightarrow> bytes \<Rightarrow> nat \<Rightarrow> nat \<Rightarrow> int \<Rightarrow> bytes \<Rightarrow> nat \<Rightarrow> bool" where
  "find_post ks buf s e k buf' s' \<longleftrightarrow>
    length buf' = length buf \<and> s \<le> s' \<and> s' \<le> e \<and> (k \<noteq> -1 \<longrightarrow> take s buf' = take s buf \<and> drop s' buf' = drop s' buf) \<and>
    (terminator (buf ! s) \<longrightarrow> k = -2) \<and> (k \<notin> {-1, -2} \<longrightarrow> s < s' \<or> k = -3 \<and> buf ! s = 0x26) \<and> k \<in> {-1, -2, -3} \<union> snd ` set ks"

lemma scan_find_keywords_result:
  assumes "8 AND flags = 0" and "s \<le> e" and "e < length buf" and "terminator (buf ! e)" and "no_nul_escape (drop s buf)"
    and "\<forall>k \<in> snd ` set ks. 0 < k"
  shows "\<exists>k buf' s'. scan_find_keywords ks buf s flags = Some (k, buf', s') \<and> find_post ks buf s e k buf' s'"
proof -
  obtain r buf' s' where q: "scan_urlencoded_query buf s s flags = Some (r, buf', s')" and post: "scan_post flags buf s s e r buf' s'"
    using scan_urlencoded_query_result [OF assms(1) order_refl assms(2-4)] by blast
  consider "r < 0" | "r = 0" | "0 < r" by linarith
  then show ?thesis
  proof cases
    case 1
    then show ?thesis using q post by (auto simp: scan_find_keywords_def find_post_def scan_post_def)
  next
    case 2
    then show ?thesis using q post by (auto simp: scan_find_keywords_def find_post_def scan_post_def)
  next
    case 3
    then have "0 \<notin> set (take (nat r) (drop s buf'))" using post assms(5) by (simp add: scan_post_def)
    then obtain v where "keyword_value ks (take (nat r) (drop s buf')) = Some v" "v \<in> insert (-3) (snd ` set ks)"
      using keyword_value_result by blast
    moreover have "s < s'" using 3 post by (auto simp: scan_post_def)
    moreover from calculation(2) assms(6) have "v \<noteq> -1" "v \<noteq> -2" by auto
    ultimately show ?thesis using q post 3
      by (auto simp: scan_find_keywords_def find_post_def scan_post_def)
  qed
qed

lemma fixed_int_loop_total:
  assumes "s + unat len \<le> length buf"
  shows "\<exists>r. fixed_int_loop buf s len tmp = Some r"
  using assms
proof (induction "unat len" arbitrary: s len tmp)
  case 0
  then have "len = 0" by (simp add: unat_eq_0)
  then show ?case by (subst fixed_int_loop.simps) simp
next
  case (Suc n)
  have pos: "0 < len" using Suc.hyps(2) by (simp add: word_less_nat_alt)
  then have "unat (len - 1) = n" using Suc.hyps(2) by (simp add: unat_minus_one)
  then show ?case using Suc.hyps(1) [of "len - 1" "s + 1"] Suc.hyps(2) Suc.prems pos
    by (subst fixed_int_loop.simps) auto
qed

lemma scan_fixed_int_total:
  assumes "s + unat len \<le> length buf" and "0 < len"
  shows "\<exists>r. scan_fixed_int buf s len = Some r"
proof -
  have pos: "0 < unat len" using assms(2) by (simp add: word_less_nat_alt)
  then have "unat (len - 1) = unat len - 1" using assms(2) by (simp add: unat_minus_one)
  then obtain r1 r2 where "fixed_int_loop buf (s + 1) (len - 1) 0 = Some r1" "fixed_int_loop buf s len 0 = Some r2"
    using fixed_int_loop_total [of "s + 1" "len - 1" buf 0] fixed_int_loop_total [of s len buf 0] assms(1) pos by auto
  then show ?thesis using assms(1) pos by (auto simp: scan_fixed_int_def)
qed

end
