(* ===== verification/OT_Http.thy ===== *)
theory OT_Http
  imports OT_Scrape OT_Scan
begin

text \<open>
  \<^verbatim>\<open>src/ot_http.c\<close>: the HTTP front end, in the default build (none of the \<^verbatim>\<open>WANT_\<close> options).
  A request is a byte buffer that the parsers decode in place, with a read index; the reply is assembled in the work buffer as the code does it.
  What the kernel accepts of a \<^verbatim>\<open>write\<close> is an argument of the definitions.
\<close>

section \<open>Tasks, errors\<close>

abbreviation (input) TASK_STATS :: int where "TASK_STATS \<equiv> 0x0100"
abbreviation (input) TASK_STATS_PEERS :: int where "TASK_STATS_PEERS \<equiv> 0x0102"

definition keywords_mode :: "(bytes \<times> int) list" where
  "keywords_mode =
   [(lit ''peer'', 0x102), (lit ''conn'', 1), (lit ''scrp'', 4), (lit ''udp4'', 3), (lit ''tcp4'', 2), (lit ''busy'', 9), (lit ''torr'', 0x101),
    (lit ''fscr'', 5), (lit ''s24s'', 0x103), (lit ''tpbs'', 6), (lit ''herr'', 7), (lit ''completed'', 0xc), (lit ''top100'', 0x105),
    (lit ''top10'', 0x104), (lit ''renew'', 0xa), (lit ''syncs'', 0xb), (lit ''version'', 8), (lit ''everything'', 0x106),
    (lit ''statedump'', 0x205), (lit ''fulllog'', 0x107), (lit ''woodpeckers'', 0x108)]"

definition keywords_format :: "(bytes \<times> int) list" where
  "keywords_format = [(lit ''bin'', 0x201), (lit ''ben'', 0x200), (lit ''url'', 0x204), (lit ''txt'', 0x202), (lit ''txtp'', 0x203)]"

definition keywords_announce :: "(bytes \<times> int) list" where
  "keywords_announce = [(lit ''port'', 1), (lit ''left'', 2), (lit ''event'', 3), (lit ''numwant'', 4), (lit ''compact'', 5), (lit ''compact6'', 5),
    (lit ''info_hash'', 6), (lit ''peer_id'', 9)]"

definition keywords_announce_event :: "(bytes \<times> int) list" where
  "keywords_announce_event = [(lit ''completed'', 1), (lit ''stopped'', 2)]"

datatype http_code =
    CODE_HTTPERROR_302 | CODE_HTTPERROR_400 | CODE_HTTPERROR_400_PARAM | CODE_HTTPERROR_400_COMPACT | CODE_HTTPERROR_402_NOTMODEST
  | CODE_HTTPERROR_402_PAYMENT_REQUIRED | CODE_HTTPERROR_403_IP | CODE_HTTPERROR_404 | CODE_HTTPERROR_500

fun error_code :: "http_code \<Rightarrow> string" where
  "error_code CODE_HTTPERROR_302 = ''302 Found''"
| "error_code CODE_HTTPERROR_400 = ''400 Invalid Request''"
| "error_code CODE_HTTPERROR_400_PARAM = ''400 Invalid Request''"
| "error_code CODE_HTTPERROR_400_COMPACT = ''400 Invalid Request''"
| "error_code CODE_HTTPERROR_402_NOTMODEST = ''402 Payment Required''"
| "error_code CODE_HTTPERROR_402_PAYMENT_REQUIRED = ''403 Not Modest''"
| "error_code CODE_HTTPERROR_403_IP = ''403 Access Denied''"
| "error_code CODE_HTTPERROR_404 = ''404 Not Found''"
| "error_code CODE_HTTPERROR_500 = ''500 Internal Server Error''"

fun code_number :: "http_code \<Rightarrow> nat" where
  "code_number CODE_HTTPERROR_302 = 0"
| "code_number CODE_HTTPERROR_400 = 1"
| "code_number CODE_HTTPERROR_400_PARAM = 2"
| "code_number CODE_HTTPERROR_400_COMPACT = 3"
| "code_number CODE_HTTPERROR_402_NOTMODEST = 4"
| "code_number CODE_HTTPERROR_402_PAYMENT_REQUIRED = 5"
| "code_number CODE_HTTPERROR_403_IP = 6"
| "code_number CODE_HTTPERROR_404 = 7"
| "code_number CODE_HTTPERROR_500 = 8"

definition crlf :: bytes where
  "crlf = [0x0d, 0x0a]"

text \<open>The packet \<^verbatim>\<open>http_issue_error\<close> prints; \<^verbatim>\<open>snprintf\<close> cuts it to the size of the buffer (only the redirect can be that long).\<close>

definition http_issue_error :: "bytes \<Rightarrow> http_code \<Rightarrow> bytes" where
  "http_issue_error redirecturl code =
    (let title = lit (error_code code) in
     if code = CODE_HTTPERROR_302
     then lit ''HTTP/1.0 302 Found'' @ crlf @ lit ''Content-Length: 0'' @ crlf @ lit ''Location: '' @ redirecturl @ crlf @ crlf
     else lit ''HTTP/1.0 '' @ title @ crlf @ lit ''Content-Type: text/html'' @ crlf @ lit ''Content-Length: '' @
          fmt_zd (of_nat (length title + 16 - 4)) @ crlf @ crlf @ lit ''<title>'' @ drop 4 title @ lit ''</title>'' @ [0x0a])"

section \<open>Connections\<close>

text \<open>
  \<^verbatim>\<open>struct http_data\<close> with the wishes of the connection towards the event loop. A connection that is closed is None.
\<close>

record http_data =
  hd_request :: bytes
  hd_batch :: "bytes list"
  hd_ip :: bytes
  hd_flag :: byte
  hd_want_read :: bool
  hd_want_write :: bool

abbreviation (input) STRUCT_HTTP_FLAG_WAITINGFORTASK :: byte where "STRUCT_HTTP_FLAG_WAITINGFORTASK \<equiv> 1"
abbreviation (input) STRUCT_HTTP_FLAG_GZIP :: byte where "STRUCT_HTTP_FLAG_GZIP \<equiv> 2"
abbreviation (input) STRUCT_HTTP_FLAG_BZIP2 :: byte where "STRUCT_HTTP_FLAG_BZIP2 \<equiv> 4"

text \<open>
  \<^verbatim>\<open>http_senddata\<close>: \<^verbatim>\<open>written\<close> is what \<^verbatim>\<open>write\<close> returns and \<^verbatim>\<open>ok\<close> the answer of \<^verbatim>\<open>malloc\<close>. \<^verbatim>\<open>req\<close> is \<^verbatim>\<open>ws->request\<close> with its
  \<^verbatim>\<open>request_size\<close> bytes. A connection that asks to be kept alive keeps what follows the header it just sent.
\<close>

definition http_senddata :: "bool \<Rightarrow> bytes \<Rightarrow> nat \<Rightarrow> bytes \<Rightarrow> int \<Rightarrow> bool \<Rightarrow> http_data \<Rightarrow> http_data option" where
  "http_senddata keep_alive req header_size reply written ok c =
    (let c = c\<lparr>hd_request := (if keep_alive \<and> header_size \<noteq> length req then drop header_size req else [])\<rparr> in
     if written < 0 \<or> written = int (length reply) \<and> \<not> keep_alive then None
     else if written < int (length reply) then
       if \<not> ok then None
       else
         let c = c\<lparr>hd_batch := hd_batch c @ [drop (nat written) reply]\<rparr>;
             c = (if \<not> keep_alive then c\<lparr>hd_want_read := False\<rparr> else c) in
         Some (c\<lparr>hd_want_write := True\<rparr>)
     else Some c)"

text \<open>
  \<^verbatim>\<open>http_sendiovecdata\<close>: the answer of a worker, as the list of its mapped buffers. Inr is the connection with its batch, Inl the error 500.
\<close>

definition iovec_header :: "byte \<Rightarrow> nat \<Rightarrow> bytes" where
  "iovec_header fl n =
    (let encoding = (if fl AND STRUCT_HTTP_FLAG_GZIP \<noteq> 0 then lit ''Content-Encoding: gzip'' @ crlf
                     else if fl AND STRUCT_HTTP_FLAG_BZIP2 \<noteq> 0 then lit ''Content-Encoding: bzip2'' @ crlf else []) in
     lit ''HTTP/1.0 200 OK'' @ crlf @ lit ''Content-Type: text/plain'' @ crlf @ encoding @ lit ''Content-Length: '' @ fmt_zd (of_nat n) @ crlf @ crlf)"

definition http_sendiovecdata :: "bool \<Rightarrow> bytes list \<Rightarrow> http_data option \<Rightarrow> (http_code \<times> http_data option) + http_data" where
  "http_sendiovecdata ok iovector cookie =
    (case cookie of
       None \<Rightarrow> Inl (CODE_HTTPERROR_500, None)
     | Some c \<Rightarrow>
         let size = sum_list (map length iovector);
             c = c\<lparr>hd_request := [], hd_flag := hd_flag c AND NOT STRUCT_HTTP_FLAG_WAITINGFORTASK\<rparr> in
         if iovector = [] then Inl (CODE_HTTPERROR_500, Some c)
         else if \<not> ok then Inl (CODE_HTTPERROR_500, Some c)
         else Inr (c\<lparr>hd_batch := iovec_header (hd_flag c) size # iovector, hd_want_read := False, hd_want_write := True\<rparr>))"

section \<open>Handlers\<close>

text \<open>What a handler does with \<^verbatim>\<open>ws->reply_size\<close>: the reply it wrote, an error already sent (by a handler, or by
  \<^verbatim>\<open>http_handle_request\<close> before any handler runs), or a task handed to a worker.\<close>

datatype http_result = Reply bytes | Failed http_code | Rejected http_code | Deferred int

text \<open>The hack around clients that send a blank before the question mark; None reads past the buffer.\<close>

function find_query :: "bytes \<Rightarrow> nat \<Rightarrow> nat option" where
  "find_query buf s =
    (if s < length buf then if buf ! s \<noteq> 0x3f \<and> buf ! s \<noteq> 0x0a then find_query buf (s + 1) else Some s
     else None)"
  by pat_completeness auto
termination
  by (relation "measure (\<lambda>(buf, s). length buf - s)") auto

declare find_query.simps [simp del]

definition query_start :: "bytes \<Rightarrow> nat \<Rightarrow> nat option option" where
  "query_start buf s =
    (if buf ! (s - 1) \<noteq> 0x3f then
       (case find_query buf s of
          None \<Rightarrow> None
        | Some s' \<Rightarrow> Some (if buf ! s' = 0x0a then None else Some (s' + 1)))
     else Some (Some s))"

text \<open>The scanner of the statistics request: mode and format.\<close>

partial_function (option) stats_scan :: "bytes \<Rightarrow> nat \<Rightarrow> int \<Rightarrow> int \<Rightarrow> (http_code + int \<times> int) option" where
  "stats_scan buf s mode format =
    (case scan_find_keywords [(lit ''mode'', 1), (lit ''format'', 2)] buf s SCAN_SEARCHPATH_PARAM of
       None \<Rightarrow> None
     | Some (k, buf, s) \<Rightarrow>
         if k = -2 then Some (Inr (mode, format))
         else if k = -1 then Some (Inl CODE_HTTPERROR_400_PARAM)
         else if k = -3 then
           (case scan_urlencoded_skipvalue buf s of None \<Rightarrow> None | Some s \<Rightarrow> stats_scan buf s mode format)
         else if k = 1 then
           (case scan_find_keywords keywords_mode buf s SCAN_SEARCHPATH_VALUE of
              None \<Rightarrow> None
            | Some (mode, buf, s) \<Rightarrow> if mode \<le> 0 then Some (Inl CODE_HTTPERROR_400_PARAM) else stats_scan buf s mode format)
         else if k = 2 then
           (case scan_find_keywords keywords_format buf s SCAN_SEARCHPATH_VALUE of
              None \<Rightarrow> None
            | Some (format, buf, s) \<Rightarrow> if format \<le> 0 then Some (Inl CODE_HTTPERROR_400_PARAM) else stats_scan buf s mode format)
         else stats_scan buf s mode format)"

text \<open>\<^verbatim>\<open>return_stats\<close> stands for \<^verbatim>\<open>return_stats_for_tracker\<close>, a mode to a text.\<close>

definition http_handle_stats :: "(int \<Rightarrow> bytes) \<Rightarrow> bytes \<Rightarrow> nat \<Rightarrow> http_result option" where
  "http_handle_stats return_stats buf s =
    map_option (case_sum Failed (\<lambda>(mode, format). if mode AND 0x0f00 = TASK_STATS then Deferred mode else Reply (return_stats mode)))
      (stats_scan buf s TASK_STATS_PEERS 0)"

text \<open>
  The scrape scanner decodes the hashes to the front of the request buffer, one behind the other; \<^verbatim>\<open>base\<close> is where the buffer of the request begins.
\<close>

partial_function (option) scrape_scan :: "bytes \<Rightarrow> nat \<Rightarrow> nat \<Rightarrow> (http_code + bytes \<times> nat) option" where
  "scrape_scan buf s numwant =
    (case scan_find_keywords [(lit ''info_hash'', 1)] buf s SCAN_SEARCHPATH_PARAM of
       None \<Rightarrow> None
     | Some (k, buf, s) \<Rightarrow>
         if k = -2 then Some (Inr (buf, numwant))
         else if k = -3 then
           (case scan_urlencoded_skipvalue buf s of None \<Rightarrow> None | Some s \<Rightarrow> scrape_scan buf s numwant)
         else if k = 1 then
           (case scan_urlencoded_query buf s (20 * numwant) SCAN_SEARCHPATH_VALUE of
              None \<Rightarrow> None
            | Some (len, buf, s) \<Rightarrow> if len \<noteq> 20 then Some (Inl CODE_HTTPERROR_400_PARAM) else scrape_scan buf s (numwant + 1))
         else Some (Inl CODE_HTTPERROR_400_PARAM))"

abbreviation (input) OT_MAXMULTISCRAPE_COUNT :: nat where "OT_MAXMULTISCRAPE_COUNT \<equiv> 64"

definition http_handle_scrape :: "int \<Rightarrow> bytes \<Rightarrow> nat \<Rightarrow> bucket_state \<Rightarrow> allocs \<Rightarrow> (http_result \<times> effect list \<times> bucket_state \<times> allocs) option" where
  "http_handle_scrape now buf s tr as =
    (case query_start buf s of
       None \<Rightarrow> None
     | Some None \<Rightarrow> Some (Failed CODE_HTTPERROR_400_PARAM, [], tr, as)
     | Some (Some s) \<Rightarrow>
         (case scrape_scan buf s 0 of
            None \<Rightarrow> None
          | Some (Inl code) \<Rightarrow> Some (Failed code, [], tr, as)
          | Some (Inr (buf, numwant)) \<Rightarrow>
              if numwant = 0 then Some (Failed CODE_HTTPERROR_400_PARAM, [], tr, as)
              else
                let numwant = (if numwant > OT_MAXMULTISCRAPE_COUNT then OT_MAXMULTISCRAPE_COUNT else numwant) in
                map_option (\<lambda>(reply, tr, as). (Reply reply, [stats_event EVENT_SCRAPE FLAG_TCP (length reply)], tr, as))
                  (return_tcp_scrape_for_torrent now (map (\<lambda>i. take 20 (drop (20 * i) buf)) [0..<numwant]) tr as)))"

text \<open>
  The announce scanner. The hash and the peer id stay pointers (indices) into the request buffer.
\<close>

record announce_params =
  a_port :: bytes
  a_flag :: byte
  a_numwant :: int
  a_hash :: "nat option"
  a_peer_id :: "nat option"

definition announce_init :: announce_params where
  "announce_init = \<lparr>a_port = [0, 0], a_flag = 0, a_numwant = 50, a_hash = None, a_peer_id = None\<rparr>"

text \<open>
  A numeric parameter, decoded in place and read with \<^verbatim>\<open>scan_fixed_int\<close>: the length of the value, the number of characters left over, the number.
\<close>

definition scan_number :: "bytes \<Rightarrow> nat \<Rightarrow> (int \<times> size_t \<times> int \<times> bytes \<times> nat) option" where
  "scan_number buf s =
    (case scan_urlencoded_query buf s s SCAN_SEARCHPATH_VALUE of
       None \<Rightarrow> None
     | Some (len, buf', s') \<Rightarrow>
         if len \<le> 0 then Some (len, 0, 0, buf', s')
         else map_option (\<lambda>(rest, tmp). (len, rest, tmp, buf', s')) (scan_fixed_int buf' s (of_int len)))"

text \<open>One matched parameter: Inl is the error that ends the request.\<close>

definition announce_param :: "int \<Rightarrow> bytes \<Rightarrow> nat \<Rightarrow> announce_params \<Rightarrow> (http_code + bytes \<times> nat \<times> announce_params) option" where
  "announce_param k buf s a =
    (if k = 1 then
       map_option (\<lambda>(len, rest, tmp, buf', s').
         if len \<le> 0 \<or> rest \<noteq> 0 \<or> tmp > 0xffff then Inl CODE_HTTPERROR_400_PARAM
         else Inr (buf', s', a\<lparr>a_port := be16 (of_int tmp)\<rparr>)) (scan_number buf s)
     else if k = 2 then
       map_option (\<lambda>(len, rest, tmp, buf', s').
         if len \<le> 0 then Inl CODE_HTTPERROR_400_PARAM
         else Inr (buf', s', if (if rest \<noteq> 0 then 0 else tmp) = 0 then a\<lparr>a_flag := a_flag a OR PEER_FLAG_SEEDING\<rparr> else a)) (scan_number buf s)
     else if k = 3 then
       map_option (\<lambda>(ev, buf', s').
         if ev = -1 then Inl CODE_HTTPERROR_400_PARAM
         else Inr (buf', s', if ev = 1 then a\<lparr>a_flag := a_flag a OR PEER_FLAG_COMPLETED\<rparr>
                             else if ev = 2 then a\<lparr>a_flag := a_flag a OR PEER_FLAG_STOPPED\<rparr> else a))
         (scan_find_keywords keywords_announce_event buf s SCAN_SEARCHPATH_VALUE)
     else if k = 4 then
       map_option (\<lambda>(len, rest, numwant, buf', s').
         if len \<le> 0 \<or> rest \<noteq> 0 then Inl CODE_HTTPERROR_400_PARAM
         else Inr (buf', s', a\<lparr>a_numwant := (if (if numwant < 0 then 50 else numwant) > 200 then 200 else if numwant < 0 then 50 else numwant)\<rparr>))
         (scan_number buf s)
     else if k = 5 then
       map_option (\<lambda>(len, rest, tmp, buf', s').
         if len \<le> 0 \<or> rest \<noteq> 0 then Inl CODE_HTTPERROR_400_PARAM
         else if tmp = 0 then Inl CODE_HTTPERROR_400_COMPACT
         else Inr (buf', s', a)) (scan_number buf s)
     else if k = 6 then
       if a_hash a \<noteq> None then Some (Inl CODE_HTTPERROR_400_PARAM)
       else map_option (\<lambda>(len, buf', s').
         if len \<noteq> 20 then Inl CODE_HTTPERROR_400_PARAM else Inr (buf', s', a\<lparr>a_hash := Some s\<rparr>))
         (scan_urlencoded_query buf s s SCAN_SEARCHPATH_VALUE)
     else if k = 9 then
       map_option (\<lambda>(len, buf', s').
         if len \<noteq> 20 then Inl CODE_HTTPERROR_400_PARAM else Inr (buf', s', a\<lparr>a_peer_id := Some s\<rparr>))
         (scan_urlencoded_query buf s s SCAN_SEARCHPATH_VALUE)
     else Some (Inr (buf, s, a)))"

partial_function (option) announce_scan :: "bytes \<Rightarrow> nat \<Rightarrow> announce_params \<Rightarrow> (http_code + bytes \<times> announce_params) option" where
  "announce_scan buf s a =
    (case scan_find_keywords keywords_announce buf s SCAN_SEARCHPATH_PARAM of
       None \<Rightarrow> None
     | Some (k, buf, s) \<Rightarrow>
         if k = -2 then Some (Inr (buf, a))
         else if k = -1 then Some (Inl CODE_HTTPERROR_400_PARAM)
         else if k = -3 then
           (case scan_urlencoded_skipvalue buf s of None \<Rightarrow> None | Some s \<Rightarrow> announce_scan buf s a)
         else
           (case announce_param k buf s a of
              None \<Rightarrow> None
            | Some (Inl code) \<Rightarrow> Some (Inl code)
            | Some (Inr (buf, s, a)) \<Rightarrow> announce_scan buf s a))"

definition http_handle_announce ::
  "tenv \<Rightarrow> byte \<Rightarrow> bytes \<Rightarrow> bytes \<Rightarrow> nat \<Rightarrow> bucket_state \<Rightarrow> allocs \<Rightarrow> (http_result \<times> effect list \<times> bucket_state \<times> allocs) option" where
  "http_handle_announce env stale_time remoteip buf s tr as =
    (case query_start buf s of
       None \<Rightarrow> None
     | Some None \<Rightarrow> Some (Failed CODE_HTTPERROR_400_PARAM, [], tr, as)
     | Some (Some s) \<Rightarrow>
         (case announce_scan buf s announce_init of
            None \<Rightarrow> None
          | Some (Inl code) \<Rightarrow> Some (Failed code, [], tr, as)
          | Some (Inr (buf, a)) \<Rightarrow>
              (case a_hash a of
                 None \<Rightarrow> Some (Reply (lit ''d14:failure reason80:Your client forgot to send your torrent'' @ [0x27] @
                           lit ''s info_hash. Please upgrade your client.e''), [], tr, as)
               | Some i \<Rightarrow>
                   let h = take 20 (drop i buf);
                       peer = \<lparr>peer_ip = take 4 (drop 12 remoteip), peer_port = a_port a, peer_flag = a_flag a, peer_time = stale_time\<rparr> in
                   if flag_set peer PEER_FLAG_STOPPED
                   then map_option (\<lambda>(reply, eff, tr). (Reply reply, eff @ [stats_event EVENT_ANNOUNCE FLAG_TCP (length reply)], tr, as))
                          (remove_peer_from_torrent env FLAG_TCP h peer [] tr)
                   else map_option (\<lambda>(reply, eff, tr, as). (Reply reply, eff @ [stats_event EVENT_ANNOUNCE FLAG_TCP (length reply)], tr, as))
                          (add_peer_to_torrent_and_return_peers env FLAG_TCP h peer (nat (a_numwant a)) tr as))))"

section \<open>The request\<close>

text \<open>
  The reply is assembled in the work buffer: the body starts at byte 80, the header is printed in front of it so that the NUL of
  \<^verbatim>\<open>sprintf\<close> falls on byte 79, which then becomes the last line feed of the header. The result is what is sent.
\<close>

definition http_success :: "bytes \<Rightarrow> bytes \<Rightarrow> bytes" where
  "http_success outbuf body =
    (let outbuf = take 80 outbuf @ body @ drop (80 + length body) outbuf;
         size = fmt_zd (of_nat (length body));
         reply_off = 17 - length size;
         header = lit ''HTTP/1.1 200 OK'' @ crlf @ lit ''Content-Type: text/plain'' @ crlf @ lit ''Content-Length: '' @ size @ crlf @ [0x0d];
         outbuf = take reply_off outbuf @ header @ [0] @ drop (reply_off + length header + 1) outbuf;
         outbuf = outbuf[79 := 0x0a] in
     take (length body + 1 + length header) (drop reply_off outbuf))"

record http_conf =
  redirecturl :: "bytes option"
  stats_path :: bytes

fun skip_slashes :: "bytes \<Rightarrow> nat" where
  "skip_slashes [] = 0"
| "skip_slashes (c # cs) = (if c = 0x2f then Suc (skip_slashes cs) else 0)"

text \<open>
  What \<^verbatim>\<open>http_handle_request\<close> sends for the result of a handler: the packet (None if the answer is left to a worker) and the value of
  \<^verbatim>\<open>ws->keep_alive\<close> while it is sent and afterwards. An error is sent before \<^verbatim>\<open>keep_alive\<close> is cleared: for it the flag is still what the request before left.
\<close>

definition http_finish :: "http_conf \<Rightarrow> bytes \<Rightarrow> bool \<Rightarrow> http_result \<Rightarrow> bytes option \<times> bool \<times> bool \<times> effect list" where
  "http_finish conf outbuf keep_alive res =
    (let error = (\<lambda>code. http_issue_error (case redirecturl conf of None \<Rightarrow> [] | Some url \<Rightarrow> url) code);
         failed = (\<lambda>code. [stats_event EVENT_FAILED FLAG_TCP (code_number code)]) in
     case res of
       Rejected code \<Rightarrow> (Some (error code), keep_alive, keep_alive, failed code)
     | Failed code \<Rightarrow> (Some (error code), keep_alive, False, failed code)
     | Deferred task \<Rightarrow> (None, False, False, [])
     | Reply body \<Rightarrow>
         if body = [] then (Some (error CODE_HTTPERROR_500), False, False, failed CODE_HTTPERROR_500)
         else (Some (http_success outbuf body), False, False, []))"

definition http_dispatch ::
  "http_conf \<Rightarrow> tenv \<Rightarrow> (int \<Rightarrow> bytes) \<Rightarrow> byte \<Rightarrow> bytes \<Rightarrow> bytes \<Rightarrow> bucket_state \<Rightarrow> allocs \<Rightarrow> (http_result \<times> effect list \<times> bucket_state \<times> allocs) option" where
  "http_dispatch conf env return_stats stale_time remoteip req tr as =
    (if take 5 req \<noteq> lit ''GET /'' then Some (Rejected CODE_HTTPERROR_400, [], tr, as)
     else
       let path = 4 + skip_slashes (drop 4 req) in
       case scan_urlencoded_query req path path SCAN_PATH of
         None \<Rightarrow> None
       | Some (len, buf, s) \<Rightarrow>
           if redirecturl conf \<noteq> None \<and> len = -2 then Some (Rejected CODE_HTTPERROR_302, [], tr, as)
           else if len \<le> 0 then Some (Rejected CODE_HTTPERROR_404, [], tr, as)
           else if buf ! path = 0x61 \<or> buf ! path = 0x3f then http_handle_announce env stale_time remoteip buf s tr as
           else if take 2 (drop path buf) = lit ''sc'' then http_handle_scrape (now_minutes env) buf s tr as
           else if len = int (length (stats_path conf)) \<and> take (nat len) (drop path buf) = stats_path conf
           then map_option (\<lambda>r. (r, [], tr, as)) (http_handle_stats return_stats buf s)
           else Some (Rejected CODE_HTTPERROR_404, [], tr, as))"

text \<open>
  The whole handler: \<^verbatim>\<open>written\<close> is what \<^verbatim>\<open>write\<close> returns for a packet, \<^verbatim>\<open>ok\<close> the answer of \<^verbatim>\<open>malloc\<close> for the part that is not written yet. The decoding in place
  stays in front of \<^verbatim>\<open>header_size\<close>, so what \<^verbatim>\<open>http_senddata\<close> keeps of the request is what was received.
\<close>

definition http_handle_request ::
  "http_conf \<Rightarrow> tenv \<Rightarrow> (int \<Rightarrow> bytes) \<Rightarrow> byte \<Rightarrow> (bytes \<Rightarrow> int) \<Rightarrow> bool \<Rightarrow> bytes \<Rightarrow> bytes \<Rightarrow> nat \<Rightarrow> bool \<Rightarrow> http_data \<Rightarrow> bucket_state \<Rightarrow> allocs
    \<Rightarrow> (http_result \<times> http_data option \<times> bool \<times> effect list \<times> bucket_state \<times> allocs) option" where
  "http_handle_request conf env return_stats stale_time written ok outbuf req header_size keep_alive c tr as =
    map_option (\<lambda>(res, eff, tr, as).
      case http_finish conf outbuf keep_alive res of (packet, ka_send, keep_alive, eff') \<Rightarrow>
        (res,
         case packet of None \<Rightarrow> Some c | Some p \<Rightarrow> http_senddata ka_send req header_size p (written p) ok c,
         keep_alive, eff @ eff', tr, as))
      (http_dispatch conf env return_stats stale_time (hd_ip c) req tr as)"

section \<open>Replies are well-formed\<close>

lemma fmt_zd_of_nat: "n < 2 ^ 63 \<Longrightarrow> fmt_zd (of_nat n) = dec_of_nat n"
proof -
  assume n: "n < 2 ^ 63"
  then have u: "unat (of_nat n :: size_t) = n" by (intro unat_size_t) simp
  then have "sint (of_nat n :: size_t) = int n" using sint_small [of "of_nat n"] n by simp
  then show ?thesis by (simp add: fmt_zd_def fmt_i_def)
qed

text \<open>
  The packets a client expects: a status line, the header fields, the length of the body, an empty line, the body.
\<close>

definition http_packet :: "bytes \<Rightarrow> bytes \<Rightarrow> bytes \<Rightarrow> bytes \<Rightarrow> bytes" where
  "http_packet status hs hs' body =
    lit ''HTTP/1.'' @ status @ crlf @ hs @ lit ''Content-Length: '' @ dec_of_nat (length body) @ crlf @ hs' @ crlf @ body"

definition error_page :: "bytes \<Rightarrow> http_code \<Rightarrow> bytes" where
  "error_page url code =
    (if code = CODE_HTTPERROR_302 then http_packet (lit ''0 302 Found'') [] (lit ''Location: '' @ url @ crlf) []
     else http_packet (lit (''0 '' @ error_code code)) (lit ''Content-Type: text/html'' @ crlf) []
       (lit (''<title>'' @ drop 4 (error_code code) @ ''</title>'') @ [0x0a]))"

fun response :: "bytes \<Rightarrow> http_result \<Rightarrow> bytes option" where
  "response url (Reply body) =
    Some (if body = [] then error_page url CODE_HTTPERROR_500
          else http_packet (lit ''1 200 OK'') (lit ''Content-Type: text/plain'' @ crlf) [] body)"
| "response url (Failed code) = Some (error_page url code)"
| "response url (Rejected code) = Some (error_page url code)"
| "response url (Deferred task) = None"

lemma http_success_eq:
  assumes "length outbuf = 8192" and "80 + length body \<le> 8192"
  shows "http_success outbuf body = http_packet (lit ''1 200 OK'') (lit ''Content-Type: text/plain'' @ crlf) [] body"
proof -
  let ?size = "dec_of_nat (length body)" and ?o1 = "take 80 outbuf @ body @ drop (80 + length body) outbuf"
  define h where "h = lit ''HTTP/1.1 200 OK'' @ crlf @ lit ''Content-Type: text/plain'' @ crlf @ lit ''Content-Length: '' @ ?size @ crlf @ [0x0d]"
  define d where "d = length ?size"
  have size: "fmt_zd (of_nat (length body)) = ?size" using assms by (intro fmt_zd_of_nat) simp
  have d: "d \<le> 4" unfolding d_def using assms by (intro length_dec_of_nat) simp_all
  have lh: "length h = 62 + d" by (simp add: crlf_def d_def h_def)
  define A where "A = take (17 - d) ?o1"
  have A: "length A = 17 - d" using assms by (simp add: A_def)
  have o1: "drop 80 ?o1 = body @ drop (80 + length body) outbuf" using assms by simp
  have "http_success outbuf body =
      take (length body + 1 + length h) (drop (17 - d) ((A @ h @ [0] @ drop (17 - d + length h + 1) ?o1)[79 := 0x0a]))"
    by (simp add: http_success_def size Let_def A_def d_def h_def)
  also have "17 - d + length h + 1 = 80" using lh d by simp
  also have "(A @ h @ [0] @ drop 80 ?o1)[79 := 0x0a] = A @ h @ [0x0a] @ body @ drop (80 + length body) outbuf"
  proof -
    have "length (A @ h) = 79" using A lh d by simp
    then show ?thesis
      unfolding o1 using list_update_length [of "A @ h" 0 "body @ drop (80 + length body) outbuf" "0x0a"] by simp
  qed
  also have "take (length body + 1 + length h) (drop (17 - d) (A @ h @ [0x0a] @ body @ drop (80 + length body) outbuf)) = h @ [0x0a] @ body"
    using A by simp
  finally show ?thesis by (simp add: http_packet_def crlf_def lit_def h_def)
qed

lemma http_issue_error_eq: "http_issue_error url code = error_page url code"
proof (cases "code = CODE_HTTPERROR_302")
  case True
  then show ?thesis by (simp add: http_issue_error_def error_page_def http_packet_def lit_def dec_of_nat.simps)
next
  case False
  have lb: "length (lit (''<title>'' @ drop 4 (error_code code) @ ''</title>'') @ [0x0a]) = length (error_code code) + 12"
    by (cases code) simp_all
  have fz: "fmt_zd (of_nat (length (error_code code) + 12)) = dec_of_nat (length (error_code code) + 12)"
    by (intro fmt_zd_of_nat) (cases code; simp)
  have l: "length (lit (error_code code)) + 16 - 4 = length (error_code code) + 12" by simp
  show ?thesis
    unfolding http_issue_error_def error_page_def http_packet_def lb Let_def l fz using False by (simp add: lit_def drop_map)
qed

lemma http_finish_response:
  assumes "length outbuf = 8192" and "\<forall>body. res = Reply body \<longrightarrow> length body \<le> 8112"
  shows "\<exists>eff. http_finish conf outbuf False res = (response (case redirecturl conf of None \<Rightarrow> [] | Some url \<Rightarrow> url) res, False, False, eff)"
  using assms http_success_eq [of outbuf] by (cases res) (auto simp: http_finish_def http_issue_error_eq Let_def)

end
