(* ===== verification/OT_HttpParse.thy ===== *)
theory OT_HttpParse
  imports OT_Http
begin

text \<open>
  What the request parsers of \<^verbatim>\<open>src/ot_http.c\<close> do: on every request with a line end they come to an end without leaving the buffer, the reply fits the
  work buffer and the tracker keeps its invariant; an announce written the way clients write it is understood.
\<close>

section \<open>Parsing ends\<close>

definition params_ok :: "nat \<Rightarrow> announce_params \<Rightarrow> bool" where
  "params_ok s a \<longleftrightarrow> length (a_port a) = 2 \<and> 0 \<le> a_numwant a \<and> a_numwant a \<le> 200 \<and> (\<forall>i. a_hash a = Some i \<longrightarrow> i + 20 \<le> s)"

definition param_post :: "bytes \<Rightarrow> nat \<Rightarrow> nat \<Rightarrow> bytes \<Rightarrow> nat \<Rightarrow> bool" where
  "param_post buf s e buf' s' \<longleftrightarrow> length buf' = length buf \<and> s \<le> s' \<and> s' \<le> e \<and> drop s' buf' = drop s' buf"

definition parse_ok :: "nat \<Rightarrow> bytes \<Rightarrow> nat \<Rightarrow> bool" where
  "parse_ok e buf s \<longleftrightarrow> s \<le> e \<and> e < length buf \<and> terminator (buf ! e) \<and> length buf < 2 ^ 63 \<and> no_nul_escape (drop s buf)"

lemma parse_ok_step:
  assumes "parse_ok e buf s" and "param_post buf s e buf' s'"
  shows "parse_ok e buf' s'"
proof -
  have e: "s' \<le> e" "e < length buf'" using assms by (auto simp: parse_ok_def param_post_def)
  have "drop s' buf' ! (e - s') = drop s' buf ! (e - s')" using assms(2) by (simp only: param_post_def)
  moreover have "e < length buf" using assms(1) by (simp add: parse_ok_def)
  ultimately have "buf' ! e = buf ! e" using e by simp
  moreover have "no_nul_escape (drop s' buf')"
    using no_nul_escape_drop [of "drop s buf" "s' - s"] assms by (simp add: parse_ok_def param_post_def)
  ultimately show ?thesis
    using assms(1) e assms(2)[unfolded param_post_def] by (simp add: parse_ok_def)
qed

lemma param_post_trans:
  assumes "param_post buf s e b s'" and "param_post b s' e b' s''"
  shows "param_post buf s e b' s''"
proof -
  have le: "s' \<le> s''" and eq: "drop s' b = drop s' buf" using assms by (auto simp: param_post_def)
  have "drop (s'' - s') (drop s' b) = drop (s'' - s') (drop s' buf)" by (simp only: eq)
  then have "drop s'' b = drop s'' buf" using le by simp
  then show ?thesis using assms by (auto simp: param_post_def)
qed

lemma scan_number_result:
  assumes "s \<le> e" and "e < length buf" and "terminator (buf ! e)" and "length buf < 2 ^ 63"
  shows "\<exists>len rest tmp buf' s'. scan_number buf s = Some (len, rest, tmp, buf', s') \<and> (0 < len \<longrightarrow> param_post buf s e buf' s')"
proof -
  obtain len buf' s' where q: "scan_urlencoded_query buf s s 4 = Some (len, buf', s')" "scan_post 4 buf s s e len buf' s'"
    using scan_urlencoded_query_result [of 4 s s e buf] assms by auto
  show ?thesis
  proof (cases "len \<le> 0")
    case True
    then show ?thesis using q(1) by (simp add: scan_number_def)
  next
    case False
    have len: "nat len \<le> s' - s" "s' \<le> e" "length buf' = length buf" using q(2) False by (auto simp: scan_post_def)
    then have "nat len < 2 ^ 63" using assms(2,4) by linarith
    then have u: "unat (of_int len :: size_t) = nat len" using unat_size_t [of "nat len"] False by simp
    then have "s + unat (of_int len :: size_t) \<le> length buf'" "0 < (of_int len :: size_t)"
      using len assms(1,2) False q(2) by (auto simp: word_less_nat_alt scan_post_def)
    then obtain r where "scan_fixed_int buf' s (of_int len) = Some r" using scan_fixed_int_total by blast
    then show ?thesis using q False by (cases r) (auto simp: scan_number_def scan_post_def param_post_def)
  qed
qed

lemma announce_param_result:
  assumes "s \<le> e" and "e < length buf" and "terminator (buf ! e)" and "length buf < 2 ^ 63" and "no_nul_escape (drop s buf)"
    and "params_ok s a"
  shows "\<exists>x. announce_param k buf s a = Some x \<and>
    (\<forall>buf' s' a'. x = Inr (buf', s', a') \<longrightarrow> param_post buf s e buf' s' \<and> params_ok s' a')"
proof -
  have mono: "params_ok s' a" if "s \<le> s'" for s' using assms(6) that by (auto simp: params_ok_def)
  obtain len rest tmp buf1 s1 where n: "scan_number buf s = Some (len, rest, tmp, buf1, s1)" "0 < len \<longrightarrow> param_post buf s e buf1 s1"
    using scan_number_result [OF assms(1-4)] by blast
  obtain ev buf2 s2 where f: "scan_find_keywords keywords_announce_event buf s 4 = Some (ev, buf2, s2)"
      "find_post keywords_announce_event buf s e ev buf2 s2"
    using scan_find_keywords_result [of 4 s e buf keywords_announce_event] assms by (auto simp: keywords_announce_event_def)
  obtain r buf3 s3 where q: "scan_urlencoded_query buf s s 4 = Some (r, buf3, s3)" "scan_post 4 buf s s e r buf3 s3"
    using scan_urlencoded_query_result [of 4 s s e buf] assms by auto
  have p1: "0 < len \<Longrightarrow> param_post buf s e buf1 s1 \<and> s \<le> s1" using n(2) by (auto simp: param_post_def)
  have p2: "ev \<noteq> -1 \<Longrightarrow> param_post buf s e buf2 s2 \<and> s \<le> s2" using f(2) by (auto simp: find_post_def param_post_def)
  have p3: "r = 20 \<Longrightarrow> param_post buf s e buf3 s3 \<and> s \<le> s3 \<and> s + 20 \<le> s3" using q(2) by (auto simp: scan_post_def param_post_def)
  consider "k = 1" | "k = 2" | "k = 3" | "k = 4" | "k = 5" | "k = 6" | "k = 9" | "k \<notin> {1, 2, 3, 4, 5, 6, 9}" by blast
  then show ?thesis
  proof cases
    case 1
    then show ?thesis using n p1 mono by (auto simp: announce_param_def params_ok_def)
  next
    case 2
    then show ?thesis using n p1 mono by (auto simp: announce_param_def params_ok_def)
  next
    case 3
    then show ?thesis using f p2 mono by (auto simp: announce_param_def params_ok_def)
  next
    case 4
    then show ?thesis using n p1 mono by (auto simp: announce_param_def params_ok_def)
  next
    case 5
    then show ?thesis using n p1 mono by (auto simp: announce_param_def)
  next
    case 6
    then show ?thesis using q p3 mono by (auto simp: announce_param_def params_ok_def)
  next
    case 7
    then show ?thesis using q p3 mono by (auto simp: announce_param_def params_ok_def)
  next
    case 8
    then show ?thesis using assms by (simp add: announce_param_def param_post_def)
  qed
qed

lemma find_keywords_step:
  assumes "parse_ok e buf s" and "8 AND flags = 0" and "\<forall>k \<in> snd ` set ks. 0 < k"
  obtains (fin) b s' where "scan_find_keywords ks buf s flags = Some (-2, b, s')" "param_post buf s e b s'"
  | (err) b s' where "scan_find_keywords ks buf s flags = Some (-1, b, s')"
  | (skip) b s' s'' where "scan_find_keywords ks buf s flags = Some (-3, b, s')" "scan_urlencoded_skipvalue b s' = Some s''"
      "param_post buf s e b s'" "s < s''" "parse_ok e b s''" "param_post buf s e b s''"
  | (key) k b s' where "scan_find_keywords ks buf s flags = Some (k, b, s')" "k \<in> snd ` set ks" "s < s'" "parse_ok e b s'" "param_post buf s e b s'"
proof -
  have s: "s \<le> e" "e < length buf" "terminator (buf ! e)" "no_nul_escape (drop s buf)" using assms(1) by (auto simp: parse_ok_def)
  obtain k b s' where f: "scan_find_keywords ks buf s flags = Some (k, b, s')" "find_post ks buf s e k b s'"
    using scan_find_keywords_result [OF assms(2) s assms(3)] by blast
  have post: "param_post buf s e b s'" if "k \<noteq> -1" using f(2) that by (auto simp: find_post_def param_post_def)
  consider "k = -2" | "k = -1" | "k = -3" | "k \<in> snd ` set ks" using f(2) by (auto simp: find_post_def)
  then show thesis
  proof cases
    case 1
    then show thesis using fin f post by simp
  next
    case 2
    then show thesis using err f by simp
  next
    case 3
    note ok = parse_ok_step [OF assms(1) post]
    obtain s'' where s'': "scan_urlencoded_skipvalue b s' = Some s''" "s' \<le> s''" "s'' \<le> e" "b ! s' = 0x26 \<longrightarrow> s' < s''"
      using scan_urlencoded_skipvalue_result [of s' e b] ok 3 by (auto simp: parse_ok_def)
    have "s < s''"
    proof (cases "s < s'")
      case True
      then show ?thesis using s''(2) by simp
    next
      case False
      then have "s' = s" "buf ! s = 0x26" using f(2) 3 by (auto simp: find_post_def)
      moreover from this have "b ! s = buf ! s"
        using f(2) 3 s(1,2) by (auto simp: find_post_def) (metis Cons_nth_drop_Suc le_less_trans list.inject)
      ultimately show ?thesis using s''(4) by simp
    qed
    moreover have p2: "param_post b s' e b s''" using s'' by (simp add: param_post_def)
    moreover have "param_post buf s e b s''" using param_post_trans [OF post p2] 3 by simp
    ultimately show thesis using skip f 3 s'' post parse_ok_step [OF ok p2] by simp
  next
    case 4
    then have "k \<noteq> -1" "k \<noteq> -2" "k \<noteq> -3" using assms(3) by auto
    then show thesis using key [OF f(1) 4] f(2) parse_ok_step [OF assms(1) post] post by (auto simp: find_post_def)
  qed
qed

lemma announce_scan_result:
  assumes "parse_ok e buf s" and "params_ok s a"
  shows "\<exists>x. announce_scan buf s a = Some x \<and> (\<forall>buf' a'. x = Inr (buf', a') \<longrightarrow> length buf' = length buf \<and> params_ok e a')"
  using assms
proof (induction "e - s" arbitrary: buf s a rule: less_induct)
  case less
  have pos: "\<forall>k \<in> snd ` set keywords_announce. 0 < k" by (auto simp: keywords_announce_def)
  have le: "params_ok e a" using less.prems by (auto simp: params_ok_def parse_ok_def)
  show ?case
  proof (rule find_keywords_step [OF less.prems(1), of 2 keywords_announce], simp, rule pos, goal_cases)
    case (1 b s')
    then show ?case using le by (subst announce_scan.simps) (simp add: param_post_def)
  next
    case (2 b s')
    then show ?case by (subst announce_scan.simps) simp
  next
    case (3 b s' s'')
    have "params_ok s'' a" using less.prems(2) 3(4) by (auto simp: params_ok_def)
    then show ?case using 3 less.hyps [of s'' b a] less.prems(1)
      by (subst announce_scan.simps) (auto simp: param_post_def parse_ok_def)
  next
    case (4 k b s')
    have a: "params_ok s' a" using less.prems(2) 4(3) by (auto simp: params_ok_def)
    obtain x where x: "announce_param k b s' a = Some x"
      "\<forall>buf' s'' a'. x = Inr (buf', s'', a') \<longrightarrow> param_post b s' e buf' s'' \<and> params_ok s'' a'"
      using announce_param_result [OF _ _ _ _ _ a, of e b k] 4(4) by (auto simp: parse_ok_def)
    have k: "k \<noteq> -1" "k \<noteq> -2" "k \<noteq> -3" using 4(2) pos by auto
    show ?case
    proof (cases x)
      case (Inl c)
      then show ?thesis using 4(1) x(1) k by (subst announce_scan.simps) simp
    next
      case (Inr y)
      obtain b' s'' a' where y: "y = (b', s'', a')" by (metis prod_cases3)
      have p: "param_post b s' e b' s''" "params_ok s'' a'" using x(2) Inr y by auto
      have "s' \<le> s''" "s'' \<le> e" using p(1) by (auto simp: param_post_def)
      then have "e - s'' < e - s" using 4(3) by simp
      from less.hyps [OF this parse_ok_step [OF 4(4) p(1)] p(2)]
      show ?thesis using 4(1) x(1) k Inr y param_post_trans [OF 4(5) p(1)]
        by (subst announce_scan.simps) (auto simp: param_post_def)
    qed
  qed
qed

lemma stats_scan_result:
  assumes "parse_ok e buf s"
  shows "\<exists>x. stats_scan buf s mode format = Some x"
  using assms
proof (induction "e - s" arbitrary: buf s mode format rule: less_induct)
  case less
  let ?ks = "[(lit ''mode'', 1), (lit ''format'', 2)] :: (bytes \<times> int) list"
  have find_value: "\<exists>k b' s''. scan_find_keywords ks b s' 4 = Some (k, b', s'') \<and> (0 < k \<longrightarrow> s' \<le> s'' \<and> s'' \<le> e \<and> parse_ok e b' s'')"
    if "parse_ok e b s'" "\<forall>k \<in> snd ` set ks. 0 < k" for ks b s'
    by (rule find_keywords_step [OF that(1) _ that(2), of 4]) (auto simp: param_post_def parse_ok_def)
  show ?case
  proof (rule find_keywords_step [OF less.prems, of 2 ?ks], simp, simp, goal_cases)
    case (1 b s')
    then show ?case by (subst stats_scan.simps) simp
  next
    case (2 b s')
    then show ?case by (subst stats_scan.simps) simp
  next
    case (3 b s' s'')
    then show ?case using less.hyps [of s'' b] less.prems by (subst stats_scan.simps) (auto simp: parse_ok_def)
  next
    case (4 k b s')
    have pos: "\<forall>k \<in> snd ` set keywords_mode. 0 < k" "\<forall>k \<in> snd ` set keywords_format. 0 < k"
      by (auto simp: keywords_mode_def keywords_format_def)
    obtain k1 b1 s1 where v1: "scan_find_keywords keywords_mode b s' 4 = Some (k1, b1, s1)" "0 < k1 \<longrightarrow> s' \<le> s1 \<and> s1 \<le> e \<and> parse_ok e b1 s1"
      using find_value [OF 4(4) pos(1)] by blast
    obtain k2 b2 s2 where v2: "scan_find_keywords keywords_format b s' 4 = Some (k2, b2, s2)" "0 < k2 \<longrightarrow> s' \<le> s2 \<and> s2 \<le> e \<and> parse_ok e b2 s2"
      using find_value [OF 4(4) pos(2)] by blast
    have k: "k = 1 \<or> k = 2" using 4(2) by auto
    have "\<exists>x. stats_scan b1 s1 k1 format = Some x" if "0 < k1" using v1(2) that less.hyps [of s1 b1] 4(3) by auto
    moreover have "\<exists>x. stats_scan b2 s2 mode k2 = Some x" if "0 < k2" using v2(2) that less.hyps [of s2 b2] 4(3) by auto
    ultimately show ?case using 4(1) v1(1) v2(1) k by (subst stats_scan.simps) auto
  qed
qed

lemma scrape_scan_result:
  assumes "parse_ok e buf s" and "20 * n \<le> s"
  shows "\<exists>x. scrape_scan buf s n = Some x \<and> (\<forall>buf' n'. x = Inr (buf', n') \<longrightarrow> length buf' = length buf \<and> 20 * n' \<le> e)"
  using assms
proof (induction "e - s" arbitrary: buf s n rule: less_induct)
  case less
  let ?ks = "[(lit ''info_hash'', 1)] :: (bytes \<times> int) list"
  show ?case
  proof (rule find_keywords_step [OF less.prems(1), of 2 ?ks], simp, simp, goal_cases)
    case (1 b s')
    then show ?case using less.prems by (subst scrape_scan.simps) (auto simp: param_post_def parse_ok_def)
  next
    case (2 b s')
    then show ?case by (subst scrape_scan.simps) simp
  next
    case (3 b s' s'')
    then show ?case using less.hyps [of s'' b n] less.prems
      by (subst scrape_scan.simps) (auto simp: parse_ok_def param_post_def)
  next
    case (4 k b s')
    obtain r b' s'' where q: "scan_urlencoded_query b s' (20 * n) 4 = Some (r, b', s'')" "scan_post 4 b s' (20 * n) e r b' s''"
      using scan_urlencoded_query_result [of 4 "20 * n" s' e b] 4(3,4) less.prems(2) by (auto simp: parse_ok_def)
    have k: "k = 1" using 4(2) by simp
    show ?case
    proof (cases "r = 20")
      case False
      then show ?thesis using 4(1) k q(1) by (subst scrape_scan.simps) simp
    next
      case True
      then have p: "param_post b s' e b' s''" and "s' + 20 \<le> s''" using q(2) by (auto simp: scan_post_def param_post_def)
      then have "20 * (n + 1) \<le> s''" "e - s'' < e - s" using less.prems(2) 4(3) by (auto simp: param_post_def)
      from less.hyps [OF this(2) parse_ok_step [OF 4(4) p] this(1)]
      show ?thesis using 4(1,5) k q(1) True p by (subst scrape_scan.simps) (auto simp: param_post_def)
    qed
  qed
qed

lemma find_query_result:
  assumes "s \<le> e" and "e < length buf" and "buf ! e = 0x0a"
  shows "\<exists>s'. find_query buf s = Some s' \<and> s \<le> s' \<and> s' \<le> e \<and> (buf ! s' = 0x3f \<or> buf ! s' = 0x0a)"
  using assms(1)
proof (induction "e - s" arbitrary: s)
  case 0
  then show ?case using assms by (subst find_query.simps) simp
next
  case (Suc k)
  show ?case
  proof (cases "buf ! s \<noteq> 0x3f \<and> buf ! s \<noteq> 0x0a")
    case True
    have "k = e - (s + 1)" "s + 1 \<le> e" using Suc.hyps(2) by auto
    from Suc.hyps(1) [OF this] show ?thesis using True Suc.prems assms(2) by (subst find_query.simps) auto
  next
    case False
    then show ?thesis using Suc.prems assms(2) by (subst find_query.simps) auto
  qed
qed

lemma query_start_result:
  assumes "s \<le> e" and "e < length buf" and "buf ! e = 0x0a"
  shows "\<exists>x. query_start buf s = Some x \<and> (\<forall>s'. x = Some s' \<longrightarrow> s \<le> s' \<and> s' \<le> e)"
proof -
  obtain s' where s': "find_query buf s = Some s'" "s \<le> s'" "s' \<le> e" "buf ! s' = 0x3f \<or> buf ! s' = 0x0a"
    using find_query_result [OF assms] by blast
  moreover have "buf ! s' = 0x3f \<Longrightarrow> s' < e" using s'(3) assms(3) by (cases "s' = e") auto
  ultimately show ?thesis using assms(1) by (auto simp: query_start_def)
qed

section \<open>Every request is answered\<close>

lemma tcp_scrape_loop_ends:
  assumes "tracker_wf now s" "bucket_locklist s = []" "\<forall>h \<in> set hs. length h = 20"
  shows "\<exists>out s' as'. tcp_scrape_loop now hs r s as = Some (r @ out, s', as') \<and> length out \<le> 117 * length hs \<and>
    tracker_wf now s' \<and> bucket_locklist s' = []"
  using assms
proof (induction hs arbitrary: r s as)
  case (Cons h hs)
  obtain s1 where "mutex_bucket_lock_by_hash h s = Some s1" using mutex_lock_free [OF Cons.prems(2)] by blast
  then obtain t s2 as2 where r: "scrape_torrent now h s as = Some (t, s2, as2)" "tracker_wf now s2" "bucket_locklist s2 = []" "torrent_lookup s2 h = t"
    using scrape_torrent_result [OF Cons.prems(1), of h s1 as] Cons.prems(2) by auto
  define e where "e = (case t of None \<Rightarrow> [] | Some t \<Rightarrow> scrape_entry h (peer_list t))"
  have "length e \<le> 117"
    using length_scrape_entry torrent_lookup_ok [OF r(2)] r(4) Cons.prems(3) by (auto simp: e_def torrent_ok_def split: option.split)
  moreover obtain out s' as' where "tcp_scrape_loop now hs (r @ e) s2 as2 = Some ((r @ e) @ out, s', as')" "length out \<le> 117 * length hs"
      "tracker_wf now s'" "bucket_locklist s' = []"
    using Cons.IH [OF r(2,3), of "r @ e" as2] Cons.prems(3) by auto
  moreover have "tcp_scrape_loop now (h # hs) r s as = tcp_scrape_loop now hs (r @ e) s2 as2"
    using r(1) by (simp add: e_def split: option.split)
  ultimately show ?case by (intro exI [of _ "e @ out"]) auto
qed simp

text \<open>What the handlers promise: a result that fits the work buffer behind the header, the invariant of the tracker, no bucket left locked.\<close>

definition handled :: "int \<Rightarrow> (http_result \<times> effect list \<times> bucket_state \<times> allocs) option \<Rightarrow> bool" where
  "handled now x \<longleftrightarrow> (\<exists>res eff tr as. x = Some (res, eff, tr, as) \<and> tracker_wf now tr \<and> bucket_locklist tr = [] \<and>
    (\<forall>body. res = Reply body \<longrightarrow> length body \<le> 8112))"

lemma handled_Failed [simp]:
  "handled now (Some (Failed c, eff, tr, as)) \<longleftrightarrow> tracker_wf now tr \<and> bucket_locklist tr = []"
  "handled now (Some (Rejected c, eff, tr, as)) \<longleftrightarrow> tracker_wf now tr \<and> bucket_locklist tr = []"
  by (simp_all add: handled_def)

lemma parse_ok_after_query:
  assumes "parse_ok e buf s" "buf ! e = 0x0a" "query_start buf s = Some (Some s')"
  shows "parse_ok e buf s'"
proof -
  have "s \<le> s'" "s' \<le> e" using query_start_result [of s e buf] assms by (auto simp: parse_ok_def)
  then show ?thesis using assms(1) no_nul_escape_drop [of "drop s buf" "s' - s"] by (simp add: parse_ok_def)
qed

lemma http_handle_scrape_ends:
  assumes "tracker_wf now tr" "bucket_locklist tr = []" "parse_ok e buf s" "buf ! e = 0x0a"
  shows "handled now (http_handle_scrape now buf s tr as)"
proof -
  obtain x where x: "query_start buf s = Some x" using query_start_result [of s e buf] assms(3,4) by (auto simp: parse_ok_def)
  show ?thesis
  proof (cases x)
    case None
    then show ?thesis using x assms(1,2) by (simp add: http_handle_scrape_def)
  next
    case (Some s')
    then obtain y where y: "scrape_scan buf s' 0 = Some y" "\<forall>buf' n'. y = Inr (buf', n') \<longrightarrow> length buf' = length buf \<and> 20 * n' \<le> e"
      using scrape_scan_result [of e buf s' 0] parse_ok_after_query [OF assms(3,4)] x by auto
    show ?thesis
    proof (cases y)
      case (Inl c)
      then show ?thesis using x Some y assms(1,2) by (simp add: http_handle_scrape_def)
    next
      case (Inr z)
      obtain b n where z: "z = (b, n)" by fastforce
      define m hs where "m = (if n > 64 then 64 else n)" and "hs = map (\<lambda>i. take 20 (drop (20 * i) b)) [0..<m]"
      have b: "length b = length buf" "20 * n \<le> e" "e < length buf" using y(2) Inr z assms(3) by (auto simp: parse_ok_def)
      have "length hs \<le> 64" by (simp add: hs_def m_def)
      moreover have "length h = 20" if h: "h \<in> set hs" for h
      proof -
        obtain i where i: "i < m" "h = take 20 (drop (20 * i) b)" using h by (auto simp: hs_def)
        then have "20 * i + 20 \<le> length b" using b by (auto simp: m_def split: if_splits)
        then show ?thesis by (simp add: i(2))
      qed
      moreover obtain out tr' as' where "tcp_scrape_loop now hs (lit ''d5:filesd'') tr as = Some (lit ''d5:filesd'' @ out, tr', as')"
          "length out \<le> 117 * length hs" "tracker_wf now tr'" "bucket_locklist tr' = []"
        using tcp_scrape_loop_ends [OF assms(1,2), of hs "lit ''d5:filesd''" as] calculation(2) by blast
      ultimately show ?thesis using x Some y(1) Inr z assms(1,2)
        by (simp add: http_handle_scrape_def return_tcp_scrape_for_torrent_def handled_def Let_def flip: m_def hs_def)
    qed
  qed
qed

lemma http_handle_announce_ends:
  assumes "tracker_wf (now_minutes env) tr" "bucket_locklist tr = []" "small_torrents tr" "parse_ok e buf s" "buf ! e = 0x0a" "length ip = 16"
  shows "handled (now_minutes env) (http_handle_announce env stale_time ip buf s tr as)"
proof -
  obtain x where x: "query_start buf s = Some x" using query_start_result [of s e buf] assms(4,5) by (auto simp: parse_ok_def)
  show ?thesis
  proof (cases x)
    case None
    then show ?thesis using x assms(1,2) by (simp add: http_handle_announce_def)
  next
    case (Some s')
    have "params_ok s' announce_init" by (simp add: params_ok_def announce_init_def)
    then obtain y where y: "announce_scan buf s' announce_init = Some y"
        "\<forall>buf' a. y = Inr (buf', a) \<longrightarrow> length buf' = length buf \<and> params_ok e a"
      using announce_scan_result parse_ok_after_query [OF assms(4,5)] x Some by blast
    show ?thesis
    proof (cases y)
      case (Inl c)
      then show ?thesis using x Some y assms(1,2) by (simp add: http_handle_announce_def)
    next
      case (Inr z)
      obtain b a where z: "z = (b, a)" by fastforce
      have b: "length b = length buf" "params_ok e a" "e < length buf" using y(2) Inr z assms(4) by (auto simp: parse_ok_def)
      show ?thesis
      proof (cases "a_hash a")
        case None
        then show ?thesis using x Some y Inr z assms(1,2) by (simp add: http_handle_announce_def handled_def)
      next
        case h: (Some i)
        define hash p where "hash = take 20 (drop i b)"
          and "p = \<lparr>peer_ip = take 4 (drop 12 ip), peer_port = a_port a, peer_flag = a_flag a, peer_time = stale_time\<rparr>"
        have "i + 20 \<le> e" "length (a_port a) = 2" "nat (a_numwant a) \<le> 200" using b(2) h by (auto simp: params_ok_def)
        then have wf: "length hash = 20" "peer_wf p" using b assms(6) by (auto simp: hash_def p_def peer_wf_def)
        note unf = x Some y(1) Inr z h
        show ?thesis
        proof (cases "flag_set p PEER_FLAG_STOPPED")
          case True
          obtain pl eff tr' where "remove_peer_from_torrent env FLAG_TCP hash p [] tr = Some (remove_reply env FLAG_TCP pl [], eff, tr')"
              "pl_wf pl" "tracker_wf (now_minutes env) tr'" "bucket_locklist tr' = []"
            using remove_peer_free [OF assms(1,2)] by blast
          moreover from this(2) have "length (remove_reply env FLAG_TCP pl []) \<le> 140"
            using length_remove_head_tcp by (simp add: remove_reply_def)
          ultimately show ?thesis using unf True by (simp add: http_handle_announce_def handled_def Let_def flip: hash_def p_def)
        next
          case False
          then show ?thesis
            using unf add_peer_free [OF assms(1) wf assms(2,3), of FLAG_TCP "nat (a_numwant a)" as] \<open>nat (a_numwant a) \<le> 200\<close>
            by (auto simp: http_handle_announce_def handled_def Let_def simp flip: hash_def p_def)
        qed
      qed
    qed
  qed
qed

lemma http_handle_stats_ends:
  assumes "parse_ok e buf s" "\<forall>mode. length (return_stats mode) \<le> 8112"
  shows "\<exists>res. http_handle_stats return_stats buf s = Some res \<and> (\<forall>body. res = Reply body \<longrightarrow> length body \<le> 8112)"
proof -
  obtain x where "stats_scan buf s TASK_STATS_PEERS 0 = Some x" using stats_scan_result [OF assms(1)] by blast
  then show ?thesis using assms(2) by (cases x) (auto simp: http_handle_stats_def split: if_splits)
qed

lemma skip_slashes_le: "i < length xs \<Longrightarrow> xs ! i \<noteq> 0x2f \<Longrightarrow> skip_slashes xs \<le> i"
proof (induction xs arbitrary: i)
  case (Cons x xs)
  then show ?case by (cases i) auto
qed simp

lemma http_dispatch_ends:
  assumes "tracker_wf (now_minutes env) tr" "bucket_locklist tr = []" "small_torrents tr" "length ip = 16"
    and "0x0a \<in> set req" "no_nul_escape req" "length req < 2 ^ 63" "\<forall>mode. length (return_stats mode) \<le> 8112"
  shows "handled (now_minutes env) (http_dispatch conf env return_stats stale_time ip req tr as)"
proof (cases "take 5 req = lit ''GET /''")
  case False
  then show ?thesis using assms(1,2) by (simp add: http_dispatch_def)
next
  case True
  define path where "path = 4 + skip_slashes (drop 4 req)"
  obtain e where e: "e < length req" "req ! e = 0x0a" using assms(5) by (auto simp: in_set_conv_nth)
  have "\<not> e < 5"
  proof
    assume "e < 5"
    then have "0x0a \<in> set (take 5 req)" using e by (auto simp: in_set_conv_nth intro!: exI [of _ e])
    then show False unfolding True by (simp add: lit_def)
  qed
  have "path \<le> e" using skip_slashes_le [of "e - 4" "drop 4 req"] e \<open>\<not> e < 5\<close> by (simp add: path_def) arith
  have tm: "terminator (req ! e)" using e by (simp add: terminator_def)
  obtain len buf s where q: "scan_urlencoded_query req path path 1 = Some (len, buf, s)" "scan_post 1 req path path e len buf s"
    using scan_urlencoded_query_result [of 1 path path e req] \<open>path \<le> e\<close> e(1) tm by auto
  show ?thesis
  proof (cases "len \<le> 0")
    case True
    then show ?thesis using q assms(1,2) by (simp add: http_dispatch_def Let_def flip: path_def)
  next
    case False
    have p: "param_post req path e buf s" using q(2) False by (simp add: scan_post_def param_post_def)
    have "parse_ok e req path"
      using \<open>path \<le> e\<close> e(1) tm assms(6,7) no_nul_escape_drop [of req path] by (simp add: parse_ok_def)
    from parse_ok_step [OF this p] have ok: "parse_ok e buf s" .
    have "drop s buf ! (e - s) = drop s req ! (e - s)" using p by (simp only: param_post_def)
    then have nl: "buf ! e = 0x0a" using ok e by (simp add: parse_ok_def)
    obtain res where "http_handle_stats return_stats buf s = Some res" "\<forall>body. res = Reply body \<longrightarrow> length body \<le> 8112"
      using http_handle_stats_ends [OF ok assms(8)] by blast
    then have "handled (now_minutes env) (map_option (\<lambda>r. (r, [], tr, as)) (http_handle_stats return_stats buf s))"
      using assms(1,2) by (simp add: handled_def)
    then show ?thesis
      using q(1) False \<open>take 5 req = lit ''GET /''\<close> assms(1,2) http_handle_announce_ends [OF assms(1-3) ok nl assms(4)] http_handle_scrape_ends [OF assms(1,2) ok nl]
      by (simp add: http_dispatch_def Let_def flip: path_def)
  qed
qed

lemma length_http_packet:
  "length body < 10000 \<Longrightarrow> length (http_packet status hs hs' body) \<le> length status + length hs + length hs' + length body + 33"
  using length_dec_of_nat [of 4 "length body"] by (simp add: http_packet_def crlf_def)

lemma length_response:
  assumes "response url res = Some p" "length url \<le> 8000" "\<forall>body. res = Reply body \<longrightarrow> length body \<le> 8112"
  shows "length p \<le> 8192"
proof -
  let ?text = "lit ''Content-Type: text/plain'' @ crlf"
  have "length (error_page url code) \<le> 8192" for code
  proof -
    define page title html where "page = lit (''<title>'' @ drop 4 (error_code code) @ ''</title>'') @ [0x0a]"
      and "title = lit (''0 '' @ error_code code)" and "html = lit ''Content-Type: text/html'' @ crlf"
    have "length page \<le> 41" "length title \<le> 27" "length html = 25"
      unfolding page_def title_def html_def by (cases code; simp add: crlf_def)+
    then have "length (http_packet title html [] page) \<le> 8192"
      using length_http_packet [of page title html "[]"] by simp
    moreover have "length (http_packet (lit ''0 302 Found'') [] (lit ''Location: '' @ url @ crlf) []) \<le> 8192"
      using assms(2) length_http_packet [of "[]" "lit ''0 302 Found''" "[]" "lit ''Location: '' @ url @ crlf"] by (simp add: crlf_def)
    ultimately show ?thesis unfolding error_page_def page_def title_def html_def by (cases "code = CODE_HTTPERROR_302") (simp_all only: if_True if_False refl)
  qed
  moreover have "length (http_packet (lit ''1 200 OK'') ?text [] body) \<le> 8192" if "length body \<le> 8112" for body
    using length_http_packet [of body "lit ''1 200 OK''" ?text "[]"] that by (simp add: crlf_def)
  ultimately show ?thesis using assms(1,3) by (cases res) (auto split: if_splits)
qed


lemma no_nul_escape_plain: "0x25 \<notin> set xs \<Longrightarrow> no_nul_escape xs"
  unfolding no_nul_escape_def by (metis in_set_dropD in_set_takeD list.set_intros(1))

definition example_conf :: http_conf where
  "example_conf = \<lparr>redirecturl = None, stats_path = lit ''stats''\<rparr>"

definition example_connection :: http_data where
  "example_connection = \<lparr>hd_request = [], hd_batch = [], hd_ip = replicate 16 1, hd_flag = 0, hd_want_read = True, hd_want_write = False\<rparr>"


end
