(* ===== verification/OT_Announce.thy ===== *)
theory OT_Announce
  imports OT_HttpParse
begin

text \<open>
  An announce written the way a BitTorrent client writes it is understood: the parameters of the query string arrive at the tracker, however the
  client chooses to percent-encode them.
\<close>

section \<open>Scanning encoded text\<close>

lemma query_loop_encoded:
  assumes "\<And>b. p b \<Longrightarrow> is_unreserved b AND flags \<noteq> 0 \<and> b \<noteq> 0x25" and "is_unreserved 0x25 AND flags \<noteq> 0" and "is_unreserved e AND flags = 0"
  shows "\<exists>gap. query_loop flags (pre @ url_encode p u xs @ e # rest) (length pre) (length pre) =
      Some (pre @ xs @ gap @ e # rest, Inr (e, length pre + length xs + length gap + 1, length pre + length xs)) \<and>
    length xs + length gap = length (url_encode p u xs)"
  using query_loop_decodes [of pre "[]" "url_encode p u xs @ e # rest" flags] url_decode_encode [of p flags e u xs rest, OF assms]
  by (auto simp: decode_result_def)

lemma url_encode_plain: "url_encode (\<lambda>b. b \<in> set xs) u xs = xs"
proof -
  have "set ys \<subseteq> set xs \<Longrightarrow> url_encode (\<lambda>b. b \<in> set xs) u ys = ys" for ys
    by (induction ys) (auto simp: url_encode_def)
  then show ?thesis by simp
qed

definition plain :: "byte \<Rightarrow> bytes \<Rightarrow> bool" where
  "plain flags xs \<longleftrightarrow> (\<forall>b \<in> set xs. is_unreserved b AND flags \<noteq> 0 \<and> b \<noteq> 0x25)"

lemma query_loop_plain:
  assumes "plain flags xs" "is_unreserved 0x25 AND flags \<noteq> 0" "is_unreserved e AND flags = 0"
  shows "query_loop flags (pre @ xs @ e # rest) (length pre) (length pre) =
    Some (pre @ xs @ e # rest, Inr (e, length pre + length xs + 1, length pre + length xs))"
  using query_loop_encoded [of "\<lambda>b. b \<in> set xs" flags e pre False xs rest] assms by (auto simp: plain_def url_encode_plain)

lemma scan_key:
  assumes "plain 2 key" "key \<noteq> []" "keyword_value ks key = Some k"
  shows "scan_find_keywords ks (pre @ key @ 0x3d # rest) (length pre) 2 = Some (k, pre @ key @ 0x3d # rest, length pre + length key + 1)"
  using query_loop_plain [OF assms(1), of "0x3d" pre rest] assms(2,3)
  by (simp add: scan_find_keywords_def scan_urlencoded_query_def query_switch_def is_unreserved_simps)

text \<open>A client may leave those bytes as they are that the scanner accepts in a value, but not the percent sign.\<close>

definition encoder :: "(byte \<Rightarrow> bool) \<Rightarrow> bool" where
  "encoder p \<longleftrightarrow> (\<forall>b. p b \<longrightarrow> is_unreserved b AND SCAN_SEARCHPATH_VALUE \<noteq> 0 \<and> b \<noteq> 0x25)"

lemma scan_value:
  assumes "encoder p" and "xs \<noteq> []" and "e = 0x26 \<or> e = 0x20"
  shows "\<exists>gap. scan_urlencoded_query (pre @ url_encode p u xs @ e # rest) (length pre) (length pre) 4 =
    Some (int (length xs), pre @ xs @ gap @ e # rest, length pre + length xs + length gap + (if e = 0x26 then 1 else 0))"
proof -
  obtain gap where "query_loop 4 (pre @ url_encode p u xs @ e # rest) (length pre) (length pre) =
      Some (pre @ xs @ gap @ e # rest, Inr (e, length pre + length xs + length gap + 1, length pre + length xs))"
    using query_loop_encoded [of p 4 e pre u xs rest] assms(1,3) by (auto simp: encoder_def is_unreserved_simps)
  then show ?thesis using assms(2,3) by (auto simp: scan_urlencoded_query_def query_switch_def)
qed

section \<open>Numbers\<close>

lemma dec_digits: "\<forall>c \<in> set (dec_of_nat n). 0x30 \<le> c \<and> c \<le> 0x39"
proof (induction n rule: dec_of_nat.induct)
  case (1 n)
  have d: "0x30 \<le> (48 + of_nat d :: byte) \<and> (48 + of_nat d :: byte) \<le> 0x39" if "d < 10" for d
    using that by (auto simp: word_le_nat_alt unat_word_ariths unat_of_nat)
  show ?case using 1 d [of n] d [of "n mod 10"] by (subst dec_of_nat.simps) auto
qed

lemma dec_nonempty: "dec_of_nat n \<noteq> []"
  by (subst dec_of_nat.simps) simp

lemma digits_value_dec: "digits_value 0 (dec_of_nat n) = of_nat n"
proof (induction n rule: dec_of_nat.induct)
  case (1 n)
  have d: "(ucast (48 + of_nat d :: byte) :: 32 word) - 0x30 = of_nat d" if "d < 10" for d
  proof -
    have "unat (48 + of_nat d :: byte) = 48 + d" using that by (simp add: unat_word_ariths unat_of_nat)
    then have "(ucast (48 + of_nat d :: byte) :: 32 word) = of_nat (48 + d)" by (metis of_nat_unat)
    then show ?thesis by simp
  qed
  have split: "(of_nat n :: 32 word) = 10 * of_nat (n div 10) + of_nat (n mod 10)"
    by (metis mult_div_mod_eq of_nat_add of_nat_mult of_nat_numeral)
  have fold: "digits_value t (xs @ [c]) = 10 * digits_value t xs + (ucast c - 0x30)" for t xs c by (simp add: digits_value_def)
  show ?case
  proof (cases "n < 10")
    case True
    then show ?thesis using d [OF True] by (subst dec_of_nat.simps) (simp add: digits_value_def)
  next
    case False
    then have "digits_value 0 (dec_of_nat n) = 10 * digits_value 0 (dec_of_nat (n div 10)) + (ucast (48 + of_nat (n mod 10) :: byte) - 0x30)"
      by (subst dec_of_nat.simps) (simp only: fold if_False)
    also have "\<dots> = of_nat n" using 1 [OF False] d [of "n mod 10"] split by simp
    finally show ?thesis .
  qed
qed

lemma scan_number_encoded:
  assumes "encoder p" and "e = 0x26 \<or> e = 0x20" and "length (dec_of_nat n) < 2 ^ 63"
  shows "\<exists>gap. scan_number (pre @ url_encode p u (dec_of_nat n) @ e # rest) (length pre) =
    Some (int (length (dec_of_nat n)), 0, sint (of_nat n :: 32 word), pre @ dec_of_nat n @ gap @ e # rest,
      length pre + length (dec_of_nat n) + length gap + (if e = 0x26 then 1 else 0))"
proof -
  let ?ds = "dec_of_nat n"
  obtain gap where q: "scan_urlencoded_query (pre @ url_encode p u ?ds @ e # rest) (length pre) (length pre) 4 =
      Some (int (length ?ds), pre @ ?ds @ gap @ e # rest, length pre + length ?ds + length gap + (if e = 0x26 then 1 else 0))"
    using scan_value [OF assms(1) dec_nonempty assms(2)] by blast
  have "fixed_int_loop (pre @ ?ds @ gap @ e # rest) (length pre) (of_nat (length ?ds)) 0 = Some (0, of_nat n)"
    using fixed_int_loop_digits [OF dec_digits, of n pre "gap @ e # rest" 0] assms(3) by (simp add: digits_value_dec)
  moreover obtain c cs where ds: "?ds = c # cs" using dec_nonempty [of n] by (cases ?ds) auto
  moreover have "c \<noteq> 0x2d" using dec_digits [of n] ds by (cases "c = 0x2d") auto
  ultimately have "scan_fixed_int (pre @ ?ds @ gap @ e # rest) (length pre) (of_nat (length ?ds)) = Some (0, sint (of_nat n :: 32 word))"
    by (simp add: scan_fixed_int_def nth_append)
  then show ?thesis using q dec_nonempty [of n] by (auto simp: scan_number_def)
qed

section \<open>The fields of an announce\<close>

text \<open>
  The abstract announce: what a client says, without buffers and indices. The number of bytes left is only known modulo the size of an \<^verbatim>\<open>int\<close>, so a client
  with a positive multiple of 4 GiB left counts as a seeder.
\<close>

datatype field = InfoHash bytes | Port nat | Left nat | Started | Completed | Stopped | Numwant nat | Compact | Unknown bytes bytes

fun field_key :: "field \<Rightarrow> bytes" where
  "field_key (InfoHash h) = lit ''info_hash''"
| "field_key (Port n) = lit ''port''"
| "field_key (Left n) = lit ''left''"
| "field_key Started = lit ''event''"
| "field_key Completed = lit ''event''"
| "field_key Stopped = lit ''event''"
| "field_key (Numwant n) = lit ''numwant''"
| "field_key Compact = lit ''compact''"
| "field_key (Unknown k v) = k"

fun field_value :: "field \<Rightarrow> bytes" where
  "field_value (InfoHash h) = h"
| "field_value (Port n) = dec_of_nat n"
| "field_value (Left n) = dec_of_nat n"
| "field_value Started = lit ''started''"
| "field_value Completed = lit ''completed''"
| "field_value Stopped = lit ''stopped''"
| "field_value (Numwant n) = dec_of_nat n"
| "field_value Compact = dec_of_nat 1"
| "field_value (Unknown k v) = v"

record announce_spec =
  sp_port :: nat
  sp_flag :: byte
  sp_numwant :: nat
  sp_hash :: "bytes option"

definition spec_init :: announce_spec where
  "spec_init = \<lparr>sp_port = 0, sp_flag = 0, sp_numwant = 50, sp_hash = None\<rparr>"

fun apply_field :: "field \<Rightarrow> announce_spec \<Rightarrow> announce_spec" where
  "apply_field (InfoHash h) sp = sp\<lparr>sp_hash := Some h\<rparr>"
| "apply_field (Port n) sp = sp\<lparr>sp_port := n\<rparr>"
| "apply_field (Left n) sp = (if n mod 2 ^ 32 = 0 then sp\<lparr>sp_flag := sp_flag sp OR PEER_FLAG_SEEDING\<rparr> else sp)"
| "apply_field Completed sp = sp\<lparr>sp_flag := sp_flag sp OR PEER_FLAG_COMPLETED\<rparr>"
| "apply_field Stopped sp = sp\<lparr>sp_flag := sp_flag sp OR PEER_FLAG_STOPPED\<rparr>"
| "apply_field (Numwant n) sp = sp\<lparr>sp_numwant := min n 200\<rparr>"
| "apply_field _ sp = sp"

fun field_ok :: "field \<Rightarrow> bool" where
  "field_ok (InfoHash h) \<longleftrightarrow> length h = 20"
| "field_ok (Port n) \<longleftrightarrow> n < 2 ^ 16"
| "field_ok (Left n) \<longleftrightarrow> n < 2 ^ 64"
| "field_ok (Numwant n) \<longleftrightarrow> n < 2 ^ 31"
| "field_ok (Unknown k v) \<longleftrightarrow> k \<noteq> [] \<and> plain 2 k \<and> keyword_value keywords_announce k = Some (-3)"
| "field_ok _ \<longleftrightarrow> True"

fun fields_ok :: "bool \<Rightarrow> field list \<Rightarrow> bool" where
  "fields_ok seen [] \<longleftrightarrow> True"
| "fields_ok seen (InfoHash h # fs) \<longleftrightarrow> \<not> seen \<and> length h = 20 \<and> fields_ok True fs"
| "fields_ok seen (f # fs) \<longleftrightarrow> field_ok f \<and> fields_ok seen fs"

fun query_string :: "(byte \<Rightarrow> bool) \<Rightarrow> bool \<Rightarrow> field list \<Rightarrow> bytes" where
  "query_string p u [] = []"
| "query_string p u (f # fs) =
    field_key f @ 0x3d # url_encode p u (field_value f) @ (if fs = [] then [] else 0x26 # query_string p u fs)"

text \<open>How the parameters found so far, with the hash an index into the decoded part of the buffer, stand for the abstract announce.\<close>

definition params_rel :: "bytes \<Rightarrow> nat \<Rightarrow> announce_params \<Rightarrow> announce_spec \<Rightarrow> bool" where
  "params_rel buf s a sp \<longleftrightarrow>
    a_port a = be16 (of_nat (sp_port sp)) \<and> a_flag a = sp_flag sp \<and> a_numwant a = int (sp_numwant sp) \<and>
    (case a_hash a of None \<Rightarrow> sp_hash sp = None | Some i \<Rightarrow> i + 20 \<le> s \<and> sp_hash sp = Some (take 20 (drop i buf)))"

lemma params_rel_step:
  assumes "params_rel buf s a sp" "take s buf' = take s buf" "s \<le> s'" "s \<le> length buf"
  shows "params_rel buf' s' a sp"
proof (cases "a_hash a")
  case None
  then show ?thesis using assms(1) by (simp add: params_rel_def)
next
  case (Some i)
  have "i + 20 \<le> s" using assms(1) Some by (simp add: params_rel_def)
  then have "take 20 (drop i (take s buf')) = take 20 (drop i buf')" "take 20 (drop i (take s buf)) = take 20 (drop i buf)"
    by (simp_all add: drop_take)
  then have "take 20 (drop i buf') = take 20 (drop i buf)" using assms(2) by simp
  then show ?thesis using assms(1,3) Some by (simp add: params_rel_def)
qed

fun field_code :: "field \<Rightarrow> int" where
  "field_code (InfoHash h) = 6"
| "field_code (Port n) = 1"
| "field_code (Left n) = 2"
| "field_code (Numwant n) = 4"
| "field_code Compact = 5"
| "field_code (Unknown k v) = -3"
| "field_code _ = 3"

lemma field_key_found:
  "field_ok f \<Longrightarrow> keyword_value keywords_announce (field_key f) = Some (field_code f) \<and> plain 2 (field_key f) \<and> field_key f \<noteq> []"
  by (cases f) (simp_all add: keywords_announce_def lit_def plain_def is_unreserved_def is_unreserved_table_def)

lemma sint_of_nat_small: "n < 2 ^ 31 \<Longrightarrow> sint (of_nat n :: 32 word) = int n"
  by (simp add: signed_of_nat signed_take_bit_int_eq_self)

lemma sint_of_nat_eq_0: "sint (of_nat n :: 32 word) = 0 \<longleftrightarrow> n mod 2 ^ 32 = 0"
proof -
  have "sint (of_nat n :: 32 word) = 0 \<longleftrightarrow> (of_nat n :: 32 word) = 0" by (simp only: signed_eq_0_iff)
  also have "\<dots> \<longleftrightarrow> n mod 2 ^ 32 = 0" by (simp add: mod_eq_0_iff_dvd word_of_nat_eq_0_iff)
  finally show ?thesis .
qed

lemma number_field:
  assumes "encoder p" and "e = 0x26 \<or> e = 0x20" and "n < 2 ^ 64"
  obtains mid where "scan_number (pre @ url_encode p u (dec_of_nat n) @ e # rest) (length pre) =
    Some (int (length (dec_of_nat n)), 0, sint (of_nat n :: 32 word), pre @ mid @ e # rest, length pre + length mid + (if e = 0x26 then 1 else 0))"
proof -
  have "length (dec_of_nat n) \<le> 20" using assms(3) by (intro length_dec_of_nat) simp_all
  then obtain gap where "scan_number (pre @ url_encode p u (dec_of_nat n) @ e # rest) (length pre) =
    Some (int (length (dec_of_nat n)), 0, sint (of_nat n :: 32 word), pre @ dec_of_nat n @ gap @ e # rest,
      length pre + length (dec_of_nat n) + length gap + (if e = 0x26 then 1 else 0))"
    using scan_number_encoded [OF assms(1,2), of n pre u rest] by fastforce
  then show thesis by (intro that [of "dec_of_nat n @ gap"]) simp
qed

lemma event_field:
  assumes "encoder p" and "e = 0x26 \<or> e = 0x20" and "v \<noteq> []" "keyword_value ks v = Some k"
  obtains mid where "scan_find_keywords ks (pre @ url_encode p u v @ e # rest) (length pre) 4 =
    Some (k, pre @ mid @ e # rest, length pre + length mid + (if e = 0x26 then 1 else 0))"
proof -
  obtain gap where "scan_urlencoded_query (pre @ url_encode p u v @ e # rest) (length pre) (length pre) 4 =
      Some (int (length v), pre @ v @ gap @ e # rest, length pre + length v + length gap + (if e = 0x26 then 1 else 0))"
    using scan_value [OF assms(1,3,2)] by blast
  then show thesis using assms(3,4) by (intro that [of "v @ gap"]) (simp add: scan_find_keywords_def)
qed

lemma field_step:
  assumes p: "encoder p" and e: "e = 0x26 \<or> e = 0x20"
    and f: "field_ok f" "field_code f \<noteq> -3" "\<forall>h. f = InfoHash h \<longrightarrow> a_hash a = None"
    and rel: "params_rel buf (length pre) a sp" "buf = pre @ url_encode p u (field_value f) @ e # rest"
  shows "\<exists>mid a'. announce_param (field_code f) buf (length pre) a =
      Some (Inr (pre @ mid @ e # rest, length pre + length mid + (if e = 0x26 then 1 else 0), a')) \<and>
    params_rel (pre @ mid @ e # rest) (length pre + length mid) a' (apply_field f sp)"
proof -
  have keep: "params_rel (pre @ mid @ e # rest) (length pre + length mid) a sp" for mid
    using params_rel_step [OF rel(1), of "pre @ mid @ e # rest" "length pre + length mid"] rel(2) by simp
  have num: thesis' if "n < 2 ^ 64" "field_value f = dec_of_nat n"
    "\<And>mid. scan_number buf (length pre) = Some (int (length (dec_of_nat n)), 0, sint (of_nat n :: 32 word), pre @ mid @ e # rest,
       length pre + length mid + (if e = 0x26 then 1 else 0)) \<Longrightarrow> thesis'" for n thesis'
    using number_field [OF p e that(1), of pre u rest] that(2,3) rel(2) by metis
  have event: ?thesis if ev: "field_code f = 3" "field_value f \<noteq> []" "keyword_value keywords_announce_event (field_value f) = Some k" "k \<noteq> -1"
    "apply_field f sp = sp\<lparr>sp_flag := if k = 1 then sp_flag sp OR 0x40 else if k = 2 then sp_flag sp OR 0x20 else sp_flag sp\<rparr>" for k
  proof -
    obtain mid where "scan_find_keywords keywords_announce_event buf (length pre) 4 = Some (k, pre @ mid @ e # rest,
        length pre + length mid + (if e = 0x26 then 1 else 0))"
      using event_field [OF p e ev(2,3), of pre u rest] rel(2) by metis
    then show ?thesis using ev keep [of mid]
      by (intro exI [of _ mid]) (simp add: announce_param_def params_rel_def split: option.splits)
  qed
  note rel_simps = params_rel_def announce_param_def
  show ?thesis
  proof (cases f)
    case (InfoHash h)
    then have h: "length h = 20" "h \<noteq> []" using f(1) by auto
    obtain gap where "scan_urlencoded_query buf (length pre) (length pre) 4 =
        Some (20, pre @ h @ gap @ e # rest, length pre + length h + length gap + (if e = 0x26 then 1 else 0))"
      using scan_value [OF p h(2) e, of pre u rest] rel(2) InfoHash h(1) by auto
    then show ?thesis using InfoHash f(3) h(1) keep [of "h @ gap"] by (intro exI [of _ "h @ gap"]) (simp add: rel_simps)
  next
    case (Port n)
    then have n: "n < 2 ^ 64" "sint (of_nat n :: 32 word) = int n" using f(1) sint_of_nat_small [of n] by auto
    show ?thesis
    proof (rule num [OF n(1)])
      show "field_value f = dec_of_nat n" using Port by simp
      fix mid
      assume "scan_number buf (length pre) = Some (int (length (dec_of_nat n)), 0, sint (of_nat n :: 32 word), pre @ mid @ e # rest,
        length pre + length mid + (if e = 0x26 then 1 else 0))"
      then show ?thesis using Port n f(1) dec_nonempty [of n] keep [of mid] by (intro exI [of _ mid]) (simp add: rel_simps split: option.splits)
    qed
  next
    case (Left n)
    then have n: "n < 2 ^ 64" using f(1) by auto
    show ?thesis
    proof (rule num [OF n(1)])
      show "field_value f = dec_of_nat n" using Left by simp
      fix mid
      assume "scan_number buf (length pre) = Some (int (length (dec_of_nat n)), 0, sint (of_nat n :: 32 word), pre @ mid @ e # rest,
        length pre + length mid + (if e = 0x26 then 1 else 0))"
      then show ?thesis using Left dec_nonempty [of n] keep [of mid]
        by (intro exI [of _ mid]) (simp add: rel_simps sint_of_nat_eq_0 split: option.splits)
    qed
  next
    case (Numwant n)
    then have n: "n < 2 ^ 64" "sint (of_nat n :: 32 word) = int n" using f(1) sint_of_nat_small [of n] by auto
    show ?thesis
    proof (rule num [OF n(1)])
      show "field_value f = dec_of_nat n" using Numwant by simp
      fix mid
      assume "scan_number buf (length pre) = Some (int (length (dec_of_nat n)), 0, sint (of_nat n :: 32 word), pre @ mid @ e # rest,
        length pre + length mid + (if e = 0x26 then 1 else 0))"
      then show ?thesis using Numwant n dec_nonempty [of n] keep [of mid]
        by (intro exI [of _ mid]) (simp add: rel_simps min_def split: option.splits)
    qed
  next
    case Compact
    show ?thesis
    proof (rule num [of 1])
      show "field_value f = dec_of_nat 1" using Compact by simp
      fix mid
      assume "scan_number buf (length pre) = Some (int (length (dec_of_nat 1)), 0, sint (of_nat 1 :: 32 word), pre @ mid @ e # rest,
        length pre + length mid + (if e = 0x26 then 1 else 0))"
      then show ?thesis using Compact dec_nonempty [of 1] keep [of mid] by (intro exI [of _ mid]) (simp add: announce_param_def)
    qed simp
  next
    case Started
    then show ?thesis by (intro event [of "-3"]) (simp_all add: keywords_announce_event_def lit_def)
  next
    case Completed
    then show ?thesis by (intro event [of 1]) (simp_all add: keywords_announce_event_def lit_def)
  next
    case Stopped
    then show ?thesis by (intro event [of 2]) (simp_all add: keywords_announce_event_def lit_def)
  next
    case (Unknown k v)
    then show ?thesis using f(2) by simp
  qed
qed

section \<open>The query string\<close>

lemma hexdigit_unreserved:
  assumes "n < 16"
  shows "is_unreserved (hexdigit u n) AND 4 \<noteq> 0"
  using byte_less_16_cases [OF assms] by (cases u) (auto simp: hexdigit_def is_unreserved_def is_unreserved_table_def)

lemma encoded_unreserved:
  assumes "encoder p"
  shows "\<forall>b \<in> set (url_encode p u xs). is_unreserved b AND 4 \<noteq> 0"
  using assms by (auto simp: url_encode_def encoder_def is_unreserved_simps hexdigit_unreserved nibbles)

lemma skipvalue_encoded:
  assumes "\<forall>b \<in> set v. is_unreserved b AND 4 \<noteq> 0" and e: "e = 0x26 \<or> e = 0x20"
  shows "scan_urlencoded_skipvalue (pre @ v @ e # rest) (length pre) = Some (length pre + length v + (if e = 0x26 then 1 else 0))"
proof -
  have "skipvalue_loop (pre @ v @ e # rest) (length pre) = Some (is_unreserved e, length pre + length v + 1)"
    using assms(1)
  proof (induction v arbitrary: pre)
    case Nil
    then show ?case using e by (subst skipvalue_loop.simps) (auto simp: is_unreserved_simps nth_append)
  next
    case (Cons b v)
    then show ?case using Cons.IH [of "pre @ [b]"] by (subst skipvalue_loop.simps) (simp add: nth_append)
  qed
  then show ?thesis using e by (auto simp: scan_urlencoded_skipvalue_def is_unreserved_simps)
qed

lemma announce_scan_field:
  assumes p: "encoder p" and e: "e = 0x26 \<or> e = 0x20" and f: "field_ok f" "\<forall>h. f = InfoHash h \<longrightarrow> sp_hash sp = None"
    and rel: "params_rel buf (length pre) a sp" "buf = pre @ field_key f @ 0x3d # url_encode p u (field_value f) @ e # rest"
  shows "\<exists>pre' a'. announce_scan buf (length pre) a = announce_scan (pre' @ e # rest) (length pre' + (if e = 0x26 then 1 else 0)) a' \<and>
    params_rel (pre' @ e # rest) (length pre') a' (apply_field f sp)"
proof -
  let ?k = "pre @ field_key f @ [0x3d]" and ?v = "url_encode p u (field_value f)"
  have key: "scan_find_keywords keywords_announce buf (length pre) 2 = Some (field_code f, buf, length ?k)"
    using scan_key field_key_found [OF f(1)] rel(2) by (simp add: field_key_found)
  have rel': "params_rel (?k @ ?v @ e # rest) (length ?k) a sp" "buf = ?k @ ?v @ e # rest"
    using params_rel_step [OF rel(1), of "?k @ ?v @ e # rest" "length ?k"] rel(2) by auto
  show ?thesis
  proof (cases "field_code f = -3")
    case True
    then obtain k v where un: "f = Unknown k v" by (cases f) auto
    have "scan_urlencoded_skipvalue (?k @ ?v @ e # rest) (length ?k) = Some (length ?k + length ?v + (if e = 0x26 then 1 else 0))"
      using skipvalue_encoded [OF encoded_unreserved [OF p] e] .
    then have "announce_scan buf (length pre) a = announce_scan buf (length ?k + length ?v + (if e = 0x26 then 1 else 0)) a"
      using key True rel'(2) by (subst announce_scan.simps) simp
    moreover have "params_rel (?k @ ?v @ e # rest) (length (?k @ ?v)) a sp" using params_rel_step [OF rel'(1)] by simp
    ultimately show ?thesis using un rel'(2) by (intro exI [of _ "?k @ ?v"] exI [of _ a]) (simp add: add.assoc)
  next
    case False
    have "a_hash a = None" if "f = InfoHash h" for h
      using f(2) that rel(1) by (auto simp: params_rel_def split: option.splits)
    then obtain mid a' where "announce_param (field_code f) buf (length ?k) a =
        Some (Inr (?k @ mid @ e # rest, length ?k + length mid + (if e = 0x26 then 1 else 0), a'))"
        "params_rel (?k @ mid @ e # rest) (length ?k + length mid) a' (apply_field f sp)"
      using field_step [OF p e f(1) False _ rel'(1) refl] rel'(2) by metis
    moreover have "field_code f \<noteq> -2 \<and> field_code f \<noteq> -1" by (cases f) simp_all
    ultimately show ?thesis
      using key False by (intro exI [of _ "?k @ mid"] exI [of _ a']) (subst announce_scan.simps, simp add: add.assoc)
  qed
qed

lemma announce_scan_end: "announce_scan (pre @ 0x20 # rest) (length pre) a = Some (Inr (pre @ 0x20 # rest, a))"
proof -
  have "query_loop 2 (pre @ 0x20 # rest) (length pre) (length pre) = Some (pre @ 0x20 # rest, Inr (0x20, length pre + 1, length pre))"
    using query_loop_plain [of 2 "[]" "0x20" pre rest] by (simp add: plain_def is_unreserved_simps)
  then show ?thesis
    by (subst announce_scan.simps) (simp add: scan_find_keywords_def scan_urlencoded_query_def query_switch_def)
qed

lemma announce_scan_fields:
  assumes "encoder p" "fields_ok (sp_hash sp \<noteq> None) fs" "params_rel buf (length pre) a sp" "buf = pre @ query_string p u fs @ 0x20 # rest"
  shows "\<exists>buf' a'. announce_scan buf (length pre) a = Some (Inr (buf', a')) \<and> params_rel buf' (length buf') a' (fold apply_field fs sp)"
  using assms(2-4)
proof (induction fs arbitrary: pre buf a sp)
  case Nil
  have "params_rel buf (length buf) a sp" using params_rel_step [OF Nil.prems(2), of buf "length buf"] Nil.prems(3) by simp
  then show ?case using announce_scan_end [of pre rest a] Nil.prems(3) by simp
next
  case (Cons f fs)
  have f: "field_ok f" "\<forall>h. f = InfoHash h \<longrightarrow> sp_hash sp = None" "fields_ok (sp_hash (apply_field f sp) \<noteq> None) fs"
    using Cons.prems(1) by (cases f; simp)+
  show ?case
  proof (cases "fs = []")
    case True
    obtain pre' a' where s: "announce_scan buf (length pre) a = announce_scan (pre' @ 0x20 # rest) (length pre') a'"
        "params_rel (pre' @ 0x20 # rest) (length pre') a' (apply_field f sp)"
      using announce_scan_field [OF assms(1) disjI2 [OF refl] f(1,2) Cons.prems(2), of u rest] Cons.prems(3) True by auto
    have "pre' @ 0x20 # rest = pre' @ query_string p u fs @ 0x20 # rest" using True by simp
    from Cons.IH [OF f(3) s(2) this] show ?thesis by (simp only: s(1) fold_simps)
  next
    case False
    obtain pre' a' where s: "announce_scan buf (length pre) a = announce_scan (pre' @ 0x26 # query_string p u fs @ 0x20 # rest) (length (pre' @ [0x26])) a'"
        "params_rel (pre' @ 0x26 # query_string p u fs @ 0x20 # rest) (length pre') a' (apply_field f sp)"
      using announce_scan_field [OF assms(1) disjI1 [OF refl] f(1,2) Cons.prems(2), of u "query_string p u fs @ 0x20 # rest"] Cons.prems(3) False by auto
    have "params_rel (pre' @ 0x26 # query_string p u fs @ 0x20 # rest) (length (pre' @ [0x26])) a' (apply_field f sp)"
      using params_rel_step [OF s(2)] by simp
    from Cons.IH [OF f(3) this] show ?thesis by (simp only: s(1) fold_simps append_assoc append_Cons append_Nil)
  qed
qed

section \<open>The request line\<close>

definition announce_request :: "(byte \<Rightarrow> bool) \<Rightarrow> bool \<Rightarrow> field list \<Rightarrow> bytes \<Rightarrow> bytes" where
  "announce_request p u fs rest = lit ''GET /announce?'' @ query_string p u fs @ 0x20 # rest"

lemma http_dispatch_announce:
  assumes "query_string p u fs @ 0x20 # rest = q"
  shows "http_dispatch conf env return_stats st ip (announce_request p u fs rest) tr as =
    http_handle_announce env st ip (lit ''GET /announce?'' @ q) 14 tr as"
proof -
  define g a where "g = lit ''GET /''" and "a = lit ''announce''"
  have la: "length g = 5" "length a = 8" by (simp_all add: g_def a_def)
  have req: "announce_request p u fs rest = g @ a @ 0x3f # q" and req': "lit ''GET /announce?'' @ q = g @ a @ 0x3f # q"
    by (simp_all add: announce_request_def g_def a_def assms lit_def)
  have "skip_slashes (drop 4 (g @ a @ 0x3f # q)) = 1" by (simp add: g_def a_def lit_def)
  moreover have "plain 1 a" by (simp add: a_def plain_def lit_def is_unreserved_def is_unreserved_table_def)
  then have "query_loop 1 (g @ a @ 0x3f # q) 5 5 = Some (g @ a @ 0x3f # q, Inr (0x3f, 14, 13))"
    using query_loop_plain [of 1 a "0x3f" g q] la by (simp add: is_unreserved_simps)
  then have "scan_urlencoded_query (g @ a @ 0x3f # q) 5 5 1 = Some (8, g @ a @ 0x3f # q, 14)"
    by (simp add: scan_urlencoded_query_def query_switch_def)
  moreover have "(g @ a @ 0x3f # q) ! 5 = 0x61" using la by (simp add: nth_append a_def lit_def)
  moreover have "take 5 (g @ a @ 0x3f # q) = lit ''GET /''" using la by (simp add: g_def)
  ultimately show ?thesis
    unfolding req req' by (simp add: http_dispatch_def Let_def)
qed



end
