(* ===== verification/OT_Udp.thy ===== *)
theory OT_Udp
  imports OT_Scrape OT_Rijndael
begin

text \<open>
  \<^verbatim>\<open>src/ot_udp.c\<close>: the UDP protocol. The keys behind the connection ids are the state of the module; a handler takes the receive buffer and the
  number \<^verbatim>\<open>socket_recv6\<close> returned and gives the datagrams sent, the statistics events and the new state. The socket itself is not modelled.
  Shown: a request changes the tracker only when it carries the connection id of its sender, every request
  is answered within the size of the buffers and keeps the invariant of the tracker.
\<close>

section \<open>Connection ids\<close>

text \<open>
  The file-level variables \<^verbatim>\<open>g_rijndael_round_key\<close>, \<^verbatim>\<open>g_key_of_the_hour\<close> and \<^verbatim>\<open>g_hour_of_the_key\<close>.
\<close>

record udp_keys =
  rijndael_round_key :: "u32 list"
  key_of_the_hour :: "u32 list"
  hour_of_the_key :: int

definition udp_keys_init :: udp_keys where
  "udp_keys_init = \<lparr>rijndael_round_key = replicate 44 0, key_of_the_hour = [0, 0], hour_of_the_key = 0\<rparr>"

text \<open>The key is an array of integers read as bytes, on a little-endian machine.\<close>

definition le32 :: "u32 \<Rightarrow> bytes" where
  "le32 w = rev (be32 w)"

definition udp_generate_rijndael_round_key :: "(nat \<Rightarrow> u32) \<Rightarrow> int \<Rightarrow> udp_keys \<Rightarrow> udp_keys" where
  "udp_generate_rijndael_round_key random now ks =
    ks\<lparr>rijndael_round_key := rijndaelKeySetupEnc128 (le32 (random 0) @ le32 (random 1) @ le32 (random 2) @ le32 (random 3)),
       key_of_the_hour := (key_of_the_hour ks)[0 := random 4], hour_of_the_key := now\<rparr>"

text \<open>
  The connection id as its eight bytes (the code XORs the words of the cipher text pairwise) and the new keys. The code also
  computes \<^verbatim>\<open>plain\<close> from the address and \<^verbatim>\<open>g_key_of_the_hour[age]\<close>, but then encrypts the address itself.
\<close>

definition udp_make_connectionid :: "u32 \<Rightarrow> int \<Rightarrow> bytes \<Rightarrow> nat \<Rightarrow> udp_keys \<Rightarrow> bytes \<times> udp_keys" where
  "udp_make_connectionid random now remoteip age ks =
    (let ks' = (if now + 60 > hour_of_the_key ks
                then ks\<lparr>hour_of_the_key := now, key_of_the_hour := [random, key_of_the_hour ks ! 0]\<rparr> else ks);
         plain = map (\<lambda>w. rd32 w XOR key_of_the_hour ks' ! age) [remoteip, drop 4 remoteip, drop 8 remoteip, drop 12 remoteip];
         crypt = rijndaelEncrypt128 (rijndael_round_key ks') remoteip in
     (xor_bytes (take 4 crypt) (take 4 (drop 4 crypt)) @ xor_bytes (take 4 (drop 8 crypt)) (take 4 (drop 12 crypt)), ks'))"

section \<open>Requests\<close>

text \<open>
  What one call of the handler leaves behind: its return value, the datagrams sent, the events, the tracker, the keys and the answers of the allocator not yet used.
\<close>

record udp_result =
  ret :: nat
  sent :: "bytes list"
  events :: "effect list"
  tracker :: bucket_state
  keys :: udp_keys
  answers :: allocs

abbreviation (input) udp_quiet :: "effect list \<Rightarrow> bucket_state \<Rightarrow> udp_keys \<Rightarrow> allocs \<Rightarrow> udp_result" where
  "udp_quiet eff s ks as \<equiv> \<lparr>ret = 1, sent = [], events = eff, tracker = s, keys = ks, answers = as\<rparr>"

definition inpacket :: "bytes \<Rightarrow> nat \<Rightarrow> bytes" where
  "inpacket inbuf i = take 4 (drop (4 * i) inbuf)"

text \<open>The peer of an announce; \<^verbatim>\<open>OT_PEERTIME\<close> is not set here and keeps what the work structure had.\<close>

definition udp_peer :: "byte \<Rightarrow> bytes \<Rightarrow> bytes \<Rightarrow> ot_peer" where
  "udp_peer stale_time remoteip inbuf =
    (let left = rd32 (inpacket inbuf 16) OR rd32 (inpacket inbuf 17);
         event = rd32 (inpacket inbuf 20);
         flag = (if event = 1 then PEER_FLAG_COMPLETED else if event = 3 then PEER_FLAG_STOPPED else 0) in
     \<lparr>peer_ip = take 4 (drop 12 remoteip), peer_port = take 2 (drop 96 inbuf),
      peer_flag = (if left = 0 then flag OR PEER_FLAG_SEEDING else flag), peer_time = stale_time\<rparr>)"

definition udp_announce :: "tenv \<Rightarrow> byte \<Rightarrow> bytes \<Rightarrow> bytes \<Rightarrow> bucket_state \<Rightarrow> allocs \<Rightarrow> (bytes \<times> effect list \<times> bucket_state \<times> allocs) option" where
  "udp_announce env stale_time remoteip inbuf s as =
    (let numwant = unat (rd32 (inpacket inbuf 23)); numwant = (if numwant > 200 then 200 else numwant);
         h = take 20 (drop 16 inbuf); peer = udp_peer stale_time remoteip inbuf;
         head = be32 1 @ inpacket inbuf 3 in
     if flag_set peer PEER_FLAG_STOPPED
     then map_option (\<lambda>(reply, eff, s'). (reply, eff, s', as)) (remove_peer_from_torrent env FLAG_UDP h peer head s)
     else map_option (\<lambda>(reply, eff, s', as'). (head @ reply, eff, s', as'))
            (add_peer_to_torrent_and_return_peers env FLAG_UDP h peer numwant s as))"

text \<open>
  The scrape loop, with its count. It asks for the hash behind each offset below \<^verbatim>\<open>byte_count - 16\<close> (an unsigned difference), also
  for a last one that is not complete.
\<close>

function udp_scrape_loop :: "int \<Rightarrow> bytes \<Rightarrow> size_t \<Rightarrow> nat \<Rightarrow> bytes \<Rightarrow> bucket_state \<Rightarrow> allocs \<Rightarrow> (nat \<times> bytes \<times> bucket_state \<times> allocs) option" where
  "udp_scrape_loop now inbuf byte_count n reply s as =
    (if of_nat n * 20 < byte_count - 16 \<and> n \<le> 74 then
       case return_udp_scrape_for_torrent now (take 20 (drop (16 + 20 * n) inbuf)) s as of
         None \<Rightarrow> None
       | Some (r, s', as') \<Rightarrow> udp_scrape_loop now inbuf byte_count (n + 1) (reply @ r) s' as'
     else Some (n, reply, s, as))"
  by pat_completeness auto
termination
  by (relation "measure (\<lambda>(now, inbuf, byte_count, n, reply, s, as). 75 - n)") auto

declare udp_scrape_loop.simps [simp del]

definition udp_mismatch_reply :: "bytes \<Rightarrow> bytes" where
  "udp_mismatch_reply inbuf = be32 3 @ inpacket inbuf 3 @ lit ''Connection ID missmatch.'' @ [0]"

definition udp_action :: "tenv \<Rightarrow> byte \<Rightarrow> bytes \<Rightarrow> bytes \<Rightarrow> size_t \<Rightarrow> bytes \<Rightarrow> effect list \<Rightarrow> bucket_state \<Rightarrow> udp_keys \<Rightarrow> allocs \<Rightarrow> udp_result option" where
  "udp_action env stale_time remoteip inbuf byte_count connid eff s ks as =
    (let action = rd32 (inpacket inbuf 2) in
     if action = 0 then
       if rd32 (inpacket inbuf 0) \<noteq> 0x00000417 \<or> rd32 (inpacket inbuf 1) \<noteq> 0x27101980 then Some (udp_quiet eff s ks as)
       else Some \<lparr>ret = 1, sent = [be32 0 @ inpacket inbuf 3 @ connid], events = eff @ [stats_event EVENT_CONNECT FLAG_UDP 16],
                  tracker = s, keys = ks, answers = as\<rparr>
     else if action = 1 then
       if byte_count < 98 then Some (udp_quiet eff s ks as)
       else map_option (\<lambda>(out, eff', s', as').
              \<lparr>ret = 1, sent = [out], events = eff @ eff' @ [stats_event EVENT_ANNOUNCE FLAG_UDP (length out)], tracker = s', keys = ks, answers = as'\<rparr>)
              (udp_announce env stale_time remoteip inbuf s as)
     else map_option (\<lambda>(n, reply, s', as').
            \<lparr>ret = 1, sent = [be32 2 @ inpacket inbuf 3 @ reply], events = eff @ [stats_event EVENT_SCRAPE FLAG_UDP n],
             tracker = s', keys = ks, answers = as'\<rparr>)
            (udp_scrape_loop (now_minutes env) inbuf byte_count 0 [] s as))"

definition handle_udp6 ::
  "tenv \<Rightarrow> (nat \<Rightarrow> u32) \<Rightarrow> byte \<Rightarrow> bytes \<Rightarrow> bytes \<Rightarrow> size_t \<Rightarrow> bucket_state \<Rightarrow> udp_keys \<Rightarrow> allocs \<Rightarrow> udp_result option" where
  "handle_udp6 env random stale_time remoteip inbuf byte_count s ks as =
    (if byte_count = 0 then Some \<lparr>ret = 0, sent = [], events = [], tracker = s, keys = ks, answers = as\<rparr>
     else
       let eff = [stats_event EVENT_ACCEPT FLAG_UDP 0, stats_event EVENT_READ FLAG_UDP (unat byte_count)] in
       if byte_count < 16 then Some (udp_quiet eff s ks as)
       else if rd32 (inpacket inbuf 2) > 2 then Some (udp_quiet eff s ks as)
       else
         case udp_make_connectionid (random 0) (now_minutes env) remoteip 0 ks of (connid, ks1) \<Rightarrow>
           if rd32 (inpacket inbuf 2) > 0 \<and> (inpacket inbuf 0 \<noteq> take 4 connid \<or> inpacket inbuf 1 \<noteq> drop 4 connid) then
             case udp_make_connectionid (random 1) (now_minutes env) remoteip 1 ks1 of (connid, ks2) \<Rightarrow>
               if inpacket inbuf 0 \<noteq> take 4 connid \<or> inpacket inbuf 1 \<noteq> drop 4 connid
               then Some \<lparr>ret = 1, sent = [udp_mismatch_reply inbuf],
                          events = eff @ [stats_event EVENT_CONNID_MISSMATCH FLAG_UDP (8 + 25)], tracker = s, keys = ks2, answers = as\<rparr>
               else udp_action env stale_time remoteip inbuf byte_count connid eff s ks2 as
           else udp_action env stale_time remoteip inbuf byte_count connid eff s ks1 as)"

text \<open>\<^verbatim>\<open>udp_init\<close> (apart from starting the threads).\<close>

definition udp_init :: "(nat \<Rightarrow> u32) \<Rightarrow> int \<Rightarrow> udp_keys \<Rightarrow> udp_keys" where
  "udp_init random now ks = (if rijndael_round_key ks ! 0 = 0 then udp_generate_rijndael_round_key random now ks else ks)"

section \<open>The connection id\<close>

definition connection_id :: "u32 list \<Rightarrow> bytes \<Rightarrow> bytes" where
  "connection_id rk remoteip =
    (let crypt = rijndaelEncrypt128 rk remoteip in
     xor_bytes (take 4 crypt) (take 4 (drop 4 crypt)) @ xor_bytes (take 4 (drop 8 crypt)) (take 4 (drop 12 crypt)))"

text \<open>The age and the key of the hour have no influence on the connection id.\<close>

lemma udp_make_connectionid_eq:
  "\<exists>ks'. udp_make_connectionid r now ip age ks = (connection_id (rijndael_round_key ks) ip, ks') \<and> rijndael_round_key ks' = rijndael_round_key ks"
  by (auto simp: udp_make_connectionid_def connection_id_def Let_def)

lemma length_connection_id [simp]: "length (connection_id rk ip) = 8"
proof -
  have "length (rijndaelEncrypt128 rk ip) = 16"
    by (simp add: rijndaelEncrypt128_def Let_def split: prod.split)
  then show ?thesis by (simp add: connection_id_def xor_bytes_def Let_def)
qed

lemma inpacket_connid:
  assumes "length connid = 8" and "8 \<le> length inbuf"
  shows "inpacket inbuf 0 = take 4 connid \<and> inpacket inbuf 1 = drop 4 connid \<longleftrightarrow> take 8 inbuf = connid"
proof -
  have "take 8 inbuf = inpacket inbuf 0 @ inpacket inbuf 1"
    using take_add [of 4 4 inbuf] by (simp add: inpacket_def)
  moreover have "connid = take 4 connid @ drop 4 connid" by simp
  moreover have "length (inpacket inbuf 0) = length (take 4 connid)"
    using assms by (simp add: inpacket_def)
  ultimately show ?thesis by (metis append_eq_append_conv)
qed

text \<open>The handler, with the connection id as a function of the sender.\<close>

lemma handle_udp6_eq:
  assumes "8 \<le> length inbuf"
  shows "\<exists>ks' eff. rijndael_round_key ks' = rijndael_round_key ks \<and>
    handle_udp6 env random stale_time ip inbuf byte_count s ks as =
      (let connid = connection_id (rijndael_round_key ks) ip; action = rd32 (inpacket inbuf 2) in
       if byte_count = 0 then Some \<lparr>ret = 0, sent = [], events = eff, tracker = s, keys = ks', answers = as\<rparr>
       else if byte_count < 16 \<or> action > 2 then Some (udp_quiet eff s ks' as)
       else if action > 0 \<and> take 8 inbuf \<noteq> connid
       then Some \<lparr>ret = 1, sent = [udp_mismatch_reply inbuf], events = eff, tracker = s, keys = ks', answers = as\<rparr>
       else udp_action env stale_time ip inbuf byte_count connid eff s ks' as)"
proof -
  let ?c = "connection_id (rijndael_round_key ks) ip"
  obtain ks1 where k1: "udp_make_connectionid (random 0) (now_minutes env) ip 0 ks = (?c, ks1)" "rijndael_round_key ks1 = rijndael_round_key ks"
    using udp_make_connectionid_eq by blast
  obtain ks2 where k2: "udp_make_connectionid (random 1) (now_minutes env) ip 1 ks1 = (?c, ks2)" "rijndael_round_key ks2 = rijndael_round_key ks"
    using udp_make_connectionid_eq [of "random 1" "now_minutes env" ip 1 ks1] k1(2) by auto
  have c: "inpacket inbuf 0 \<noteq> take 4 ?c \<or> inpacket inbuf 1 \<noteq> drop 4 ?c \<longleftrightarrow> take 8 inbuf \<noteq> ?c"
    using inpacket_connid [OF length_connection_id assms] by blast
  note unfolded = handle_udp6_def k1(1) prod.case c k2(1)
  consider "byte_count = 0" | "byte_count \<noteq> 0" "byte_count < 16 \<or> rd32 (inpacket inbuf 2) > 2"
    | "byte_count \<noteq> 0" "\<not> (byte_count < 16 \<or> rd32 (inpacket inbuf 2) > 2)" "rd32 (inpacket inbuf 2) > 0 \<and> take 8 inbuf \<noteq> ?c"
    | "byte_count \<noteq> 0" "\<not> (byte_count < 16 \<or> rd32 (inpacket inbuf 2) > 2)" "\<not> (rd32 (inpacket inbuf 2) > 0 \<and> take 8 inbuf \<noteq> ?c)"
    by blast
  then show ?thesis
  proof cases
    case 1
    then show ?thesis by (intro exI [of _ ks] exI [of _ "[]"]) (simp add: handle_udp6_def)
  next
    case 2
    then show ?thesis
      by (intro exI [of _ ks] exI [of _ "[stats_event EVENT_ACCEPT FLAG_UDP 0, stats_event EVENT_READ FLAG_UDP (unat byte_count)]"] conjI)
        (rule refl, auto simp: handle_udp6_def Let_def)
  next
    case 3
    then show ?thesis unfolding unfolded using k2(2)
      by (intro exI [of _ ks2] exI conjI) (simp, simp add: Let_def)
  next
    case 4
    then show ?thesis unfolding unfolded using k1(2)
      by (intro exI [of _ ks1] exI [of _ "[stats_event EVENT_ACCEPT FLAG_UDP 0, stats_event EVENT_READ FLAG_UDP (unat byte_count)]"] conjI)
        (simp, auto simp: Let_def)
  qed
qed

lemma udp_action_keys:
  "udp_action env st ip inbuf n connid eff s ks as = Some r \<Longrightarrow> keys r = ks"
  by (auto simp: udp_action_def Let_def split: if_splits)

text \<open>
  C6: Nobody changes the tracker without the connection id of their address. The id is a function of the sender's address and the round key, which no request changes. A datagram whose
  first eight bytes are not that id leaves the tracker as it is, and what the sender gets is nothing, the error packet, or (for a
  connect request) the packet with the id.
\<close>

theorem udp_connection_id_guard:
  assumes "8 \<le> length inbuf" and "handle_udp6 env random stale_time ip inbuf byte_count s ks as = Some r"
    and "take 8 inbuf \<noteq> connection_id (rijndael_round_key ks) ip"
  shows "rijndael_round_key (keys r) = rijndael_round_key ks \<and> tracker r = s \<and> answers r = as \<and>
    sent r \<in> {[], [udp_mismatch_reply inbuf], [be32 0 @ inpacket inbuf 3 @ connection_id (rijndael_round_key ks) ip]}"
proof -
  let ?c = "connection_id (rijndael_round_key ks) ip" and ?a = "rd32 (inpacket inbuf 2)"
  obtain ks' eff where k: "rijndael_round_key ks' = rijndael_round_key ks" and h: "Some r =
      (if byte_count = 0 then Some \<lparr>ret = 0, sent = [], events = eff, tracker = s, keys = ks', answers = as\<rparr>
       else if byte_count < 16 \<or> ?a > 2 then Some (udp_quiet eff s ks' as)
       else if ?a > 0 \<and> take 8 inbuf \<noteq> ?c
       then Some \<lparr>ret = 1, sent = [udp_mismatch_reply inbuf], events = eff, tracker = s, keys = ks', answers = as\<rparr>
       else udp_action env stale_time ip inbuf byte_count ?c eff s ks' as)"
    using handle_udp6_eq [OF assms(1), of ks env random stale_time ip byte_count s as] assms(2) by (auto simp: Let_def)
  show ?thesis
  proof (cases "byte_count = 0 \<or> byte_count < 16 \<or> ?a > 0")
    case True
    with h assms(3) k show ?thesis by (auto split: if_splits)
  next
    case False
    then have "udp_action env stale_time ip inbuf byte_count ?c eff s ks' as = Some r" "?a = 0"
      using h by (auto split: if_splits simp: word_gt_0)
    then show ?thesis using k by (auto simp: udp_action_def Let_def split: if_splits)
  qed
qed

definition example_packet :: "bytes \<Rightarrow> u32 \<Rightarrow> bytes" where
  "example_packet connid action = connid @ be32 action @ replicate 8180 0"

lemma example_packet_simps:
  assumes "length connid = 8"
  shows "length (example_packet connid a) = 8192" "take 8 (example_packet connid a) = connid" "rd32 (inpacket (example_packet connid a) 2) = a"
  using assms rd32_be32 [of a "[]"] by (simp_all add: example_packet_def inpacket_def)

lemma map_xor_1: "xs \<noteq> [] \<Longrightarrow> map (\<lambda>b. b XOR 1) xs \<noteq> (xs :: bytes)"
proof (cases xs)
  case (Cons x ys)
  have "x XOR 1 \<noteq> x"
  proof
    assume "x XOR 1 = x"
    then have "bit (x XOR 1) 0 = bit x 0" by simp
    then show False by (simp add: bit_simps)
  qed
  then show ?thesis by (simp add: Cons)
qed simp

theorem udp_connection_id_guard_witness:
  "\<exists>r. handle_udp6 (example_env 120) (\<lambda>_. 0) 0 (replicate 16 1)
      (example_packet (map (\<lambda>b. b XOR 1) (connection_id (replicate 44 0) (replicate 16 1))) 1) 98 example_tracker udp_keys_init [] = Some r \<and>
    tracker r = example_tracker"
proof -
  let ?id = "connection_id (replicate 44 0) (replicate 16 1)"
  let ?in = "example_packet (map (\<lambda>b. b XOR 1) ?id) 1"
  have len: "8 \<le> length ?in" by (simp add: example_packet_simps)
  have ne: "take 8 ?in \<noteq> connection_id (rijndael_round_key udp_keys_init) (replicate 16 1)"
    using map_xor_1 [of ?id] length_connection_id [of "replicate 44 0" "replicate 16 1"]
    by (simp add: example_packet_simps udp_keys_init_def flip: length_0_conv del: length_connection_id)
  obtain r where r: "handle_udp6 (example_env 120) (\<lambda>_. 0) 0 (replicate 16 1) ?in 98 example_tracker udp_keys_init [] = Some r"
    using handle_udp6_eq [OF len, of udp_keys_init "example_env 120" "\<lambda>_. 0" 0 "replicate 16 1" 98 example_tracker "[]"] ne
    by (auto simp: Let_def example_packet_simps)
  from udp_connection_id_guard [OF len r ne] r show ?thesis by blast
qed

section \<open>Every request is answered\<close>

lemma udp_scrape_loop_result:
  assumes "tracker_wf now s" "bucket_locklist s = []" "n \<le> 75" "length reply = 12 * n"
  shows "\<exists>n' reply' s' as'. udp_scrape_loop now inbuf byte_count n reply s as = Some (n', reply', s', as') \<and>
    n' \<le> 75 \<and> length reply' = 12 * n' \<and> tracker_wf now s' \<and> bucket_locklist s' = []"
  using assms
proof (induction "75 - n" arbitrary: n reply s as)
  case 0
  then show ?case by (subst udp_scrape_loop.simps) simp
next
  case (Suc k)
  show ?case
  proof (cases "of_nat n * 20 < byte_count - 16 \<and> n \<le> 74")
    case True
    let ?h = "take 20 (drop (16 + 20 * n) inbuf)"
    obtain s1 where "mutex_bucket_lock_by_hash ?h s = Some s1" using mutex_lock_free [OF Suc.prems(2)] by blast
    then obtain t s' as' where r: "scrape_torrent now ?h s as = Some (t, s', as')" "tracker_wf now s'" "bucket_locklist s' = []"
      using scrape_torrent_result [OF Suc.prems(1), of ?h s1 as] Suc.prems(2) by auto
    then obtain out where "return_udp_scrape_for_torrent now ?h s as = Some (out, s', as')" "length out = 12"
      by (simp add: return_udp_scrape_for_torrent_def split: option.split)
    then show ?thesis
      using Suc.hyps(1) [of "n + 1" s' "reply @ out" as'] Suc.hyps(2) Suc.prems r True by (subst udp_scrape_loop.simps) simp
  next
    case False
    then show ?thesis using Suc.prems by (subst udp_scrape_loop.simps) auto
  qed
qed

lemma udp_peer_wf: "length ip = 16 \<Longrightarrow> 98 \<le> length inbuf \<Longrightarrow> peer_wf (udp_peer st ip inbuf)"
  by (simp add: peer_wf_def udp_peer_def Let_def)

lemma length_remove_reply_udp: "8 \<le> length reply \<Longrightarrow> length (remove_reply env FLAG_UDP pl reply) = 20"
  by (simp add: remove_reply_def)

lemma udp_announce_result:
  assumes "tracker_wf (now_minutes env) s" "bucket_locklist s = []" "small_torrents s" "length ip = 16" "98 \<le> length inbuf"
  shows "\<exists>out eff s' as'. udp_announce env st ip inbuf s as = Some (out, eff, s', as') \<and>
    length out \<le> 1220 \<and> tracker_wf (now_minutes env) s' \<and> bucket_locklist s' = []"
proof -
  let ?h = "take 20 (drop 16 inbuf)" and ?p = "udp_peer st ip inbuf" and ?head = "be32 1 @ inpacket inbuf 3"
  have head: "length ?head = 8" using assms(5) by (simp add: inpacket_def)
  have h: "length ?h = 20" using assms(5) by simp
  show ?thesis
  proof (cases "flag_set ?p PEER_FLAG_STOPPED")
    case True
    obtain s1 where l: "mutex_bucket_lock_by_hash ?h s = Some s1" using mutex_lock_free [OF assms(2)] by blast
    obtain pl eff s' where "remove_peer_from_torrent env FLAG_UDP ?h ?p ?head s = Some (remove_reply env FLAG_UDP pl ?head, eff, s')"
      "tracker_wf (now_minutes env) s'" "bucket_locklist s' = []"
      using remove_delete [OF assms(1) l, of env FLAG_UDP ?p ?head] assms(2) by (auto split: option.splits)
    then show ?thesis using True head length_remove_reply_udp [of ?head] by (simp add: udp_announce_def Let_def)
  next
    case False
    define w where "w = (if unat (rd32 (inpacket inbuf 23)) > 200 then 200 else unat (rd32 (inpacket inbuf 23)))"
    have "w \<le> 200" by (simp add: w_def)
    then show ?thesis
      using add_peer_free [OF assms(1) h udp_peer_wf [OF assms(4,5)] assms(2,3), of FLAG_UDP st w as] False head
      by (auto simp: udp_announce_def w_def Let_def)
  qed
qed

lemma handle_udp6_result:
  assumes "tracker_wf (now_minutes env) s" "bucket_locklist s = []" "small_torrents s" "length ip = 16" "length inbuf = 8192"
  shows "\<exists>r. handle_udp6 env random stale_time ip inbuf byte_count s ks as = Some r \<and>
    tracker_wf (now_minutes env) (tracker r) \<and> bucket_locklist (tracker r) = [] \<and>
    length (sent r) \<le> 1 \<and> (\<forall>d \<in> set (sent r). length d \<le> 1220)"
proof -
  let ?c = "connection_id (rijndael_round_key ks) ip"
  have l3: "length (inpacket inbuf 3) = 4" using assms(5) by (simp add: inpacket_def)
  have act: "\<exists>r. udp_action env stale_time ip inbuf byte_count ?c eff s ks' as = Some r \<and>
      tracker_wf (now_minutes env) (tracker r) \<and> bucket_locklist (tracker r) = [] \<and>
      length (sent r) \<le> 1 \<and> (\<forall>d \<in> set (sent r). length d \<le> 1220)" for eff ks'
    using udp_announce_result [OF assms(1-4), of inbuf stale_time as] assms(5,1,2) l3
      udp_scrape_loop_result [OF assms(1,2), of 0 "[]" inbuf byte_count as]
    by (auto simp: udp_action_def Let_def)
  have "length (udp_mismatch_reply inbuf) = 33" using l3 by (simp add: udp_mismatch_reply_def)
  then show ?thesis
    using handle_udp6_eq [of inbuf ks env random stale_time ip byte_count s as] act assms(1,2,5)
    by (auto simp: Let_def)
qed

text \<open>
  C22: Every datagram is handled. With the buckets free and the invariant of the tracker, whatever the 8192 bytes of the receive buffer and the
  number of bytes received are (also the huge value an error of \<^verbatim>\<open>socket_recv6\<close> turns into), the handler comes to an end, keeps the invariant, holds no lock and
  sends at most one datagram, of at most 1220 bytes, so the 8192 bytes of the send buffer are enough.
\<close>

theorem handle_udp6_total:
  assumes "tracker_wf (now_minutes env) s" "bucket_locklist s = []" "small_torrents s" "length ip = 16" "length inbuf = 8192"
  shows "\<exists>r. handle_udp6 env random stale_time ip inbuf byte_count s ks as = Some r \<and>
    tracker_wf (now_minutes env) (tracker r) \<and> bucket_locklist (tracker r) = [] \<and>
    length (sent r) \<le> 1 \<and> (\<forall>d \<in> set (sent r). length d \<le> 1220)"
  by (rule handle_udp6_result [OF assms])

theorem handle_udp6_total_witness:
  "\<exists>r. handle_udp6 (example_env 120) (\<lambda>_. 0) 0 (replicate 16 1) (replicate 8192 0) (-1) example_tracker udp_keys_init [] = Some r \<and>
     tracker_wf 120 (tracker r) \<and> length (sent r) \<le> 1"
  using handle_udp6_total [of "example_env 120" example_tracker "replicate 16 1" "replicate 8192 0" "\<lambda>_. 0" 0 "-1" udp_keys_init "[]"]
    example_tracker_wf(1,2) example_tracker_small by auto

end
