(* ===== verification/OT_Header.thy ===== *)
theory OT_Header
  imports OT_Prelude
begin

text \<open>
  \<^verbatim>\<open>header_complete\<close> of \<^verbatim>\<open>src/opentracker.c\<close>: where the header of a request ends. The loop looks at every second byte only and falls back to a small state
  machine on the last four bytes; it finds the first empty line.
\<close>

section \<open>The scanner\<close>

definition header_state :: "nat \<Rightarrow> byte \<Rightarrow> nat" where
  "header_state state c = drop_bit 2 state OR (push_bit 6 (unat c) AND 0xc0)"

text \<open>The inner loop: Inl is the value returned, Inr the index where the loop ends.\<close>

function header_run :: "bytes \<Rightarrow> nat \<Rightarrow> nat \<Rightarrow> nat + nat" where
  "header_run request i state =
    (if i < length request then
       let c = request ! i in
       if c = 0x0d \<or> c = 0x0a then
         let state = header_state state c in
         if state \<ge> 0xa0 \<or> state = 0x99 then Inl (i + 1) else header_run request (i + 1) state
       else Inr i
     else Inr i)"
  by pat_completeness auto
termination
  by (relation "measure (\<lambda>(request, i, state). length request - i)") auto

declare header_run.simps [simp del]

lemma header_run_ge: "header_run request i state = Inr j \<Longrightarrow> i \<le> j"
proof (induction request i state rule: header_run.induct)
  case (1 request i state)
  then show ?case using header_run.simps [of request i state] by (fastforce simp: Let_def split: if_splits)
qed

text \<open>\<^verbatim>\<open>char\<close> is signed: bytes from 0x80 on are below 13 as well.\<close>

function header_loop :: "bytes \<Rightarrow> nat \<Rightarrow> nat" where
  "header_loop request i =
    (if i < length request then
       if sint (request ! i) \<le> 13 then
         (case header_run request (i - 1) 0 of Inl n \<Rightarrow> n | Inr j \<Rightarrow> header_loop request (j + 2))
       else header_loop request (i + 2)
     else 0)"
  by pat_completeness auto
termination
  by (relation "measure (\<lambda>(request, i). length request - i)") (auto dest: header_run_ge)

declare header_loop.simps [simp del]

definition header_complete :: "bytes \<Rightarrow> nat" where
  "header_complete request = header_loop request 1"

section \<open>It finds the first empty line\<close>

definition header_end :: "bytes \<Rightarrow> bool" where
  "header_end xs \<longleftrightarrow> (\<exists>ys. xs = ys @ [0x0a, 0x0a] \<or> xs = ys @ [0x0d, 0x0a, 0x0d, 0x0a])"

definition newline :: "byte \<Rightarrow> bool" where
  "newline c \<longleftrightarrow> c = 0x0d \<or> c = 0x0a"

lemma or_64: "a < 64 \<Longrightarrow> a OR 64 = a + (64 :: nat)" "a < 64 \<Longrightarrow> a OR 128 = a + (128 :: nat)"
proof -
  assume a: "a < 64"
  have n: "\<not> bit a n" if "6 \<le> n" for n
  proof -
    have "(64 :: nat) \<le> 2 ^ n" using that power_increasing [of 6 n "2 :: nat"] by simp
    then have "a div 2 ^ n = 0" using a by simp
    then show ?thesis by (simp add: bit_iff_odd)
  qed
  have "a AND 2 ^ 6 = 0" "a AND 2 ^ 7 = 0" using n [of 6] n [of 7] by (simp_all only: and_exp_eq_0_iff_not_bit) simp_all
  then show "a OR 64 = a + 64" "a OR 128 = a + 128" using disjunctive_add_eq_or [of a 64] disjunctive_add_eq_or [of a 128] by simp_all
qed

lemma header_state_eq:
  assumes "x < 256" "newline c"
  shows "header_state x c = x div 4 + (if c = 0x0d then 64 else 128)"
proof -
  have "x div 4 < 64" using assms(1) by simp
  then show ?thesis using assms(2) or_64 [of "x div 4"] by (auto simp: header_state_def newline_def drop_bit_eq_div)
qed

definition run_state :: "bytes \<Rightarrow> nat" where
  "run_state = foldl header_state 0"

lemma run_state_snoc: "run_state (r @ [c]) = header_state (run_state r) c"
  by (simp add: run_state_def)

lemma run_state_bound: "\<forall>c \<in> set r. newline c \<Longrightarrow> run_state r < 256"
proof (induction r rule: rev_induct)
  case (snoc c r)
  then have "run_state r < 256" "newline c" by auto
  then show ?case using header_state_eq [of "run_state r" c] by (auto simp: run_state_snoc)
qed (simp add: run_state_def)

definition newline_bits :: "byte \<Rightarrow> nat" where
  "newline_bits c = (if c = 0x0d then 64 else 128)"

lemma run_state_step:
  assumes "\<forall>c \<in> set (r @ [a]). newline c"
  shows "run_state (r @ [a]) = run_state r div 4 + newline_bits a"
  using assms header_state_eq [of "run_state r" a] run_state_bound [of r] by (simp add: run_state_snoc newline_bits_def)

lemma run_state_four:
  assumes "\<forall>c \<in> set (r @ [d, c, b, a]). newline c"
  shows "run_state (r @ [d, c, b, a]) = newline_bits d div 64 + newline_bits c div 16 + newline_bits b div 4 + newline_bits a"
proof -
  have arith: "(((x div 4 + 64 * k) div 4 + 64 * l) div 4 + 64 * m) div 4 + n = k + 4 * l + 16 * m + n" if "x < 256" for x k l m n :: nat
    using that by simp
  have v: "newline_bits c = 64 * (newline_bits c div 64)" for c by (simp add: newline_bits_def)
  have "run_state (r @ [d]) = run_state r div 4 + newline_bits d" using run_state_step [of r d] assms by simp
  moreover have "run_state (r @ [d, c]) = run_state (r @ [d]) div 4 + newline_bits c" using run_state_step [of "r @ [d]" c] assms by simp
  moreover have "run_state (r @ [d, c, b]) = run_state (r @ [d, c]) div 4 + newline_bits b" using run_state_step [of "r @ [d, c]" b] assms by simp
  moreover have "run_state (r @ [d, c, b, a]) = run_state (r @ [d, c, b]) div 4 + newline_bits a" using run_state_step [of "r @ [d, c, b]" a] assms by simp
  ultimately have "run_state (r @ [d, c, b, a]) = (((run_state r div 4 + newline_bits d) div 4 + newline_bits c) div 4 + newline_bits b) div 4 + newline_bits a"
    by (simp only:)
  also have "\<dots> = newline_bits d div 64 + 4 * (newline_bits c div 64) + 16 * (newline_bits b div 64) + newline_bits a"
    using arith [of "run_state r" "newline_bits d div 64" "newline_bits c div 64" "newline_bits b div 64" "newline_bits a"] run_state_bound [of r] assms
    by (simp only: v [symmetric] set_append ball_Un simp_thms) blast
  finally show ?thesis by (simp add: newline_bits_def)
qed

lemma run_state_end:
  assumes "\<forall>c \<in> set r. newline c"
  shows "run_state r \<ge> 0xa0 \<or> run_state r = 0x99 \<longleftrightarrow> header_end r"
proof -
  have four: "run_state (r' @ [d, c, b, a]) \<ge> 0xa0 \<or> run_state (r' @ [d, c, b, a]) = 0x99 \<longleftrightarrow>
      (b = 0x0a \<and> a = 0x0a) \<or> (d = 0x0d \<and> c = 0x0a \<and> b = 0x0d \<and> a = 0x0a)"
    if n: "\<forall>c \<in> set (r' @ [d, c, b, a]). newline c" for r' d c b a
  proof -
    show ?thesis
      unfolding run_state_four [OF n] using n by (auto simp: newline_bits_def newline_def split: if_splits)
  qed
  consider "r = []" | a where "r = [a]" | a b where "r = [b, a]" | a b c where "r = [c, b, a]" | r' d c b a where "r = r' @ [d, c, b, a]"
    by (metis append.assoc append_Cons append_Nil rev_exhaust)
  then show ?thesis
  proof cases
    case (5 r' d c b a)
    have "header_end (r' @ [d, c, b, a]) \<longleftrightarrow> (b = 0x0a \<and> a = 0x0a) \<or> (d = 0x0d \<and> c = 0x0a \<and> b = 0x0d \<and> a = 0x0a)"
    proof -
      have "(r' @ [d, c, b, a] = ys @ [0x0a, 0x0a]) = (r' @ [d, c] = ys \<and> b = 0x0a \<and> a = 0x0a)" for ys
        using append_eq_append_conv [of "[b, a]" "[0x0a, 0x0a]" "r' @ [d, c]" ys] by auto
      moreover have "(r' @ [d, c, b, a] = ys @ [0x0d, 0x0a, 0x0d, 0x0a]) = (r' = ys \<and> d = 0x0d \<and> c = 0x0a \<and> b = 0x0d \<and> a = 0x0a)" for ys
        by auto
      ultimately show ?thesis by (auto simp: header_end_def)
    qed
    then show ?thesis using four [of r' d c b a] assms 5 by blast
  qed (use assms in \<open>auto simp: run_state_def header_end_def newline_def header_state_eq Cons_eq_append_conv append_eq_Cons_conv\<close>)
qed


lemma header_end_run:
  assumes "pre = [] \<or> \<not> newline (last pre)" "r \<noteq> []"
  shows "header_end (pre @ r) \<longleftrightarrow> header_end r"
proof
  assume "header_end (pre @ r)"
  then obtain ys e where e: "pre @ r = ys @ e" "e = [0x0a, 0x0a] \<or> e = [0x0d, 0x0a, 0x0d, 0x0a]" by (auto simp: header_end_def)
  have nl: "\<forall>c \<in> set e. newline c" using e(2) by (auto simp: newline_def)
  from e(1) consider us where "ys = pre @ us" "r = us @ e" | us where "us \<noteq> []" "pre = ys @ us" "e = us @ r"
    by (cases "length pre \<le> length ys") (auto simp: append_eq_append_conv2)
  then show "header_end r"
  proof cases
    case 1
    then show ?thesis using e(2) by (auto simp: header_end_def)
  next
    case 2
    then have "last pre \<in> set e" by simp
    then show ?thesis using assms(1) nl 2 by auto
  qed
next
  assume "header_end r"
  then show "header_end (pre @ r)" by (metis append.assoc header_end_def)
qed

text \<open>What the inner loop finds, started at the beginning of a run of line ends.\<close>

definition no_end :: "bytes \<Rightarrow> nat \<Rightarrow> bool" where
  "no_end req k \<longleftrightarrow> (\<forall>m \<le> k. \<not> header_end (take m req))"

lemma header_run_spec:
  assumes "req = pre @ r @ rest" "pre = [] \<or> \<not> newline (last pre)" "\<forall>c \<in> set r. newline c" "no_end req (length (pre @ r))"
  shows "case header_run req (length (pre @ r)) (run_state r) of
      Inl n \<Rightarrow> n \<le> length req \<and> header_end (take n req) \<and> no_end req (n - 1)
    | Inr j \<Rightarrow> no_end req j \<and> (j < length req \<longrightarrow> \<not> newline (req ! j))"
  using assms(1,3,4)
proof (induction rest arbitrary: r)
  case Nil
  then show ?case by (subst header_run.simps) simp
next
  case (Cons c rest)
  let ?i = "length (pre @ r)"
  have c: "?i < length req" "req ! ?i = c" using Cons.prems(1) by (simp_all add: nth_append)
  show ?case
  proof (cases "newline c")
    case False
    then show ?thesis using c Cons.prems(3) by (subst header_run.simps) (simp add: newline_def)
  next
    case True
    have nl: "\<forall>c \<in> set (r @ [c]). newline c" using Cons.prems(2) True by simp
    have tk: "take (?i + 1) req = pre @ (r @ [c])" using Cons.prems(1) by simp
    then have e: "header_end (take (?i + 1) req) \<longleftrightarrow> header_end (r @ [c])"
      using header_end_run [OF assms(2), of "r @ [c]"] by simp
    have st: "header_state (run_state r) c = run_state (r @ [c])" by (simp add: run_state_snoc)
    show ?thesis
    proof (cases "header_end (r @ [c])")
      case True
      then have "header_run req ?i (run_state r) = Inl (?i + 1)"
        using run_state_end [OF nl] c \<open>newline c\<close> by (subst header_run.simps) (simp add: newline_def Let_def st)
      then show ?thesis using True e c(1) Cons.prems(3) by simp
    next
      case False
      then have run: "header_run req ?i (run_state r) = header_run req (length (pre @ (r @ [c]))) (run_state (r @ [c]))"
        using run_state_end [OF nl] c \<open>newline c\<close> by (subst header_run.simps) (simp add: newline_def Let_def st)
      have "no_end req (length (pre @ (r @ [c])))"
        using Cons.prems(3) False e by (auto simp: no_end_def le_Suc_eq)
      from Cons.IH [OF _ nl this] Cons.prems(1) show ?thesis unfolding run by simp
    qed
  qed
qed

lemma no_end_step:
  assumes "no_end req k" "k < length req" "\<not> newline (req ! k)"
  shows "no_end req (k + 2)"
proof -
  have "\<not> header_end (take m req)" if m: "k < m" "m \<le> k + 2" for m
  proof
    assume "header_end (take m req)"
    then obtain ys e where e: "take m req = ys @ e" "e = [0x0a, 0x0a] \<or> e = [0x0d, 0x0a, 0x0d, 0x0a]" by (auto simp: header_end_def)
    then have le: "length ys + length e = min m (length req)" by (metis length_append length_take min.commute)
    have "k = length ys + (k - length ys)" "k - length ys < length e" using le e(2) m assms(2) by auto
    then have "req ! k = e ! (k - length ys)" using e(1) m by (metis nth_append_length_plus nth_take)
    then have "req ! k \<in> set e" using \<open>k - length ys < length e\<close> by simp
    then show False using e(2) assms(3) by (auto simp: newline_def)
  qed
  then show ?thesis using assms(1) by (meson no_end_def not_le)
qed


definition header_result :: "bytes \<Rightarrow> nat \<Rightarrow> bool" where
  "header_result req n \<longleftrightarrow> (if n = 0 then no_end req (length req) else n \<le> length req \<and> header_end (take n req) \<and> no_end req (n - 1))"

lemma header_loop_spec:
  assumes "1 \<le> i" "i = 1 \<or> (i \<le> length req + 1 \<longrightarrow> \<not> newline (req ! (i - 2)))" "no_end req (min i (length req))"
  shows "header_result req (header_loop req i)"
  using assms
proof (induction "length req - i" arbitrary: i rule: less_induct)
  case less
  show ?case
  proof (cases "i < length req")
    case False
    then have "header_loop req i = 0" by (subst header_loop.simps) simp
    then show ?thesis using less.prems(3) False by (simp add: min_absorb2 header_result_def)
  next
    case True
    have i: "no_end req i" "i = 1 \<or> \<not> newline (req ! (i - 2))" using less.prems True by auto
    show ?thesis
    proof (cases "sint (req ! i) \<le> 13")
      case False
      then have "\<not> newline (req ! i)" by (auto simp: newline_def)
      then have ne: "no_end req (i + 2)" using no_end_step [OF i(1) True] by simp
      have "header_loop req i = header_loop req (i + 2)" using True False by (subst header_loop.simps) simp
      moreover have "no_end req (min (i + 2) (length req))" using ne by (simp add: no_end_def)
      ultimately show ?thesis using less.hyps [of "i + 2"] True \<open>\<not> newline (req ! i)\<close> by simp
    next
      case small: True
      let ?pre = "take (i - 1) req" and ?rest = "drop (i - 1) req"
      have lp: "length ?pre = i - 1" using True by simp
      have last: "?pre = [] \<or> \<not> newline (last ?pre)"
      proof (cases "i = 1")
        case False
        then have "last ?pre = req ! (i - 2)" using True less.prems(1) lp last_conv_nth [of ?pre] by (cases req) (auto simp: numeral_2_eq_2)
        then show ?thesis using i(2) False by simp
      qed simp
      have "no_end req (length (?pre @ []))" using i(1) lp by (auto simp: no_end_def)
      from header_run_spec [of req ?pre "[]" ?rest, OF _ last _ this]
      have run: "case header_run req (i - 1) 0 of
          Inl n \<Rightarrow> n \<le> length req \<and> header_end (take n req) \<and> no_end req (n - 1)
        | Inr j \<Rightarrow> no_end req j \<and> (j < length req \<longrightarrow> \<not> newline (req ! j))"
        using lp by (simp add: run_state_def)
      show ?thesis
      proof (cases "header_run req (i - 1) 0")
        case (Inl n)
        have "header_loop req i = n" using True small Inl by (subst header_loop.simps) simp
        moreover have e: "header_end (take n req)" using run Inl by simp
        moreover from e have "n \<noteq> 0" by (cases "n = 0") (simp_all add: header_end_def)
        ultimately show ?thesis using run Inl by (simp add: header_result_def)
      next
        case (Inr j)
        have "i - 1 \<le> j" using header_run_ge [OF Inr] .
        have loop: "header_loop req i = header_loop req (j + 2)" using True small Inr by (subst header_loop.simps) simp
        have j: "no_end req j" "j < length req \<longrightarrow> \<not> newline (req ! j)" using run Inr by auto
        show ?thesis
        proof (cases "j < length req")
          case True
          then have "no_end req (min (j + 2) (length req))" using no_end_step [OF j(1)] j(2) by (simp add: no_end_def)
          then show ?thesis unfolding loop using less.hyps [of "j + 2"] j(2) True \<open>i - 1 \<le> j\<close> \<open>i < length req\<close> by simp
        next
          case False
          then have "header_loop req (j + 2) = 0" by (subst header_loop.simps) simp
          then show ?thesis unfolding loop using j(1) False by (simp add: no_end_def header_result_def)
        qed
      qed
    qed
  qed
qed

lemma header_complete_result: "header_result request (header_complete request)"
proof -
  have "header_end xs \<Longrightarrow> 2 \<le> length xs" for xs by (auto simp: header_end_def)
  then have "no_end request (min 1 (length request))" by (fastforce simp: no_end_def)
  then show ?thesis using header_loop_spec [of 1 request] by (simp add: header_complete_def)
qed

text \<open>
  C31: The end of the header is found. \<^verbatim>\<open>header_complete\<close>, which looks at every second byte, returns the length of the shortest
  prefix that ends with an empty line, written as two line feeds or as two pairs of carriage return and line feed, and 0 when there is none.
\<close>
theorem header_complete_correct:
  "header_complete request = (case find (\<lambda>n. header_end (take n request)) [0..<length request + 1] of None \<Rightarrow> 0 | Some n \<Rightarrow> n)"
proof -
  note spec = header_complete_result [of request]
  show ?thesis
  proof (cases "header_complete request = 0")
    case True
    then have "find (\<lambda>n. header_end (take n request)) [0..<length request + 1] = None"
      using spec by (auto simp: no_end_def header_result_def find_None_iff)
    then show ?thesis using True by simp
  next
    case False
    let ?n = "header_complete request"
    have c: "header_end (take ?n request)" "no_end request (?n - 1)" "?n \<le> length request"
      using spec False by (auto simp: header_result_def)
    have "[0..<length request + 1] ! ?n = ?n" using c(3) by (simp del: upt_Suc)
    moreover have "\<not> header_end (take ([0..<length request + 1] ! j) request)" if "j < ?n" for j
      using c(2,3) that by (auto simp: no_end_def simp del: upt_Suc)
    ultimately have "find (\<lambda>n. header_end (take n request)) [0..<length request + 1] = Some ?n"
      using c(1,3) by (subst find_Some_iff) (auto intro!: exI [of _ ?n] simp del: upt_Suc)
    then show ?thesis by simp
  qed
qed

end
