(* ===== verification/OT_Main.thy ===== *)
theory OT_Main
  imports OT_Udp OT_HttpParse OT_Header
begin

text \<open>
  The event loop of \<^verbatim>\<open>src/opentracker.c\<close>: connections are accepted, read, answered, written and closed, datagrams are handled and the results of the
  workers are sent. What the kernel and libowfat's io layer report (which socket is ready, the bytes read, how many bytes a \<^verbatim>\<open>write\<close> took) are the events of the model.
\<close>

section \<open>Connections\<close>

text \<open>
  The state of the process that the loop works on: the tracker, the task queue, the keys of the UDP front end and the cookie of every open connection. The flag
  \<^verbatim>\<open>ws.keep_alive\<close> is only ever cleared in the default build and is taken to be clear.
\<close>

record server =
  srv_tracker :: bucket_state
  srv_tasks :: task_state
  srv_keys :: udp_keys
  srv_conns :: "int \<Rightarrow> http_data option"

definition server_init :: server where
  "server_init = \<lparr>srv_tracker = mutex_init, srv_tasks = task_init, srv_keys = udp_keys_init, srv_conns = (\<lambda>_. None)\<rparr>"

definition set_conn :: "int \<Rightarrow> http_data option \<Rightarrow> server \<Rightarrow> server" where
  "set_conn fd c srv = srv\<lparr>srv_conns := (srv_conns srv)(fd := c)\<rparr>"

definition handle_dead :: "int \<Rightarrow> server \<Rightarrow> server" where
  "handle_dead fd srv =
    (let srv' = (case srv_conns srv fd of
                   Some c \<Rightarrow> if hd_flag c AND STRUCT_HTTP_FLAG_WAITINGFORTASK \<noteq> 0
                             then srv\<lparr>srv_tasks := mutex_workqueue_canceltask fd (srv_tasks srv)\<rparr> else srv
                 | None \<Rightarrow> srv) in
     set_conn fd None srv')"

text \<open>
  What the handlers read besides their arguments: the configuration, the environment of the tracker, the texts of the simple statistics, the old contents of the
  work buffer and of \<^verbatim>\<open>ws->peer\<close>, what \<^verbatim>\<open>write\<close> takes of a packet, the answer of \<^verbatim>\<open>malloc\<close> and of \<^verbatim>\<open>random()\<close>.
\<close>

record main_env =
  e_conf :: http_conf
  e_env :: tenv
  e_stats :: "int \<Rightarrow> bytes"
  e_stale :: byte
  e_outbuf :: bytes
  e_written :: "bytes \<Rightarrow> int"
  e_ok :: bool
  e_random :: "nat \<Rightarrow> u32"

text \<open>
  \<^verbatim>\<open>http_handle_request\<close> on a connection: a deferred statistics request is queued for the worker (\<^verbatim>\<open>stats_deliver\<close>).
\<close>

definition serve_request :: "main_env \<Rightarrow> int \<Rightarrow> bytes \<Rightarrow> nat \<Rightarrow> http_data \<Rightarrow> server \<Rightarrow> allocs \<Rightarrow> (server \<times> effect list \<times> allocs) option" where
  "serve_request me fd req header_size c srv as =
    map_option (\<lambda>(res, c', ka, eff, tr, as').
      (set_conn fd c'
         (srv\<lparr>srv_tracker := tr,
              srv_tasks := (case res of Deferred task \<Rightarrow> fst (mutex_workqueue_pushtask (e_ok me) fd (of_int task) (srv_tasks srv)) | _ \<Rightarrow> srv_tasks srv)\<rparr>),
       eff, as'))
      (http_handle_request (e_conf me) (e_env me) (e_stats me) (e_stale me) (e_written me) (e_ok me) (e_outbuf me) req header_size False c (srv_tracker srv) as)"

text \<open>
  \<^verbatim>\<open>handle_read\<close>: \<^verbatim>\<open>byte_count\<close> and \<^verbatim>\<open>data\<close> are what \<^verbatim>\<open>io_tryread\<close> delivers. The request buffer of a connection is allocated exactly when it is not empty.
  A socket without cookie never comes here; the code would follow a null pointer.
\<close>

definition handle_read :: "main_env \<Rightarrow> int \<Rightarrow> int \<Rightarrow> bytes \<Rightarrow> server \<Rightarrow> allocs \<Rightarrow> (server \<times> effect list \<times> allocs) option" where
  "handle_read me fd byte_count data srv as =
    (if byte_count \<le> 0 then Some (handle_dead fd srv, [], as)
     else
       case srv_conns srv fd of
         None \<Rightarrow> None
       | Some c \<Rightarrow>
           if hd_request c = [] then
             let header_size = header_complete data in
             if header_size \<noteq> 0 then serve_request me fd data header_size c srv as
             else Some (set_conn fd (Some (c\<lparr>hd_request := data\<rparr>)) srv, [], as)
           else
             let req = hd_request c @ data; c = c\<lparr>hd_request := req\<rparr> in
             if length req > 8192 then
               let url = (case redirecturl (e_conf me) of None \<Rightarrow> [] | Some url \<Rightarrow> url); p = http_issue_error url CODE_HTTPERROR_500 in
               Some (set_conn fd (http_senddata False [] 0 p (e_written me p) (e_ok me) c) srv,
                     [stats_event EVENT_FAILED FLAG_TCP (code_number CODE_HTTPERROR_500)], as)
             else
               let header_size = header_complete req in
               if header_size \<noteq> 0 then serve_request me fd req header_size c srv as
               else Some (set_conn fd (Some c) srv, [], as))"

text \<open>\<^verbatim>\<open>iob_send\<close> reports how many bytes of the batch went out.\<close>

fun iob_drop :: "nat \<Rightarrow> bytes list \<Rightarrow> bytes list" where
  "iob_drop n [] = []"
| "iob_drop n (b # bs) = (if length b \<le> n then iob_drop (n - length b) bs else drop n b # bs)"

definition handle_write :: "int \<Rightarrow> int \<Rightarrow> server \<Rightarrow> server" where
  "handle_write fd n srv =
    (case srv_conns srv fd of
       None \<Rightarrow> handle_dead fd srv
     | Some c \<Rightarrow>
         if n \<le> 0 then handle_dead fd srv
         else set_conn fd (Some (c\<lparr>hd_batch := iob_drop (nat n) (hd_batch c)\<rparr>)) srv)"

definition handle_accept :: "bool \<Rightarrow> int \<Rightarrow> bytes \<Rightarrow> server \<Rightarrow> server \<times> effect list" where
  "handle_accept ok fd ip srv =
    (if \<not> ok then (srv, [])
     else (set_conn fd (Some \<lparr>hd_request = [], hd_batch = [], hd_ip = ip, hd_flag = 0, hd_want_read = True, hd_want_write = False\<rparr>) srv,
           [stats_event EVENT_ACCEPT FLAG_TCP 0]))"

section \<open>The loop\<close>

text \<open>
  What \<^verbatim>\<open>server_mainloop\<close> does next. The workers run in threads of their own; to the loop they are tasks that are taken and answered.
\<close>

datatype event =
    Accept int bytes
  | Readable int int bytes
  | Datagram bytes bytes size_t
  | Writable int int
  | TimedOut int
  | PopResult
  | WorkerPop u32
  | WorkerDone size_t "bytes list"

definition send_result :: "main_env \<Rightarrow> server \<Rightarrow> server" where
  "send_result me srv =
    (case mutex_workqueue_popresult (srv_tasks srv) of (tasks, fd, iov) \<Rightarrow>
       if fd = -1 then srv\<lparr>srv_tasks := tasks\<rparr>
       else
         let srv = srv\<lparr>srv_tasks := tasks\<rparr> in
         case http_sendiovecdata (e_ok me) iov (srv_conns srv fd) of
           Inr c \<Rightarrow> set_conn fd (Some c) srv
         | Inl (code, None) \<Rightarrow> srv
         | Inl (code, Some c) \<Rightarrow>
             let url = (case redirecturl (e_conf me) of None \<Rightarrow> [] | Some url \<Rightarrow> url); p = http_issue_error url code in
             set_conn fd (http_senddata False [] 0 p (e_written me p) (e_ok me) c) srv)"

fun server_step :: "main_env \<Rightarrow> event \<Rightarrow> server \<Rightarrow> allocs \<Rightarrow> (server \<times> effect list \<times> allocs) option" where
  "server_step me (Accept fd ip) srv as = Some (case handle_accept (e_ok me) fd ip srv of (srv', eff) \<Rightarrow> (srv', eff, as))"
| "server_step me (Readable fd n data) srv as = handle_read me fd n data srv as"
| "server_step me (Datagram ip inbuf n) srv as =
    map_option (\<lambda>r. (srv\<lparr>srv_tracker := tracker r, srv_keys := keys r\<rparr>, events r, answers r))
      (handle_udp6 (e_env me) (e_random me) (e_stale me) ip inbuf n (srv_tracker srv) (srv_keys srv) as)"
| "server_step me (Writable fd n) srv as = Some (handle_write fd n srv, [], as)"
| "server_step me (TimedOut fd) srv as = Some (handle_dead fd srv, [], as)"
| "server_step me PopResult srv as = Some (send_result me srv, [], as)"
| "server_step me (WorkerPop c) srv as =
    Some (case mutex_workqueue_poptask c (srv_tasks srv) of None \<Rightarrow> srv | Some (tasks, tid, ty) \<Rightarrow> srv\<lparr>srv_tasks := tasks\<rparr>, [], as)"
| "server_step me (WorkerDone tid iov) srv as =
    Some (srv\<lparr>srv_tasks := fst (mutex_workqueue_pushresult tid iov (srv_tasks srv))\<rparr>, [], as)"

section \<open>Requests in pieces\<close>

definition emit :: "effect list \<Rightarrow> (server \<times> effect list \<times> allocs) option \<Rightarrow> (server \<times> effect list \<times> allocs) option" where
  "emit eff = map_option (\<lambda>(srv, eff', as). (srv, eff @ eff', as))"

lemma emit_simps [simp]: "emit [] r = r" "emit eff (emit eff' r) = emit (eff @ eff') r" "emit eff None = None"
  "emit eff (Some (srv, eff', as)) = Some (srv, eff @ eff', as)"
  by (cases r; auto simp: emit_def)+

fun feed :: "main_env \<Rightarrow> int \<Rightarrow> bytes list \<Rightarrow> server \<Rightarrow> allocs \<Rightarrow> (server \<times> effect list \<times> allocs) option" where
  "feed me fd [] srv as = Some (srv, [], as)"
| "feed me fd (d # ds) srv as =
    (case server_step me (Readable fd (int (length d)) d) srv as of
       None \<Rightarrow> None
     | Some (srv', eff, as') \<Rightarrow> emit eff (feed me fd ds srv' as'))"

lemma feed_append:
  "feed me fd (ds @ es) srv as =
    (case feed me fd ds srv as of
       None \<Rightarrow> None
     | Some (srv', eff, as') \<Rightarrow> emit eff (feed me fd es srv' as'))"
  by (induction ds arbitrary: srv as) (auto split: option.splits)

lemma header_incomplete_prefix:
  assumes "header_complete (xs @ ys) = 0"
  shows "header_complete xs = 0"
proof (rule ccontr)
  assume "header_complete xs \<noteq> 0"
  then have "header_end (take (header_complete xs) (xs @ ys))" "header_complete xs \<le> length (xs @ ys)"
    using header_complete_result [of xs] by (auto simp: header_result_def)
  then show False using header_complete_result [of "xs @ ys"] assms by (auto simp: header_result_def no_end_def)
qed

lemma set_conn_simps [simp]:
  "srv_conns (set_conn fd c srv) = (srv_conns srv)(fd := c)" "srv_tracker (set_conn fd c srv) = srv_tracker srv"
  "srv_tasks (set_conn fd c srv) = srv_tasks srv" "srv_keys (set_conn fd c srv) = srv_keys srv"
  "set_conn fd c (set_conn fd c' srv) = set_conn fd c srv"
  by (simp_all add: set_conn_def)

lemma feed_incomplete:
  assumes "srv_conns srv fd = Some c" "hd_request c = []" "ds \<noteq> []" "\<forall>d \<in> set ds. d \<noteq> []" "header_complete (concat ds) = 0" "length (concat ds) \<le> 8192"
  shows "feed me fd ds srv as = Some (set_conn fd (Some (c\<lparr>hd_request := concat ds\<rparr>)) srv, [], as)"
  using assms(3-)
proof (induction ds rule: rev_nonempty_induct)
  case (single d)
  then show ?case using assms(1,2) by (simp add: handle_read_def)
next
  case (snoc d ds)
  have "header_complete (concat ds) = 0" using header_incomplete_prefix snoc.prems(2) by simp
  then have "feed me fd ds srv as = Some (set_conn fd (Some (c\<lparr>hd_request := concat ds\<rparr>)) srv, [], as)" using snoc by simp
  moreover have "concat ds \<noteq> []" using snoc.hyps snoc.prems(1) by (cases ds) auto
  ultimately show ?case using snoc.prems by (simp add: feed_append handle_read_def Let_def)
qed


definition example_menv :: main_env where
  "example_menv = \<lparr>e_conf = example_conf, e_env = example_env 120, e_stats = (\<lambda>_. []), e_stale = 0, e_outbuf = replicate 8192 0,
     e_written = (\<lambda>p. int (length p)), e_ok = True, e_random = (\<lambda>_. 0)\<rparr>"

definition example_server :: server where
  "example_server = \<lparr>srv_tracker = example_tracker, srv_tasks = task_init, srv_keys = udp_keys_init, srv_conns = [5 \<mapsto> example_connection]\<rparr>"

lemma example_pieces: "header_complete [0x47, 0x0d, 0x0a] = 0" "header_complete [0x47, 0x0d, 0x0a, 0x0d, 0x0a] = 5"
  by code_simp+


section \<open>The server keeps serving\<close>

text \<open>
  The invariant of the loop: the tracker is well-formed at the time on the clock, no bucket is held between two events and every connection has an address
  and at most 8192 bytes of an unfinished request.
\<close>

definition conn_ok :: "http_data \<Rightarrow> bool" where
  "conn_ok c \<longleftrightarrow> length (hd_ip c) = 16 \<and> length (hd_request c) \<le> 8192"

definition server_inv :: "int \<Rightarrow> server \<Rightarrow> bool" where
  "server_inv now srv \<longleftrightarrow> tracker_wf now (srv_tracker srv) \<and> bucket_locklist (srv_tracker srv) = [] \<and>
    (\<forall>fd c. srv_conns srv fd = Some c \<longrightarrow> conn_ok c)"

definition env_ok :: "int \<Rightarrow> main_env \<Rightarrow> bool" where
  "env_ok now me \<longleftrightarrow> now_minutes (e_env me) = now \<and> length (e_outbuf me) = 8192 \<and> (\<forall>mode. length (e_stats me mode) \<le> 8112)"

text \<open>
  What the io layer can report: a read delivers at most the size of the receive buffer, from an open connection. A request with the escape \<^verbatim>\<open>%00\<close> is left out, for
  it the comparison of parameter names can read past the end of a key.
\<close>

fun event_ok :: "server \<Rightarrow> event \<Rightarrow> bool" where
  "event_ok srv (Accept fd ip) \<longleftrightarrow> length ip = 16"
| "event_ok srv (Readable fd n data) \<longleftrightarrow>
    n \<le> 0 \<or> n = int (length data) \<and> length data \<le> 8192 \<and> (case srv_conns srv fd of None \<Rightarrow> False | Some c \<Rightarrow> no_nul_escape (hd_request c @ data))"
| "event_ok srv (Datagram ip inbuf n) \<longleftrightarrow> length ip = 16 \<and> length inbuf = 8192"
| "event_ok srv _ \<longleftrightarrow> True"

lemma server_inv_set_conn:
  "server_inv now srv \<Longrightarrow> (\<forall>c'. c = Some c' \<longrightarrow> conn_ok c') \<Longrightarrow> server_inv now (set_conn fd c srv)"
  by (auto simp: server_inv_def)

lemma server_inv_tasks: "server_inv now (srv\<lparr>srv_tasks := ts\<rparr>) \<longleftrightarrow> server_inv now srv"
  by (simp add: server_inv_def)

lemma server_inv_dead: "server_inv now srv \<Longrightarrow> server_inv now (handle_dead fd srv)"
  by (auto simp: handle_dead_def Let_def server_inv_tasks split: option.split intro!: server_inv_set_conn)

lemma conn_ok_senddata:
  assumes "http_senddata False req h p n ok c = Some c'" "length (hd_ip c) = 16"
  shows "conn_ok c'"
  using assms by (auto simp: http_senddata_def Let_def conn_ok_def split: if_splits)

lemma conn_ok_sendiovecdata:
  assumes "http_sendiovecdata ok iov (Some c) = Inr c' \<or> http_sendiovecdata ok iov (Some c) = Inl (code, Some c')" "conn_ok c"
  shows "conn_ok c'"
  using assms by (auto simp: http_sendiovecdata_def conn_ok_def Let_def split: if_splits)

lemma serve_request_result:
  assumes inv: "server_inv now srv" and env: "env_ok now me" and small: "small_torrents (srv_tracker srv)"
    and req: "header_complete req \<noteq> 0" "no_nul_escape req" "length req \<le> 16384" and c: "conn_ok c"
  shows "\<exists>srv' eff as'. serve_request me fd req h c srv as = Some (srv', eff, as') \<and> server_inv now srv'"
proof -
  have "header_end (take (header_complete req) req)" using header_complete_result [of req] req(1) by (simp add: header_result_def)
  then have "0x0a \<in> set (take (header_complete req) req)" by (auto simp: header_end_def)
  then have nl: "0x0a \<in> set req" by (rule in_set_takeD)
  have i: "tracker_wf (now_minutes (e_env me)) (srv_tracker srv)" "bucket_locklist (srv_tracker srv) = []" "length (hd_ip c) = 16"
      "length req < 2 ^ 63" "\<forall>mode. length (e_stats me mode) \<le> 8112"
    using inv env c req(3) by (auto simp: server_inv_def env_ok_def conn_ok_def)
  obtain res eff tr as' where d: "http_dispatch (e_conf me) (e_env me) (e_stats me) (e_stale me) (hd_ip c) req (srv_tracker srv) as = Some (res, eff, tr, as')"
      "tracker_wf now tr" "bucket_locklist tr = []"
    using http_dispatch_ends [OF i(1,2) small i(3) nl req(2) i(4,5)] env unfolding handled_def env_ok_def by blast
  obtain packet ka_send ka eff' where f: "http_finish (e_conf me) (e_outbuf me) False res = (packet, ka_send, ka, eff')" by (metis prod_cases4)
  then have "\<not> ka_send" by (auto simp: http_finish_def Let_def split: http_result.splits if_splits)
  define c' where "c' = (case packet of None \<Rightarrow> Some c | Some p \<Rightarrow> http_senddata ka_send req h p (e_written me p) (e_ok me) c)"
  have "conn_ok d" if "c' = Some d" for d
    using that conn_ok_senddata i(3) c \<open>\<not> ka_send\<close> by (auto simp: c'_def split: option.splits)
  then have inv': "server_inv now (set_conn fd c' (srv\<lparr>srv_tracker := tr, srv_tasks := ts\<rparr>))" for ts
    using inv d(2,3) by (auto simp: server_inv_def)
  have "http_handle_request (e_conf me) (e_env me) (e_stats me) (e_stale me) (e_written me) (e_ok me) (e_outbuf me) req h False c (srv_tracker srv) as =
      Some (res, c', ka, eff @ eff', tr, as')"
    using d(1) f by (simp add: http_handle_request_def c'_def)
  then show ?thesis using inv' by (simp add: serve_request_def)
qed

lemma handle_read_result:
  assumes inv: "server_inv now srv" and env: "env_ok now me" and small: "small_torrents (srv_tracker srv)" and ev: "event_ok srv (Readable fd n data)"
  shows "\<exists>srv' eff as'. handle_read me fd n data srv as = Some (srv', eff, as') \<and> server_inv now srv'"
proof (cases "n \<le> 0")
  case True
  then show ?thesis using server_inv_dead [OF inv] by (simp add: handle_read_def)
next
  case False
  then obtain c where c: "srv_conns srv fd = Some c" "no_nul_escape (hd_request c @ data)" "length data \<le> 8192"
    using ev by (auto split: option.splits)
  then have ok: "conn_ok c" using inv by (simp add: server_inv_def)
  let ?c = "c\<lparr>hd_request := hd_request c @ data\<rparr>"
  consider (first) "hd_request c = []" | (long) "hd_request c \<noteq> []" "length (hd_request c @ data) > 8192"
    | (more) "hd_request c \<noteq> []" "length (hd_request c @ data) \<le> 8192" by linarith
  then show ?thesis
  proof cases
    case first
    have "server_inv now (set_conn fd (Some (c\<lparr>hd_request := data\<rparr>)) srv)"
      using server_inv_set_conn [OF inv] ok c(3) by (simp add: conn_ok_def)
    then show ?thesis
      using first False c serve_request_result [OF inv env small _ _ _ ok, of data] by (simp add: handle_read_def Let_def)
  next
    case long
    then show ?thesis using False c(1) ok server_inv_set_conn [OF inv] conn_ok_senddata
      by (auto simp: handle_read_def Let_def conn_ok_def)
  next
    case more
    have "conn_ok ?c" using more ok by (simp add: conn_ok_def)
    then show ?thesis
      using more False c server_inv_set_conn [OF inv, of "Some ?c" fd] serve_request_result [OF inv env small _ c(2), of ?c fd "header_complete (hd_request c @ data)" as]
      by (auto simp: handle_read_def Let_def)
  qed
qed

lemma send_result_inv:
  assumes inv: "server_inv now srv"
  shows "server_inv now (send_result me srv)"
proof -
  obtain ts fd iov where pop: "mutex_workqueue_popresult (srv_tasks srv) = (ts, fd, iov)" by (metis prod_cases3)
  let ?srv = "srv\<lparr>srv_tasks := ts\<rparr>"
  have i: "server_inv now ?srv" using inv by (simp add: server_inv_tasks)
  show ?thesis
  proof (cases "srv_conns srv fd")
    case None
    then show ?thesis using i pop by (simp add: send_result_def http_sendiovecdata_def Let_def)
  next
    case (Some c)
    then have "conn_ok c" using inv by (simp add: server_inv_def)
    have *: "server_inv now (set_conn fd c'' ?srv)" if "\<forall>d. c'' = Some d \<longrightarrow> conn_ok d" for c'' using server_inv_set_conn [OF i] that by blast
    show ?thesis
    proof (cases "http_sendiovecdata (e_ok me) iov (Some c)")
      case (Inr c')
      then have "conn_ok c'" using conn_ok_sendiovecdata \<open>conn_ok c\<close> by blast
      then show ?thesis using Inr i pop Some * by (simp add: send_result_def Let_def)
    next
      case (Inl x)
      obtain code c' where x: "x = (code, c')" by fastforce
      have "length (hd_ip d) = 16" if "c' = Some d" for d
        using conn_ok_sendiovecdata [OF disjI2 [OF Inl [unfolded x that]] \<open>conn_ok c\<close>] by (simp add: conn_ok_def)
      then show ?thesis using Inl x i pop Some * conn_ok_senddata by (auto simp: send_result_def Let_def split: option.split)
    qed
  qed
qed

lemma server_step_result:
  assumes inv: "server_inv now srv" and env: "env_ok now me" and small: "small_torrents (srv_tracker srv)" and ev: "event_ok srv ev"
  shows "\<exists>srv' eff as'. server_step me ev srv as = Some (srv', eff, as') \<and> server_inv now srv'"
proof (cases ev)
  case (Accept fd ip)
  then show ?thesis using ev inv by (auto simp: handle_accept_def conn_ok_def intro!: server_inv_set_conn)
next
  case (Readable fd n data)
  then show ?thesis using handle_read_result [OF inv env small] ev by simp
next
  case (Datagram ip inbuf n)
  then have l: "length ip = 16" "length inbuf = 8192" using ev by auto
  have i: "tracker_wf (now_minutes (e_env me)) (srv_tracker srv)" "bucket_locklist (srv_tracker srv) = []"
    using inv env by (auto simp: server_inv_def env_ok_def)
  obtain r where "handle_udp6 (e_env me) (e_random me) (e_stale me) ip inbuf n (srv_tracker srv) (srv_keys srv) as = Some r"
      "tracker_wf (now_minutes (e_env me)) (tracker r)" "bucket_locklist (tracker r) = []"
    using handle_udp6_result [OF i small l] by blast
  then show ?thesis using Datagram inv env by (auto simp: server_inv_def env_ok_def)
next
  case (Writable fd n)
  have "server_inv now (handle_write fd n srv)"
    using inv server_inv_dead [OF inv] by (auto simp: handle_write_def server_inv_def conn_ok_def split: option.split)
  then show ?thesis using Writable by simp
next
  case (TimedOut fd)
  then show ?thesis using server_inv_dead [OF inv] by simp
next
  case PopResult
  then show ?thesis using send_result_inv [OF inv] by simp
next
  case (WorkerPop c)
  then show ?thesis using inv by (auto simp: server_inv_tasks split: option.split prod.split)
next
  case (WorkerDone tid iov)
  then show ?thesis using inv by (simp add: server_inv_tasks)
qed

text \<open>
  The states a running tracker goes through: the loop handles events, the clock advances, the cleaning thread takes a bucket between two events. No torrent ever
  has a thousand million peers.
\<close>

inductive serving :: "int \<Rightarrow> server \<Rightarrow> bool" where
  start: "serving now server_init"
| clock: "serving now srv \<Longrightarrow> now \<le> now' \<Longrightarrow> serving now' srv"
| clean: "serving now srv \<Longrightarrow> b < OT_BUCKET_COUNT \<Longrightarrow> clean_worker_bucket now b (srv_tracker srv) as = Some (tr, as') \<Longrightarrow>
    serving now (srv\<lparr>srv_tracker := tr\<rparr>)"
| event: "serving now srv \<Longrightarrow> env_ok now me \<Longrightarrow> event_ok srv ev \<Longrightarrow> small_torrents (srv_tracker srv) \<Longrightarrow>
    server_step me ev srv as = Some (srv', eff, as') \<Longrightarrow> serving now srv'"

lemma tracker_wf_mono: "tracker_wf now s \<Longrightarrow> now \<le> now' \<Longrightarrow> tracker_wf now' s"
  by (auto simp: tracker_wf_def torrent_ok_def)

lemma serving_inv: "serving now srv \<Longrightarrow> server_inv now srv"
proof (induction rule: serving.induct)
  case (start now)
  show ?case using tracker_wf_init by (simp add: server_inv_def server_init_def mutex_init_def)
next
  case (clock now srv now')
  then show ?case using tracker_wf_mono by (auto simp: server_inv_def)
next
  case (clean now srv b as tr as')
  then show ?case using clean_worker_bucket_spec(1,2) [of now "srv_tracker srv" b as tr as'] by (simp add: server_inv_def)
next
  case (event now srv me ev as srv' eff as')
  then show ?case using server_step_result [of now srv me ev as] by auto
qed



end
