(* ===== verification/OW_Text.thy ===== *)
theory OW_Text
  imports OT_Select
begin

text \<open>
  The text scanners and formatters of \<^verbatim>\<open>src/libowfat\<close> the tracker uses for numbers and addresses. A C string is the list of its bytes up to the terminating NUL, a
  pointer into it the rest of the list; reading at the end yields the NUL.
\<close>

definition deref :: "bytes \<Rightarrow> byte" where
  "deref s = (case s of [] \<Rightarrow> 0 | c # cs \<Rightarrow> c)"

section \<open>Numbers\<close>

text \<open>
  The scanning loop the functions share: digits are taken while the value stays below the limit of the type. The result is the number of characters taken and the value.
\<close>

fun scan_dec :: "nat \<Rightarrow> bytes \<Rightarrow> nat \<Rightarrow> nat \<times> nat" where
  "scan_dec limit [] l = (0, l)"
| "scan_dec limit (c # cs) l =
    (let d = c - 0x30 in
     if d < 10 then
       let v = l * 10 + unat d in
       if v \<ge> limit then (0, l)
       else case scan_dec limit cs v of (n, r) \<Rightarrow> (n + 1, r)
     else (0, l))"

definition scan_ulong :: "bytes \<Rightarrow> nat \<times> nat" where
  "scan_ulong src = scan_dec (2 ^ 64) src 0"

definition scan_ulonglong :: "bytes \<Rightarrow> nat \<times> nat" where
  "scan_ulonglong src = scan_dec (2 ^ 64) src 0"

definition scan_uint :: "bytes \<Rightarrow> nat \<times> nat" where
  "scan_uint src = scan_dec (2 ^ 32) src 0"

definition scan_ushort :: "bytes \<Rightarrow> nat \<times> nat" where
  "scan_ushort src = scan_dec (2 ^ 16) src 0"

text \<open>\<^verbatim>\<open>fmt_ulong\<close> first counts the digits and then writes them from the last to the first.\<close>

function ulong_len :: "nat \<Rightarrow> nat" where
  "ulong_len tmp = (if tmp > 9 then ulong_len (tmp div 10) + 1 else 1)"
  by pat_completeness auto
termination
  by (relation "measure id") auto

declare ulong_len.simps [simp del]

fun ulong_digits :: "nat \<Rightarrow> nat \<Rightarrow> bytes \<Rightarrow> bytes" where
  "ulong_digits 0 tmp dest = dest"
| "ulong_digits (Suc len) tmp dest = ulong_digits len (tmp div 10) ((of_nat (tmp mod 10) + 0x30) # dest)"

definition fmt_ulong :: "nat \<Rightarrow> bytes" where
  "fmt_ulong i = ulong_digits (ulong_len i) i []"

definition scan_fromhex :: "byte \<Rightarrow> int" where
  "scan_fromhex c =
    (let c = c - 0x30 in
     if c \<le> 9 then uint c
     else let c = (c AND NOT 0x20) - (0x41 - 0x30) in
       if c < 6 then uint c + 10 else -1)"

fun scan_xlong_loop :: "bytes \<Rightarrow> 64 word \<Rightarrow> nat \<times> 64 word" where
  "scan_xlong_loop [] l = (0, l)"
| "scan_xlong_loop (c # cs) l =
    (let d = (of_int (scan_fromhex c) :: byte) in
     if drop_bit 60 l = 0 \<and> d < 16
     then case scan_xlong_loop cs (push_bit 4 l + ucast d) of (n, r) \<Rightarrow> (n + 1, r)
     else (0, l))"

definition scan_xlong :: "bytes \<Rightarrow> nat \<times> 64 word" where
  "scan_xlong src = scan_xlong_loop src 0"

section \<open>Addresses\<close>

function scan_ip4_loop :: "nat \<Rightarrow> bytes \<Rightarrow> nat \<Rightarrow> bytes \<Rightarrow> (nat \<times> bytes) option" where
  "scan_ip4_loop i s len ip =
    (if i < 4 then
       case scan_ulong s of (j, u) \<Rightarrow>
         if j = 0 \<or> u > 255 then None
         else if i < 3 \<and> deref (drop j s) \<noteq> 0x2e then None
         else scan_ip4_loop (i + 1) (drop (j + 1) s) (len + j + 1) (ip @ [of_nat u])
     else Some (len - 1, ip))"
  by pat_completeness auto
termination
  by (relation "measure (\<lambda>(i, s, len, ip). 4 - i)") auto

declare scan_ip4_loop.simps [simp del]

text \<open>The length that was read and the four bytes; None is the return value 0.\<close>

definition scan_ip4 :: "bytes \<Rightarrow> (nat \<times> bytes) option" where
  "scan_ip4 s = scan_ip4_loop 0 s 0 []"

fun fmt_ip4 :: "bytes \<Rightarrow> bytes" where
  "fmt_ip4 [] = []"
| "fmt_ip4 [b] = fmt_ulong (unat b)"
| "fmt_ip4 (b # bs) = fmt_ulong (unat b) @ 0x2e # fmt_ip4 bs"

definition V4mappedprefix :: bytes where
  "V4mappedprefix = [0, 0, 0, 0, 0, 0, 0, 0, 0, 0, 0xff, 0xff]"

definition ip6_isv4mapped :: "bytes \<Rightarrow> bool" where
  "ip6_isv4mapped ip \<longleftrightarrow> take 12 ip = V4mappedprefix"

definition word_bytes :: "64 word \<Rightarrow> bytes" where
  "word_bytes u = [ucast (drop_bit 8 u), ucast u]"

text \<open>
  The two loops of \<^verbatim>\<open>scan_ip6\<close>. The first returns the final result (Inl) or, after a double colon, the rest, the length so far and the prefix (Inr).
\<close>

function ip6_prefix :: "bytes \<Rightarrow> nat \<Rightarrow> bytes \<Rightarrow> (nat \<times> bytes) option + bytes \<times> nat \<times> bytes" where
  "ip6_prefix s len pre =
    (let (s, len, double) =
       (if deref s = 0x3a then
          if deref (drop 1 s) = 0x3a then (drop 2 s, len + 2, True) else (drop 1 s, len + 1, False)
        else (s, len, False)) in
     if double then Inr (s, len, pre)
     else
       case scan_xlong s of (i, u) \<Rightarrow>
         if i = 0 then Inl None
         else if length pre = 12 \<and> deref (drop i s) = 0x2e then
           Inl (case scan_ip4 s of None \<Rightarrow> None | Some (i, ip4) \<Rightarrow> Some (i + len, pre @ ip4))
         else
           let pre = pre @ word_bytes u in
           if length pre \<ge> 16 then Inl (Some (len + i, pre))
           else ip6_prefix (drop i s) (len + i) pre)"
  by pat_completeness auto
termination
  by (relation "measure (\<lambda>(s, len, pre). 16 - length pre)") (auto simp: word_bytes_def)

declare ip6_prefix.simps [simp del]

function ip6_suffix :: "bytes \<Rightarrow> nat \<Rightarrow> nat \<Rightarrow> bytes \<Rightarrow> nat \<times> bytes" where
  "ip6_suffix s len prefixlen suf =
    (if deref s = 0x3a \<and> suf = [] \<or> deref s \<noteq> 0x3a \<and> suf \<noteq> [] then (len, suf)
     else
       let (s, len) = (if deref s = 0x3a then (drop 1 s, len + 1) else (s, len)) in
       case scan_xlong s of (i, u) \<Rightarrow>
         if i = 0 then (if suf \<noteq> [] then len - 1 else len, suf)
         else
           let dot = (length suf + prefixlen \<le> 12 \<and> deref (drop i s) = 0x2e) in
           case if dot then scan_ip4 s else None of
             Some (j, ip4) \<Rightarrow> (len + j, suf @ ip4)
           | None \<Rightarrow>
               let prefixlen = (if dot then 12 - length suf else prefixlen); suf = suf @ word_bytes u in
               if prefixlen + length suf \<ge> 16 then (len + i, suf)
               else ip6_suffix (drop i s) (len + i) prefixlen suf)"
  by pat_completeness auto
termination
  by (relation "measure (\<lambda>(s, len, prefixlen, suf). 16 - (prefixlen + length suf))") (auto simp: word_bytes_def)

declare ip6_suffix.simps [simp del]

definition scan_ip6 :: "bytes \<Rightarrow> (nat \<times> bytes) option" where
  "scan_ip6 s =
    (case scan_ip4 s of
       Some (i, ip4) \<Rightarrow> Some (i, V4mappedprefix @ ip4)
     | None \<Rightarrow>
         (case ip6_prefix s 0 [] of
            Inl r \<Rightarrow> r
          | Inr (s, len, pre) \<Rightarrow>
              (case ip6_suffix s len (length pre) [] of (len, suf) \<Rightarrow>
                 Some (len, take (16 - length suf) (pre @ replicate 16 0) @ suf))))"

text \<open>
  \<^verbatim>\<open>fmt_xlong\<close>, again with the digits from the last to the first.
\<close>

definition tohex :: "nat \<Rightarrow> byte" where
  "tohex c = (if c \<ge> 10 then of_nat (c - 10) + 0x61 else of_nat c + 0x30)"

function xlong_digits :: "nat \<Rightarrow> bytes \<Rightarrow> bytes" where
  "xlong_digits tmp dest =
    (let dest = tohex (tmp mod 16) # dest in
     if tmp div 16 = 0 then dest else xlong_digits (tmp div 16) dest)"
  by pat_completeness auto
termination
  by (relation "measure fst") auto

declare xlong_digits.simps [simp del]

definition fmt_xlong :: "nat \<Rightarrow> bytes" where
  "fmt_xlong i = xlong_digits i []"

text \<open>
  \<^verbatim>\<open>fmt_ip6\<close>: the first loop looks for the longest run of zero words. At the last word it looks at the two bytes behind the address, \<^verbatim>\<open>ip ! 16\<close> and \<^verbatim>\<open>ip ! 17\<close> here, and
  jumps to \<^verbatim>\<open>last\<close> whether or not it is inside a run.
\<close>

function ip6_runs :: "bytes \<Rightarrow> nat \<Rightarrow> bool \<Rightarrow> nat \<Rightarrow> nat \<Rightarrow> nat \<Rightarrow> nat \<times> nat" where
  "ip6_runs ip k compr pos1 len0 pos0 =
    (if k < 16 then
       if ip ! k = 0 \<and> ip ! (k + 1) = 0 then
         let (compr, pos1) = (if \<not> compr \<and> k \<le> 14 \<and> ip ! (k + 2) = 0 \<and> ip ! (k + 3) = 0 then (True, k) else (compr, pos1)) in
         if k = 14 then (if 16 - pos1 > len0 then (16 - pos1, pos1) else (len0, pos0))
         else ip6_runs ip (k + 2) compr pos1 len0 pos0
       else if compr then
         if k - pos1 > len0 then ip6_runs ip (k + 2) False pos1 (k - pos1) pos1 else ip6_runs ip (k + 2) False pos1 len0 pos0
       else ip6_runs ip (k + 2) compr pos1 len0 pos0
     else (len0, pos0))"
  by pat_completeness auto
termination
  by (relation "measure (\<lambda>(ip, k, compr, pos1, len0, pos0). 16 - k)") auto

declare ip6_runs.simps [simp del]

definition ip6_word :: "bytes \<Rightarrow> nat \<Rightarrow> nat" where
  "ip6_word ip k = unat (ip ! k) * 256 + unat (ip ! (k + 1))"

function ip6_print :: "bytes \<Rightarrow> nat \<Rightarrow> nat \<Rightarrow> nat \<Rightarrow> bytes" where
  "ip6_print ip len0 pos0 k =
    (if k < 16 then
       if k = 12 \<and> ip6_isv4mapped ip then fmt_ip4 (take 4 (drop 12 ip))
       else if pos0 = k \<and> len0 \<noteq> 0 then (if k = 0 then [0x3a] else []) @ 0x3a # ip6_print ip len0 pos0 (k + len0)
       else fmt_xlong (ip6_word ip k) @ (if k < 14 then [0x3a] else []) @ ip6_print ip len0 pos0 (k + 2)
     else [])"
  by pat_completeness auto
termination
  by (relation "measure (\<lambda>(ip, len0, pos0, k). 16 - k)") auto

declare ip6_print.simps [simp del]

definition fmt_ip6 :: "bytes \<Rightarrow> bytes" where
  "fmt_ip6 ip = (case ip6_runs ip 0 False 0 0 0 of (len0, pos0) \<Rightarrow> ip6_print ip len0 pos0 0)"

definition fmt_ip6c :: "bytes \<Rightarrow> bytes" where
  "fmt_ip6c ip = (if ip6_isv4mapped ip then fmt_ip4 (take 4 (drop 12 ip)) else fmt_ip6 ip)"

section \<open>Round trips\<close>

lemma ulong_digits_append: "ulong_digits n tmp dest = ulong_digits n tmp [] @ dest"
proof (induction n arbitrary: tmp dest)
  case (Suc n)
  show ?case
    using Suc.IH [of "tmp div 10" "(of_nat (tmp mod 10) + 0x30) # dest"] Suc.IH [of "tmp div 10" "[of_nat (tmp mod 10) + 0x30]"] by simp
qed simp

text \<open>\<^verbatim>\<open>fmt_ulong\<close> writes the usual decimal notation, the one the replies of the tracker use.\<close>

lemma fmt_ulong_eq: "fmt_ulong n = dec_of_nat n"
proof (induction n rule: dec_of_nat.induct)
  case (1 n)
  show ?case
  proof (cases "n < 10")
    case True
    then show ?thesis by (simp add: fmt_ulong_def ulong_len.simps [of n] dec_of_nat.simps [of n] add.commute)
  next
    case False
    then have "fmt_ulong n = fmt_ulong (n div 10) @ [of_nat (n mod 10) + 0x30]"
      using ulong_digits_append [of "ulong_len (n div 10)" "n div 10" "[of_nat (n mod 10) + 0x30]"]
      by (simp add: fmt_ulong_def ulong_len.simps [of n])
    then show ?thesis using 1 False by (simp add: dec_of_nat.simps [of n] add.commute)
  qed
qed

definition digit_value :: "nat \<Rightarrow> bytes \<Rightarrow> nat" where
  "digit_value = foldl (\<lambda>l c. l * 10 + unat (c - 0x30))"

lemma digit_value_mono: "l \<le> digit_value l ds"
proof (induction ds arbitrary: l)
  case (Cons d ds)
  have "l \<le> l * 10 + unat (d - 0x30)" by simp
  then show ?case using Cons [of "l * 10 + unat (d - 0x30)"] by (simp add: digit_value_def)
qed (simp add: digit_value_def)

definition not_digit :: "bytes \<Rightarrow> bool" where
  "not_digit s \<longleftrightarrow> (case s of [] \<Rightarrow> True | c # cs \<Rightarrow> \<not> c - 0x30 < (10 :: byte))"

lemma scan_dec_digits:
  assumes "\<forall>d \<in> set ds. d - 0x30 < (10 :: byte)" "digit_value l ds < limit" "not_digit rest"
  shows "scan_dec limit (ds @ rest) l = (length ds, digit_value l ds)"
  using assms
proof (induction ds arbitrary: l)
  case Nil
  then show ?case by (cases rest) (simp_all add: not_digit_def digit_value_def Let_def)
next
  case (Cons d ds)
  let ?v = "l * 10 + unat (d - 0x30)"
  have v: "digit_value l (d # ds) = digit_value ?v ds" by (simp add: digit_value_def)
  then have "?v < limit" using digit_value_mono [of ?v ds] Cons.prems(2) by simp
  then show ?case using Cons.IH [of ?v] Cons.prems v by (simp add: Let_def)
qed

lemma digit_of: "d < 10 \<Longrightarrow> (48 + of_nat d :: byte) - 0x30 = of_nat d \<and> unat (of_nat d :: byte) = d \<and> (of_nat d :: byte) < 10"
  by (simp add: unat_of_nat word_less_nat_alt)

lemma dec_digit_value: "(\<forall>d \<in> set (dec_of_nat n). d - 0x30 < (10 :: byte)) \<and> digit_value 0 (dec_of_nat n) = n"
proof (induction n rule: dec_of_nat.induct)
  case (1 n)
  have snoc: "digit_value 0 (xs @ [c]) = digit_value 0 xs * 10 + unat (c - 0x30)" for xs c by (simp add: digit_value_def)
  show ?case
  proof (cases "n < 10")
    case True
    then show ?thesis using digit_of [of n] by (simp add: dec_of_nat.simps [of n] digit_value_def)
  next
    case False
    then show ?thesis using 1 digit_of [of "n mod 10"] by (simp add: dec_of_nat.simps [of n] snoc)
  qed
qed

lemma scan_dec_fmt:
  assumes "n < limit" "not_digit rest"
  shows "scan_dec limit (fmt_ulong n @ rest) 0 = (length (fmt_ulong n), n)"
  using scan_dec_digits [of "dec_of_nat n" 0 limit rest] dec_digit_value [of n] assms by (simp add: fmt_ulong_eq)

lemma fmt_ulong_nonempty: "fmt_ulong n \<noteq> []"
  by (simp add: fmt_ulong_eq dec_of_nat.simps [of n])

lemma scan_ip4_loop_fmt:
  assumes "i + length bs = 4" "bs \<noteq> []" "not_digit rest"
  shows "scan_ip4_loop i (fmt_ip4 bs @ rest) len ip = Some (len + length (fmt_ip4 bs), ip @ bs)"
  using assms(1,2)
proof (induction bs arbitrary: i len ip)
  case (Cons b bs)
  have b: "unat b < 2 ^ 64" "unat b \<le> 255" using unsigned_less [of b, where 'a = nat] by auto
  show ?case
  proof (cases "bs = []")
    case True
    then have "scan_ip4_loop i (fmt_ip4 [b] @ rest) len ip = scan_ip4_loop 4 (drop 1 rest) (len + length (fmt_ulong (unat b)) + 1) (ip @ [b])"
      using scan_dec_fmt [OF b(1) assms(3)] b(2) fmt_ulong_nonempty Cons.prems by (subst scan_ip4_loop.simps) (simp add: scan_ulong_def)
    then show ?thesis using True by (simp add: scan_ip4_loop.simps [of 4])
  next
    case False
    then obtain c cs where bs: "bs = c # cs" by (cases bs) auto
    have "scan_ip4_loop i (fmt_ip4 (b # bs) @ rest) len ip = scan_ip4_loop (i + 1) (fmt_ip4 bs @ rest) (len + length (fmt_ulong (unat b)) + 1) (ip @ [b])"
      using scan_dec_fmt [OF b(1), of "0x2e # fmt_ip4 bs @ rest"] b(2) fmt_ulong_nonempty Cons.prems bs
      by (subst scan_ip4_loop.simps) (simp add: scan_ulong_def deref_def not_digit_def)
    then show ?thesis using Cons.IH [of "i + 1"] Cons.prems bs by simp
  qed
qed simp


subsection \<open>Hexadecimal numbers\<close>

fun hex_of_nat :: "nat \<Rightarrow> bytes" where
  "hex_of_nat n = (if n < 16 then [tohex n] else hex_of_nat (n div 16) @ [tohex (n mod 16)])"

declare hex_of_nat.simps [simp del]

lemma xlong_digits_eq: "xlong_digits n dest = hex_of_nat n @ dest"
proof (induction n dest rule: xlong_digits.induct)
  case (1 n dest)
  have "n div 16 = 0 \<longleftrightarrow> n < 16" by (simp add: div_eq_0_iff)
  then show ?case using 1 by (cases "n < 16") (simp_all add: xlong_digits.simps [of n] hex_of_nat.simps [of n] Let_def)
qed

lemma fmt_xlong_eq: "fmt_xlong n = hex_of_nat n"
  by (simp add: fmt_xlong_def xlong_digits_eq)

lemma scan_fromhex_tohex:
  assumes "n < 16"
  shows "scan_fromhex (tohex n) = int n"
proof -
  have "list_all (\<lambda>n. scan_fromhex (tohex n) = int n) [0..<16]" by code_simp
  then show ?thesis using assms by (simp add: list_all_iff)
qed

definition hex_value :: "nat \<Rightarrow> bytes \<Rightarrow> nat" where
  "hex_value = foldl (\<lambda>l c. l * 16 + nat (scan_fromhex c))"

lemma hex_value_mono: "l \<le> hex_value l ds"
proof (induction ds arbitrary: l)
  case (Cons d ds)
  have "l \<le> l * 16 + nat (scan_fromhex d)" by simp
  then show ?case using Cons [of "l * 16 + nat (scan_fromhex d)"] by (simp add: hex_value_def)
qed (simp add: hex_value_def)

definition is_hex :: "byte \<Rightarrow> bool" where
  "is_hex c \<longleftrightarrow> 0 \<le> scan_fromhex c"

lemma scan_fromhex_bound: "-1 \<le> scan_fromhex c \<and> scan_fromhex c < 16"
proof -
  have "uint (x :: byte) < 10" if "x \<le> 9" for x using that by (simp add: word_le_def)
  moreover have "uint (x :: byte) < 6" if "x < 6" for x using that by (simp add: word_less_def)
  ultimately show ?thesis by (auto simp: scan_fromhex_def Let_def) (smt (verit) unsigned_greater_eq)+
qed

lemma not_hex: "\<not> is_hex c \<Longrightarrow> scan_fromhex c = -1"
  using scan_fromhex_bound [of c] by (auto simp: is_hex_def)

definition addr_end :: "bytes \<Rightarrow> bool" where
  "addr_end rest \<longleftrightarrow> (case rest of [] \<Rightarrow> True | c # cs \<Rightarrow> \<not> is_hex c \<and> c \<noteq> 0x3a \<and> c \<noteq> 0x2e)"

definition hex_end :: "bytes \<Rightarrow> bool" where
  "hex_end rest \<longleftrightarrow> (case rest of [] \<Rightarrow> True | c # cs \<Rightarrow> \<not> is_hex c)"

lemma scan_xlong_digits:
  assumes "\<forall>d \<in> set ds. is_hex d" "hex_value l ds < 2 ^ 60" "hex_end rest"
  shows "scan_xlong_loop (ds @ rest) (of_nat l) = (length ds, of_nat (hex_value l ds))"
  using assms
proof (induction ds arbitrary: l)
  case Nil
  then show ?case using not_hex by (cases rest) (auto simp: hex_end_def hex_value_def Let_def)
next
  case (Cons d ds)
  let ?d = "nat (scan_fromhex d)" and ?v = "l * 16 + nat (scan_fromhex d)"
  have v: "hex_value l (d # ds) = hex_value ?v ds" by (simp add: hex_value_def)
  have "l \<le> ?v" "?v \<le> hex_value ?v ds" using hex_value_mono by auto
  then have l: "l < 2 ^ 60" using Cons.prems(2) v by simp
  have d: "scan_fromhex d = int ?d" "?d < 16" using Cons.prems(1) scan_fromhex_bound [of d] by (auto simp: is_hex_def)
  then have b: "(of_int (scan_fromhex d) :: byte) = of_nat ?d" by (metis of_int_of_nat_eq)
  then have b16: "(of_int (scan_fromhex d) :: byte) < 16" using d(2) by (simp add: word_less_nat_alt unat_of_nat)
  have u: "unat (of_nat l :: 64 word) = l" using l by (simp add: unat_of_nat)
  have "unat (drop_bit 60 (of_nat l :: 64 word)) = 0" using l u by (simp only: unat_drop_bit_eq) (simp add: drop_bit_eq_div)
  then have top: "drop_bit 60 (of_nat l :: 64 word) = 0" by (simp only: unat_eq_zero)
  have "unat (of_nat ?d :: byte) = ?d" using d(2) by (simp add: unat_of_nat)
  then have "(ucast (of_nat ?d :: byte) :: 64 word) = of_nat ?d" by (metis of_nat_unat)
  then have "push_bit 4 (of_nat l :: 64 word) + ucast (of_int (scan_fromhex d) :: byte) = of_nat ?v"
    by (simp add: b push_bit_eq_mult)
  then show ?case using Cons.IH [of ?v] Cons.prems v b16 top by (simp add: Let_def)
qed

end
