(* ===== verification/CJ_Text.thy ===== *)
theory CJ_Text
  imports OW_Text
begin

text \<open>
  The string side of \<^verbatim>\<open>src/cJSON.c\<close>: unescaping while parsing and escaping while printing. A pointer into a text is the list of the bytes from there to the
  end of its block; the byte behind the list is the NUL that ends the block, so \<^const>\<open>deref\<close> of the empty list is 0 and moving on from it leaves the block.
  A read or a write outside a block is the value None.
\<close>

section \<open>Reading a string literal\<close>

definition advance :: "nat \<Rightarrow> bytes \<Rightarrow> bytes option" where
  "advance n s = (if n \<le> length s then Some (drop n s) else None)"

definition hex_digit :: "byte \<Rightarrow> u32 option" where
  "hex_digit c =
    (if 0x30 \<le> c \<and> c \<le> 0x39 then Some (ucast (c - 0x30))
     else if 0x41 \<le> c \<and> c \<le> 0x46 then Some (10 + ucast (c - 0x41))
     else if 0x61 \<le> c \<and> c \<le> 0x66 then Some (10 + ucast (c - 0x61))
     else None)"

fun hex4_loop :: "nat \<Rightarrow> u32 \<Rightarrow> bytes \<Rightarrow> u32" where
  "hex4_loop 0 h str = h"
| "hex4_loop (Suc n) h str =
    (case hex_digit (deref str) of None \<Rightarrow> 0 | Some d \<Rightarrow> hex4_loop n (push_bit 4 h + d) (drop 1 str))"

definition parse_hex4 :: "bytes \<Rightarrow> u32" where
  "parse_hex4 str = hex4_loop 4 0 str"

definition firstByteMark :: "nat \<Rightarrow> u32" where
  "firstByteMark n = [0x00, 0x00, 0xC0, 0xE0, 0xF0, 0xF8, 0xFC] ! n"

fun utf8_tail :: "nat \<Rightarrow> u32 \<Rightarrow> bytes \<Rightarrow> u32 \<times> bytes" where
  "utf8_tail 0 uc out = (uc, out)"
| "utf8_tail (Suc n) uc out = utf8_tail n (drop_bit 6 uc) (ucast ((uc OR 0x80) AND 0xBF) # out)"

definition utf8_bytes :: "u32 \<Rightarrow> bytes" where
  "utf8_bytes uc =
    (let len = (if uc < 0x80 then 1 else if uc < 0x800 then 2 else if uc < 0x10000 then 3 else 4) in
     case utf8_tail (len - 1) uc [] of (uc, out) \<Rightarrow> ucast (uc OR firstByteMark len) # out)"

text \<open>
  The case \<^verbatim>\<open>'u'\<close> of the switch, from the text behind the letter to what is written and where reading goes on. \<^verbatim>\<open>ptr\<close> stays on the last character of
  the escape, so the final increment makes five, or eleven for a surrogate pair.
\<close>

definition unescape_u :: "bytes \<Rightarrow> (bytes \<times> bytes option)" where
  "unescape_u t =
    (let uc = parse_hex4 t in
     if 0xDC00 \<le> uc \<and> uc \<le> 0xDFFF \<or> uc = 0 then ([], advance 4 t)
     else if 0xD800 \<le> uc \<and> uc \<le> 0xDBFF then
       if deref (drop 4 t) \<noteq> 0x5c \<or> deref (drop 5 t) \<noteq> 0x75 then ([], advance 4 t)
       else
         let uc2 = parse_hex4 (drop 6 t) in
         if uc2 < 0xDC00 \<or> 0xDFFF < uc2 then ([], advance 10 t)
         else (utf8_bytes (0x10000 + (push_bit 10 (uc AND 0x3FF) OR (uc2 AND 0x3FF))), advance 10 t)
     else (utf8_bytes uc, advance 4 t))"

definition unescape_char :: "byte \<Rightarrow> bytes \<Rightarrow> (bytes \<times> bytes option)" where
  "unescape_char e t =
    (if e = 0x62 then ([0x08], Some t)
     else if e = 0x66 then ([0x0c], Some t)
     else if e = 0x6e then ([0x0a], Some t)
     else if e = 0x72 then ([0x0d], Some t)
     else if e = 0x74 then ([0x09], Some t)
     else if e = 0x75 then unescape_u t
     else ([e], Some t))"

lemma advance_length: "advance n s = Some t \<Longrightarrow> length t \<le> length s"
  by (auto simp: advance_def split: if_splits)

lemma unescape_char_length: "unescape_char e t = (out, Some r) \<Longrightarrow> length r \<le> length t"
  by (auto simp: unescape_char_def unescape_u_def Let_def dest: advance_length split: if_splits)

text \<open>
  The two passes of \<^verbatim>\<open>parse_string\<close>: the first counts, a backslash and the byte behind it as one; the second writes. The result of the second is what
  was written and the position of the quote or NUL that ends the literal.
\<close>

fun literal_len :: "bytes \<Rightarrow> nat option" where
  "literal_len [] = Some 0"
| "literal_len (c # cs) =
    (if c = 0x22 \<or> c = 0 then Some 0
     else if c = 0x5c then (case cs of [] \<Rightarrow> None | e # t \<Rightarrow> map_option Suc (literal_len t))
     else map_option Suc (literal_len cs))"

function unescape :: "bytes \<Rightarrow> (bytes \<times> bytes) option" where
  "unescape [] = Some ([], [])"
| "unescape (c # cs) =
    (if c = 0x22 \<or> c = 0 then Some ([], c # cs)
     else if c \<noteq> 0x5c then map_option (map_prod (Cons c) id) (unescape cs)
     else case cs of
       [] \<Rightarrow> None
     | e # t \<Rightarrow>
         (case unescape_char e t of
            (out, None) \<Rightarrow> None
          | (out, Some r) \<Rightarrow> map_option (map_prod (append out) id) (unescape r)))"
  by pat_completeness auto
termination
  by (relation "measure length") (auto dest: unescape_char_length [OF sym])

text \<open>The bytes of a buffer that C reads as a string.\<close>

definition c_str :: "bytes \<Rightarrow> bytes" where
  "c_str s = takeWhile (\<lambda>c. c \<noteq> 0) s"

text \<open>
  What a parsing function returns: \<^verbatim>\<open>Fault\<close> for an access outside a block, else a null pointer, with the value of the error pointer \<^verbatim>\<open>ep\<close> if it is set there, or a
  value with the position behind it. \<^verbatim>\<open>Stuck\<close> is a loop that has not ended when the fuel is used up.
\<close>

datatype 'a parse =
    Fault
  | Stuck
  | Reject "bytes option"
  | Accept 'a bytes

definition parse_string :: "bytes \<Rightarrow> allocs \<Rightarrow> bytes parse \<times> allocs" where
  "parse_string str as =
    (if deref str \<noteq> 0x22 then (Reject (Some str), as)
     else
       case literal_len (drop 1 str) of
         None \<Rightarrow> (Fault, as)
       | Some len \<Rightarrow>
           (case alloc as of (ok, as') \<Rightarrow>
              if \<not> ok then (Reject None, as')
              else
                case unescape (drop 1 str) of
                  None \<Rightarrow> (Fault, as')
                | Some (out, ptr) \<Rightarrow>
                    if len < length out then (Fault, as')
                    else (Accept (c_str out) (if deref ptr = 0x22 then drop 1 ptr else ptr), as')))"

section \<open>Writing a string literal\<close>

definition special :: bytes where
  "special = [0x22, 0x5c, 0x08, 0x0c, 0x0a, 0x0d, 0x09]"

definition escaped_len :: "bytes \<Rightarrow> nat" where
  "escaped_len str = sum_list (map (\<lambda>token. if token \<in> set special then 2 else if token < 32 then 6 else 1) str)"

definition escape :: "byte \<Rightarrow> bytes" where
  "escape token =
    (if 31 < token \<and> token \<noteq> 0x22 \<and> token \<noteq> 0x5c then [token]
     else 0x5c #
       (if token = 0x5c then [0x5c]
        else if token = 0x22 then [0x22]
        else if token = 0x08 then [0x62]
        else if token = 0x0c then [0x66]
        else if token = 0x0a then [0x6e]
        else if token = 0x0d then [0x72]
        else if token = 0x09 then [0x74]
        else [0x75, 0x30, 0x30, tohex (unat token div 16), tohex (unat token mod 16)]))"

text \<open>
  What a printing function returns: a text or a null pointer; a text that does not fit the block allocated for it is an \<^verbatim>\<open>Overrun\<close>.
\<close>

datatype 'a printed =
    Overrun
  | Null
  | Text 'a

definition written :: "nat \<Rightarrow> bytes \<Rightarrow> bytes printed" where
  "written space out = (if length out + 1 \<le> space then Text out else Overrun)"

definition print_string_ptr :: "bytes option \<Rightarrow> allocs \<Rightarrow> bytes printed \<times> allocs" where
  "print_string_ptr str as =
    (case alloc as of (ok, as') \<Rightarrow>
       (if \<not> ok then Null
        else case str of
          None \<Rightarrow> written 1 []
        | Some s \<Rightarrow> written (escaped_len s + 3) (0x22 # concat (map escape s) @ [0x22]), as'))"

section \<open>Literals with complete escapes\<close>

text \<open>
  Texts in which every backslash is followed by a byte, and every \<^verbatim>\<open>\u\<close> by four hexadecimal digits.
\<close>

definition is_hex4 :: "bytes \<Rightarrow> bool" where
  "is_hex4 t \<longleftrightarrow> 4 \<le> length t \<and> list_all (\<lambda>c. hex_digit c \<noteq> None) (take 4 t)"

function escapes_ok :: "bytes \<Rightarrow> bool" where
  "escapes_ok [] \<longleftrightarrow> True"
| "escapes_ok (c # cs) \<longleftrightarrow>
    (if c \<noteq> 0x5c then escapes_ok cs
     else case cs of [] \<Rightarrow> False | e # t \<Rightarrow> if e = 0x75 then is_hex4 t \<and> escapes_ok (drop 4 t) else escapes_ok t)"
  by pat_completeness auto
termination
  by (relation "measure length") auto

lemma hex_digit_plain: "hex_digit c \<noteq> None \<Longrightarrow> c \<noteq> 0x22 \<and> c \<noteq> 0 \<and> c \<noteq> 0x5c"
  by (auto simp: hex_digit_def)

lemma is_hex4_split:
  assumes "is_hex4 t"
  obtains a b c d r where "t = a # b # c # d # r" "list_all (\<lambda>c. hex_digit c \<noteq> None) [a, b, c, d]"
  using assms by (auto simp: is_hex4_def neq_Nil_conv Suc_le_length_iff eval_nat_numeral)

lemma literal_len_hex_digit: "hex_digit c \<noteq> None \<Longrightarrow> literal_len (c # cs) = map_option Suc (literal_len cs)"
  using hex_digit_plain [of c] by simp

lemma literal_len_hex4:
  assumes "is_hex4 t"
  shows "literal_len t = map_option ((+) 4) (literal_len (drop 4 t))"
proof (rule is_hex4_split [OF assms])
  fix a b c d r
  assume t: "t = a # b # c # d # r" and "list_all (\<lambda>c. hex_digit c \<noteq> None) [a, b, c, d]"
  then have h: "hex_digit a \<noteq> None" "hex_digit b \<noteq> None" "hex_digit c \<noteq> None" "hex_digit d \<noteq> None" by simp_all
  show ?thesis unfolding t h [THEN literal_len_hex_digit] option.map_comp comp_def
    by (cases "literal_len r") (simp_all del: literal_len.simps)
qed

lemma utf8_tail_length: "length (snd (utf8_tail n uc out)) = n + length out"
  by (induction n uc out rule: utf8_tail.induct) auto

lemma utf8_bytes_length: "length (utf8_bytes uc) \<le> 4"
proof -
  have "length (utf8_bytes uc) = 1 + ((if uc < 0x80 then 1 else if uc < 0x800 then 2 else if uc < 0x10000 then 3 else 4) - 1)"
    using utf8_tail_length [of _ uc "[]"] unfolding utf8_bytes_def Let_def by (simp add: split_beta)
  then show ?thesis by simp
qed

lemma unescape_rest: "unescape s = Some (out, r) \<Longrightarrow> length r \<le> length s"
proof (induction s arbitrary: out r rule: unescape.induct)
  case (2 c cs)
  show ?case
  proof (cases "c = 0x22 \<or> c = 0")
    case True
    then show ?thesis using 2(3) by auto
  next
    case plain: False
    show ?thesis
    proof (cases "c = 0x5c")
      case False
      then obtain out1 where "unescape cs = Some (out1, r)" using 2(3) plain by auto
      then show ?thesis using 2(1) [OF plain False] by fastforce
    next
      case True
      then obtain e t out1 r1 out2 where cs: "cs = e # t" "unescape_char e t = (out1, Some r1)" "unescape r1 = Some (out2, r)"
        using 2(3) plain by (auto split: list.splits prod.splits option.splits)
      have "length r \<le> length r1" using 2(2) [OF plain _ cs(1) cs(2) [symmetric] refl cs(3)] True by simp
      then show ?thesis using unescape_char_length [OF cs(2)] cs(1) by simp
    qed
  qed
qed simp

text \<open>
  On such texts both passes stay inside the text, and what is written fits the block.
\<close>

definition literal_ok :: "bytes \<Rightarrow> bool" where
  "literal_ok s \<longleftrightarrow> (\<exists>len out r. literal_len s = Some len \<and> unescape s = Some (out, r) \<and> length out \<le> len \<and> escapes_ok r)"

lemma literal_okI: "literal_len s = Some len \<Longrightarrow> unescape s = Some (out, r) \<Longrightarrow> length out \<le> len \<Longrightarrow> escapes_ok r \<Longrightarrow> literal_ok s"
  by (auto simp: literal_ok_def)

lemma literal_ok_extend:
  assumes "literal_ok r" "literal_len s = map_option ((+) k) (literal_len r)" "unescape s = map_option (map_prod (append out) id) (unescape r)" "length out \<le> k"
  shows "literal_ok s"
  using assms by (auto simp: literal_ok_def)

lemma one_more: "(+) 1 = Suc" "append [c] = Cons c"
  by auto

lemma is_hex4_length: "is_hex4 t \<Longrightarrow> 4 \<le> length t"
  by (simp add: is_hex4_def)

lemma unescape_u_shape:
  "length (fst (unescape_u t)) \<le> 4"
  "snd (unescape_u t) = advance 4 t \<or> snd (unescape_u t) = advance 10 t \<and> deref (drop 4 t) = 0x5c \<and> deref (drop 5 t) = 0x75"
  by (simp_all add: unescape_u_def Let_def utf8_bytes_length)

lemma unescape_u_ok:
  assumes "is_hex4 t" "escapes_ok (drop 4 t)"
  obtains (one) out where "unescape_u t = (out, Some (drop 4 t))" "length out \<le> 4"
  | (pair) out s where "unescape_u t = (out, Some (drop 4 s))" "length out \<le> 4" "drop 4 t = 0x5c # 0x75 # s" "is_hex4 s" "escapes_ok (drop 4 s)"
proof (cases "deref (drop 4 t) = 0x5c \<and> deref (drop 5 t) = 0x75")
  case False
  have "advance 4 t = Some (drop 4 t)" using is_hex4_length [OF assms(1)] by (simp add: advance_def)
  then show ?thesis using one [of "fst (unescape_u t)"] unescape_u_shape [of t] False by (metis prod.collapse)
next
  case True
  obtain s where s: "drop 4 t = 0x5c # 0x75 # s"
  proof (cases "drop 4 t")
    case Nil
    then show ?thesis using True by (simp add: deref_def)
  next
    case (Cons c cs)
    then have "drop 5 t = cs" by (metis drop_Suc eval_nat_numeral(3) list.sel(3) tl_drop)
    then show ?thesis using that Cons True by (cases cs) (auto simp: deref_def)
  qed
  then have h: "is_hex4 s" "escapes_ok (drop 4 s)" using assms(2) by simp_all
  have d: "drop 6 t = s" "drop 10 t = drop 4 s"
    using arg_cong [OF s, of "drop 2"] arg_cong [OF s, of "drop 6"] by simp_all
  have "length t = 6 + length s" using arg_cong [OF s, of length] is_hex4_length [OF assms(1)] by simp
  then have "advance 4 t = Some (drop 4 t)" "advance 10 t = Some (drop 4 s)"
    using is_hex4_length [OF h(1)] d by (simp_all add: advance_def)
  then show ?thesis
    using one [of "fst (unescape_u t)"] pair [of "fst (unescape_u t)", OF _ _ s h] unescape_u_shape [of t] by (metis prod.collapse)
qed

lemma literal_ok_hex4:
  assumes "is_hex4 t" "literal_ok (drop 4 t)" "unescape_u t = (out, Some (drop 4 t))" "length out \<le> 4"
  shows "literal_ok (0x5c # 0x75 # t)"
  using assms(2)
proof (rule literal_ok_extend)
  show "literal_len (0x5c # 0x75 # t) = map_option ((+) 5) (literal_len (drop 4 t))"
    by (simp add: literal_len_hex4 [OF assms(1)] option.map_comp comp_def)
  show "unescape (0x5c # 0x75 # t) = map_option (map_prod (append out) id) (unescape (drop 4 t))"
    using assms(3) by (simp add: unescape_char_def)
  show "length out \<le> 5" using assms(4) by simp
qed

lemma literal_ok_pair:
  assumes "is_hex4 t" "drop 4 t = 0x5c # 0x75 # s" "is_hex4 s" "literal_ok (drop 4 s)" "unescape_u t = (out, Some (drop 4 s))" "length out \<le> 4"
  shows "literal_ok (0x5c # 0x75 # t)"
  using assms(4)
proof (rule literal_ok_extend)
  show "literal_len (0x5c # 0x75 # t) = map_option ((+) 10) (literal_len (drop 4 s))"
    by (simp add: literal_len_hex4 [OF assms(1)] literal_len_hex4 [OF assms(3)] assms(2) option.map_comp comp_def)
  show "unescape (0x5c # 0x75 # t) = map_option (map_prod (append out) id) (unescape (drop 4 s))"
    using assms(5) by (simp add: unescape_char_def)
  show "length out \<le> 10" using assms(6) by simp
qed

lemma unescape_char_simple: "e \<noteq> 0x75 \<Longrightarrow> \<exists>d. unescape_char e t = ([d], Some t)"
  by (simp add: unescape_char_def)

lemma escapes_ok_literal: "escapes_ok s \<Longrightarrow> literal_ok s"
proof (induction s rule: length_induct)
  case (1 s)
  show ?case
  proof (cases s)
    case Nil
    then show ?thesis by (intro literal_okI [of _ 0 "[]" "[]"]) simp_all
  next
    case (Cons c cs)
    consider "c = 0x22 \<or> c = 0" | "c \<noteq> 0x22" "c \<noteq> 0" "c \<noteq> 0x5c" | "c = 0x5c" by blast
    then show ?thesis
    proof cases
      case 1
      then show ?thesis using 1(1) Cons "1.prems" by (intro literal_okI [of _ 0 "[]" s]) auto
    next
      case 2
      then have "literal_ok cs" using "1.IH" "1.prems" Cons by simp
      then show ?thesis by (rule literal_ok_extend [of _ _ 1 "[c]"]) (use 2 Cons in \<open>simp_all only: one_more\<close>, simp_all)
    next
      case 3
      then obtain e t where cs: "cs = e # t" "s = 0x5c # e # t" using "1.prems" Cons by (cases cs) auto
      show ?thesis
      proof (cases "e = 0x75")
        case False
        then have "literal_ok t" using "1.IH" "1.prems" cs by simp
        moreover obtain d where d: "unescape_char e t = ([d], Some t)" using unescape_char_simple [OF False] by blast
        ultimately show ?thesis unfolding cs(2) by - (rule literal_ok_extend [of t _ 1 "[d]"], simp_all only: one_more, simp_all add: one_more)
      next
        case True
        then have h: "is_hex4 t" "escapes_ok (drop 4 t)" using "1.prems" cs by simp_all
        then show ?thesis
        proof (cases rule: unescape_u_ok)
          case (one out)
          then show ?thesis using literal_ok_hex4 [OF h(1) _ one] "1.IH" h cs True by simp
        next
          case (pair out s')
          have "length s' < length s" using arg_cong [OF pair(3), of length] cs by simp
          then show ?thesis using literal_ok_pair [OF h(1) pair(3,4) _ pair(1,2)] "1.IH" pair(5) cs True by simp
        qed
      qed
    qed
  qed
qed

lemma parse_string_safe:
  assumes "escapes_ok str"
  obtains (reject) ep as' where "parse_string str as = (Reject ep, as')"
  | (accept) v r as' where "parse_string str as = (Accept v r, as')" "escapes_ok r"
proof (cases "deref str = 0x22")
  case False
  then show ?thesis using reject by (simp add: parse_string_def)
next
  case True
  then obtain s where s: "str = 0x22 # s" by (cases str) (auto simp: deref_def)
  then obtain len out r where "literal_len s = Some len" "unescape s = Some (out, r)" "length out \<le> len" "escapes_ok r"
    using escapes_ok_literal [of s] assms by (auto simp: literal_ok_def)
  moreover have "escapes_ok (if deref r = 0x22 then drop 1 r else r)" using \<open>escapes_ok r\<close> by (cases r) (auto simp: deref_def)
  ultimately show ?thesis using reject accept True s by (cases "alloc as") (fastforce simp: parse_string_def)
qed

lemma parse_string_shorter: "parse_string str as = (Accept v r, as') \<Longrightarrow> length r < length str"
  by (cases str) (auto simp: parse_string_def deref_def split: option.splits prod.splits if_splits dest!: unescape_rest)

section \<open>Escaping and unescaping\<close>

lemma control: "31 < (c :: byte) \<longleftrightarrow> \<not> c < 32"
  by (simp add: word_less_nat_alt) linarith

lemma length_escape: "length (escape c) = (if c \<in> set special then 2 else if c < 32 then 6 else 1)"
  by (simp add: escape_def special_def control)

lemma length_escaped: "length (concat (map escape s)) = escaped_len s"
  by (simp add: length_concat escaped_len_def comp_def length_escape)

lemma print_string_ptr_text:
  "print_string_ptr (Some s) as = (if fst (alloc as) then Text (0x22 # concat (map escape s) @ [0x22]) else Null, snd (alloc as))"
  by (simp add: print_string_ptr_def written_def length_escaped split_beta)

lemma escape_plain: "\<not> c < 32 \<Longrightarrow> c \<noteq> 0x22 \<Longrightarrow> c \<noteq> 0x5c \<Longrightarrow> escape c = [c]"
  by (simp add: escape_def control)

lemma parse_hex4_small:
  assumes "hex_digit d = Some x" "hex_digit e = Some y"
  shows "parse_hex4 (0x30 # 0x30 # d # e # X) = push_bit 4 x + y"
proof -
  have z: "hex_digit 0x30 = Some 0" by (simp add: hex_digit_def)
  have "hex4_loop 4 = hex4_loop (Suc (Suc (Suc (Suc 0))))" by (simp add: numeral_eq_Suc)
  then have h: "parse_hex4 str = hex4_loop (Suc (Suc (Suc (Suc 0)))) 0 str" for str unfolding parse_hex4_def by (rule arg_cong)
  have d: "deref (c # cs) = c" for c cs by (simp add: deref_def)
  show ?thesis unfolding h hex4_loop.simps d by (simp add: z d assms)
qed

lemma unescape_u_ascii:
  assumes "parse_hex4 t \<noteq> 0" "parse_hex4 t < 0x80"
  shows "unescape_u t = ([ucast (parse_hex4 t)], advance 4 t)"
proof -
  have "\<not> 0xDC00 \<le> parse_hex4 t" "\<not> 0xD800 \<le> parse_hex4 t" using assms(2) by (auto simp: word_less_nat_alt word_le_nat_alt)
  then show ?thesis using assms by (simp add: unescape_u_def utf8_bytes_def firstByteMark_def)
qed

lemma hex_digit_tohex:
  assumes "n < 16"
  shows "hex_digit (tohex n) = Some (of_nat n)"
proof -
  have "n \<in> set [0..<16]" using assms by simp
  then show ?thesis by (simp add: upt_conv_Cons) (elim disjE; simp add: hex_digit_def tohex_def)
qed

lemma parse_hex4_control: "parse_hex4 (0x30 # 0x30 # tohex (unat (c :: byte) div 16) # tohex (unat c mod 16) # X) = ucast c"
proof -
  have b: "unat c div 16 < 16" "unat c mod 16 < 16" using unsigned_less [of c, where 'a = nat] by auto
  have "push_bit 4 (of_nat (unat c div 16)) + of_nat (unat c mod 16) = (of_nat (16 * (unat c div 16) + unat c mod 16) :: u32)"
    by (simp only: push_bit_eq_mult of_nat_add of_nat_mult of_nat_numeral) simp
  also have "\<dots> = ucast c" by (simp only: mult_div_mod_eq of_nat_unat)
  finally show ?thesis using parse_hex4_small [OF b [THEN hex_digit_tohex]] by simp
qed

lemma escape_control:
  assumes "c < 32" "c \<notin> set special"
  shows "escape c = [0x5c, 0x75, 0x30, 0x30, tohex (unat c div 16), tohex (unat c mod 16)]"
  using assms by (simp add: escape_def special_def control)

lemma unescape_control:
  assumes "c < 32" "c \<noteq> 0" "c \<notin> set special"
  shows "unescape (escape c @ X) = map_option (map_prod (Cons c) id) (unescape X)" "escapes_ok (escape c @ X) = escapes_ok X"
    "literal_len (escape c @ X) = map_option ((+) 5) (literal_len X)"
proof -
  let ?t = "0x30 # 0x30 # tohex (unat c div 16) # tohex (unat c mod 16) # X"
  have "unat c < 32" using assms(1) by (simp add: word_less_nat_alt)
  then have u: "unat (ucast c :: u32) = unat c" by (simp add: unsigned_ucast_eq take_bit_nat_eq_self)
  then have "(ucast c :: u32) \<noteq> 0" using assms(2) by (metis unsigned_0 unsigned_eq_0_iff)
  moreover have "(ucast c :: u32) < 0x80" using u \<open>unat c < 32\<close> by (simp add: word_less_nat_alt)
  ultimately have "unescape_u ?t = ([ucast (ucast c :: u32)], advance 4 ?t)" using unescape_u_ascii [of ?t] by (simp add: parse_hex4_control)
  moreover have "ucast (ucast c :: u32) = c" using u by (metis of_nat_unat ucast_id)
  ultimately have "unescape_char 0x75 ?t = ([c], Some X)" by (simp add: unescape_char_def advance_def)
  then show "unescape (escape c @ X) = map_option (map_prod (Cons c) id) (unescape X)"
    by (simp add: escape_control [OF assms(1,3)] one_more)
  have "unat c div 16 < 16" "unat c mod 16 < 16" using unsigned_less [of c, where 'a = nat] by auto
  then have h: "is_hex4 ?t" by (simp add: is_hex4_def hex_digit_tohex) (simp add: hex_digit_def)
  then show "escapes_ok (escape c @ X) = escapes_ok X" by (simp add: escape_control [OF assms(1,3)])
  show "literal_len (escape c @ X) = map_option ((+) 5) (literal_len X)"
  proof -
    have "literal_len (escape c @ X) = map_option Suc (literal_len ?t)" by (simp add: escape_control [OF assms(1,3)] del: literal_len.simps) simp
    then show ?thesis unfolding literal_len_hex4 [OF h] by (simp add: option.map_comp comp_def)
  qed
qed

lemma unescape_special:
  assumes "c \<in> set special"
  shows "unescape (escape c @ X) = map_option (map_prod (Cons c) id) (unescape X)" "escapes_ok (escape c @ X) = escapes_ok X"
    "literal_len (escape c @ X) = map_option Suc (literal_len X)"
  using assms by (auto simp: special_def escape_def unescape_char_def one_more)

lemma unescape_escape:
  assumes "c \<noteq> 0"
  shows "unescape (escape c @ X) = map_option (map_prod (Cons c) id) (unescape X) \<and> escapes_ok (escape c @ X) = escapes_ok X \<and>
    (\<exists>k \<ge> 1. literal_len (escape c @ X) = map_option ((+) k) (literal_len X))"
proof -
  consider "c \<in> set special" | "c < 32" "c \<notin> set special" | "\<not> c < 32" "c \<notin> set special" by blast
  then show ?thesis
  proof cases
    case 1
    then show ?thesis using one_more(1) by (auto simp: unescape_special intro!: exI [of _ 1])
  next
    case 2
    then show ?thesis using unescape_control [OF 2(1) assms 2(2), of X] by (intro conjI exI [of _ 5]) simp_all
  next
    case 3
    then show ?thesis using one_more(1) assms by (auto simp: escape_plain special_def intro!: exI [of _ 1])
  qed
qed

lemma escapes_ok_escaped: "0 \<notin> set s \<Longrightarrow> escapes_ok (concat (map escape s) @ X) = escapes_ok X"
  by (induction s) (auto simp: unescape_escape)

lemma unescape_escaped: "0 \<notin> set s \<Longrightarrow> unescape (concat (map escape s) @ 0x22 # X) = Some (s, 0x22 # X)"
  by (induction s) (auto simp: unescape_escape)

lemma literal_len_escaped: "0 \<notin> set s \<Longrightarrow> \<exists>len \<ge> length s. literal_len (concat (map escape s) @ 0x22 # X) = Some len"
proof (induction s)
  case (Cons c s)
  then obtain len where "length s \<le> len" "literal_len (concat (map escape s) @ 0x22 # X) = Some len" by auto
  moreover obtain k where "1 \<le> k" "literal_len (escape c @ concat (map escape s) @ 0x22 # X) = map_option ((+) k) (literal_len (concat (map escape s) @ 0x22 # X))"
    using unescape_escape [of c "concat (map escape s) @ 0x22 # X"] Cons.prems by auto
  ultimately show ?case by simp
qed simp

lemma parse_escaped:
  assumes "0 \<notin> set s"
  shows "parse_string (0x22 # concat (map escape s) @ 0x22 # X) [] = (Accept s X, [])"
proof -
  have "c_str s = s" using assms by (auto simp: c_str_def takeWhile_eq_all_conv)
  then show ?thesis using literal_len_escaped [OF assms, of X] unescape_escaped [OF assms, of X] by (auto simp: parse_string_def deref_def)
qed

end
