(* ===== verification/CJ_Json.thy ===== *)
theory CJ_Json
  imports CJ_Text
begin

text \<open>
  The items of \<^verbatim>\<open>src/cJSON.c\<close>, its parser and its printer. The chain of siblings behind \<^verbatim>\<open>child\<close> is a list.
\<close>

section \<open>Numbers\<close>

text \<open>
  Floating point arithmetic and \<^verbatim>\<open>sprintf\<close> of a double belong to the C library: the operations that the code uses are an argument of the model.
\<close>

record 'd double_ops =
  d_int :: "int \<Rightarrow> 'd"
  d_add :: "'d \<Rightarrow> 'd \<Rightarrow> 'd"
  d_sub :: "'d \<Rightarrow> 'd \<Rightarrow> 'd"
  d_mul :: "'d \<Rightarrow> 'd \<Rightarrow> 'd"
  d_le :: "'d \<Rightarrow> 'd \<Rightarrow> bool"
  d_less :: "'d \<Rightarrow> 'd \<Rightarrow> bool"
  d_abs :: "'d \<Rightarrow> 'd"
  d_floor :: "'d \<Rightarrow> 'd"
  d_pow10 :: "'d \<Rightarrow> 'd"
  d_trunc :: "'d \<Rightarrow> u32"
  d_epsilon :: 'd
  d_1e60 :: 'd
  d_1em6 :: 'd
  d_1e9 :: 'd
  d_fmt0 :: "'d \<Rightarrow> bytes"
  d_fmte :: "'d \<Rightarrow> bytes"
  d_fmtf :: "'d \<Rightarrow> bytes"

section \<open>Items\<close>

datatype cJSON_type =
    cJSON_False
  | cJSON_True
  | cJSON_NULL
  | cJSON_Number
  | cJSON_String
  | cJSON_Array
  | cJSON_Object

datatype 'd cJSON =
  Item (item_type: cJSON_type) (is_reference: bool) (valuestring: "bytes option") (valueint: u32) (valuedouble: 'd) (item_string: "bytes option") (child: "'d cJSON list")

definition cJSON_New_Item :: "'d double_ops \<Rightarrow> 'd cJSON" where
  "cJSON_New_Item D = Item cJSON_False False None 0 (d_int D 0) None []"

fun set_type :: "cJSON_type \<Rightarrow> 'd cJSON \<Rightarrow> 'd cJSON" where
  "set_type t (Item _ ref s i d k cs) = Item t ref s i d k cs"

fun set_string :: "bytes option \<Rightarrow> 'd cJSON \<Rightarrow> 'd cJSON" where
  "set_string s (Item t ref _ i d k cs) = Item t ref s i d k cs"

fun set_number :: "u32 \<Rightarrow> 'd \<Rightarrow> 'd cJSON \<Rightarrow> 'd cJSON" where
  "set_number i d (Item t ref s _ _ k cs) = Item t ref s i d k cs"

fun set_name :: "bytes option \<Rightarrow> 'd cJSON \<Rightarrow> 'd cJSON" where
  "set_name k (Item t ref s i d _ cs) = Item t ref s i d k cs"

fun set_child :: "'d cJSON list \<Rightarrow> 'd cJSON \<Rightarrow> 'd cJSON" where
  "set_child cs (Item t ref s i d k _) = Item t ref s i d k cs"

section \<open>The parser\<close>

definition skip :: "bytes \<Rightarrow> bytes" where
  "skip s = dropWhile (\<lambda>c. c \<noteq> 0 \<and> c \<le> 32) s"

definition num_char :: "byte \<Rightarrow> bool" where
  "num_char c \<longleftrightarrow> 0x30 \<le> c \<and> c \<le> 0x39"

text \<open>
  The three loops of \<^verbatim>\<open>parse_number\<close>, over the digits before the point, behind it and of the exponent; the exponent is an int that wraps around.
\<close>

fun int_digits :: "'d double_ops \<Rightarrow> 'd \<Rightarrow> bytes \<Rightarrow> 'd \<times> bytes" where
  "int_digits D n [] = (n, [])"
| "int_digits D n (c # cs) =
    (if num_char c then int_digits D (d_add D (d_mul D n (d_int D 10)) (d_int D (uint (c - 0x30)))) cs else (n, c # cs))"

fun frac_digits :: "'d double_ops \<Rightarrow> 'd \<Rightarrow> 'd \<Rightarrow> bytes \<Rightarrow> 'd \<times> 'd \<times> bytes" where
  "frac_digits D n scale [] = (n, scale, [])"
| "frac_digits D n scale (c # cs) =
    (if num_char c then frac_digits D (d_add D (d_mul D n (d_int D 10)) (d_int D (uint (c - 0x30)))) (d_sub D scale (d_int D 1)) cs
     else (n, scale, c # cs))"

fun exp_digits :: "u32 \<Rightarrow> bytes \<Rightarrow> u32 \<times> bytes" where
  "exp_digits subscale [] = (subscale, [])"
| "exp_digits subscale (c # cs) = (if num_char c then exp_digits (subscale * 10 + ucast (c - 0x30)) cs else (subscale, c # cs))"

definition parse_exponent :: "bytes \<Rightarrow> u32 \<times> bytes" where
  "parse_exponent num =
    (if deref num = 0x65 \<or> deref num = 0x45 then
       let num = drop 1 num;
           (signsubscale, num) = (if deref num = 0x2b then (1, drop 1 num) else if deref num = 0x2d then (-1, drop 1 num) else (1, num));
           (subscale, num) = exp_digits 0 num
       in (subscale * signsubscale, num)
     else (0, num))"

definition parse_number :: "'d double_ops \<Rightarrow> 'd cJSON \<Rightarrow> bytes \<Rightarrow> 'd cJSON parse" where
  "parse_number D item num =
    (let (sign, num) = (if deref num = 0x2d then (d_int D (-1), drop 1 num) else (d_int D 1, num));
         num = (if deref num = 0x30 then drop 1 num else num);
         (n, num) = (if 0x31 \<le> deref num \<and> deref num \<le> 0x39 then int_digits D (d_int D 0) num else (d_int D 0, num));
         (n, scale, num) = (if deref num = 0x2e \<and> num_char (deref (drop 1 num)) then frac_digits D n (d_int D 0) (drop 1 num) else (n, d_int D 0, num));
         (subscale, num) = parse_exponent num;
         n = d_mul D (d_mul D sign n) (d_pow10 D (d_add D scale (d_int D (sint subscale))))
     in Accept (set_type cJSON_Number (set_number (d_trunc D n) n item)) num)"

text \<open>
  \<^verbatim>\<open>parse_array\<close> and \<^verbatim>\<open>parse_object\<close> call \<^verbatim>\<open>parse_value\<close> for the elements; here it is their argument \<^verbatim>\<open>pv\<close>, and \<^verbatim>\<open>n\<close> is the fuel of their loops.
\<close>

type_synonym 'd parser = "'d cJSON \<Rightarrow> bytes \<Rightarrow> allocs \<Rightarrow> 'd cJSON parse \<times> allocs"

fun array_loop :: "'d double_ops \<Rightarrow> 'd parser \<Rightarrow> nat \<Rightarrow> 'd cJSON list \<Rightarrow> 'd parser" where
  "array_loop D pv 0 cs item value as = (Stuck, as)"
| "array_loop D pv (Suc n) cs item value as =
    (if deref value = 0x2c then
       case alloc as of (ok, as) \<Rightarrow>
         if \<not> ok then (Reject None, as)
         else case pv (cJSON_New_Item D) (skip (drop 1 value)) as of
           (Accept c r, as) \<Rightarrow> array_loop D pv n (cs @ [c]) item (skip r) as
         | (e, as) \<Rightarrow> (e, as)
     else if deref value = 0x5d then (Accept (set_child cs item) (drop 1 value), as)
     else (Reject (Some value), as))"

definition parse_array :: "'d double_ops \<Rightarrow> 'd parser \<Rightarrow> nat \<Rightarrow> 'd parser" where
  "parse_array D pv n item value as =
    (if deref value \<noteq> 0x5b then (Reject (Some value), as)
     else
       let item = set_type cJSON_Array item; value = skip (drop 1 value) in
       if deref value = 0x5d then (Accept item (drop 1 value), as)
       else
         case alloc as of (ok, as) \<Rightarrow>
           if \<not> ok then (Reject None, as)
           else case pv (cJSON_New_Item D) (skip value) as of
             (Accept c r, as) \<Rightarrow> array_loop D pv n [c] item (skip r) as
           | (e, as) \<Rightarrow> (e, as))"

definition parse_member :: "'d double_ops \<Rightarrow> 'd parser \<Rightarrow> bytes \<Rightarrow> allocs \<Rightarrow> 'd cJSON parse \<times> allocs" where
  "parse_member D pv value as =
    (case alloc as of (ok, as) \<Rightarrow>
       if \<not> ok then (Reject None, as)
       else case parse_string (skip value) as of
         (Accept k r, as) \<Rightarrow>
           let value = skip r in
           if deref value \<noteq> 0x3a then (Reject (Some value), as)
           else pv (set_name (Some k) (set_type cJSON_String (cJSON_New_Item D))) (skip (drop 1 value)) as
       | (Reject ep, as) \<Rightarrow> (Reject ep, as)
       | (Fault, as) \<Rightarrow> (Fault, as)
       | (Stuck, as) \<Rightarrow> (Stuck, as))"

fun object_loop :: "'d double_ops \<Rightarrow> 'd parser \<Rightarrow> nat \<Rightarrow> 'd cJSON list \<Rightarrow> 'd parser" where
  "object_loop D pv 0 cs item value as = (Stuck, as)"
| "object_loop D pv (Suc n) cs item value as =
    (if deref value = 0x2c then
       case parse_member D pv (drop 1 value) as of
         (Accept c r, as) \<Rightarrow> object_loop D pv n (cs @ [c]) item (skip r) as
       | (e, as) \<Rightarrow> (e, as)
     else if deref value = 0x7d then (Accept (set_child cs item) (drop 1 value), as)
     else (Reject (Some value), as))"

definition parse_object :: "'d double_ops \<Rightarrow> 'd parser \<Rightarrow> nat \<Rightarrow> 'd parser" where
  "parse_object D pv n item value as =
    (if deref value \<noteq> 0x7b then (Reject (Some value), as)
     else
       let item = set_type cJSON_Object item; value = skip (drop 1 value) in
       if deref value = 0x7d then (Accept item (drop 1 value), as)
       else
         case parse_member D pv value as of
           (Accept c r, as) \<Rightarrow> object_loop D pv n [c] item (skip r) as
         | (e, as) \<Rightarrow> (e, as))"

fun parse_value :: "'d double_ops \<Rightarrow> nat \<Rightarrow> 'd parser" where
  "parse_value D 0 item value as = (Stuck, as)"
| "parse_value D (Suc n) item value as =
    (if take 4 value = lit ''null'' then (Accept (set_type cJSON_NULL item) (drop 4 value), as)
     else if take 5 value = lit ''false'' then (Accept (set_type cJSON_False item) (drop 5 value), as)
     else if take 4 value = lit ''true'' then (Accept (set_number 1 (valuedouble item) (set_type cJSON_True item)) (drop 4 value), as)
     else if deref value = 0x22 then
       (case parse_string value as of
          (Accept v r, as) \<Rightarrow> (Accept (set_type cJSON_String (set_string (Some v) item)) r, as)
        | (Reject ep, as) \<Rightarrow> (Reject ep, as)
        | (Fault, as) \<Rightarrow> (Fault, as)
        | (Stuck, as) \<Rightarrow> (Stuck, as))
     else if deref value = 0x2d \<or> num_char (deref value) then (parse_number D item value, as)
     else if deref value = 0x5b then parse_array D (parse_value D n) n item value as
     else if deref value = 0x7b then parse_object D (parse_value D n) n item value as
     else (Reject (Some value), as))"

definition cJSON_ParseWithOpts :: "'d double_ops \<Rightarrow> bool \<Rightarrow> bytes \<Rightarrow> allocs \<Rightarrow> 'd cJSON parse \<times> allocs" where
  "cJSON_ParseWithOpts D require_null_terminated value as =
    (case alloc as of (ok, as) \<Rightarrow>
       if \<not> ok then (Reject None, as)
       else case parse_value D (length value + 1) (cJSON_New_Item D) (skip value) as of
         (Accept c r, as) \<Rightarrow>
           if require_null_terminated \<and> deref (skip r) \<noteq> 0 then (Reject (Some (skip r)), as)
           else (Accept c (if require_null_terminated then skip r else r), as)
       | (e, as) \<Rightarrow> (e, as))"

definition cJSON_Parse :: "'d double_ops \<Rightarrow> bytes \<Rightarrow> allocs \<Rightarrow> 'd cJSON parse \<times> allocs" where
  "cJSON_Parse D value as = cJSON_ParseWithOpts D False value as"

end
