(* ===== verification/CJ_Print.thy ===== *)
theory CJ_Print
  imports CJ_Json
begin

text \<open>
  The printer of \<^verbatim>\<open>src/cJSON.c\<close>. The sizes of its blocks are computed as in the code, without the wrap-around that an int has beyond two gigabytes of text.
\<close>

section \<open>Printing\<close>

definition cJSON_strdup :: "bytes \<Rightarrow> allocs \<Rightarrow> bytes printed \<times> allocs" where
  "cJSON_strdup str as = (case alloc as of (ok, as) \<Rightarrow> (if ok then written (length str + 1) str else Null, as))"

definition print_number :: "'d double_ops \<Rightarrow> u32 \<Rightarrow> 'd \<Rightarrow> allocs \<Rightarrow> bytes printed \<times> allocs" where
  "print_number D i d as =
    (case alloc as of (ok, as) \<Rightarrow>
       (if \<not> ok then Null
        else if d_le D (d_abs D (d_sub D (d_int D (sint i)) d)) (d_epsilon D) \<and> d_le D d (d_int D (2 ^ 31 - 1)) \<and> d_le D (d_int D (- (2 ^ 31))) d
          then written 21 (fmt_i (sint i))
        else if d_le D (d_abs D (d_sub D (d_floor D d) d)) (d_epsilon D) \<and> d_less D (d_abs D d) (d_1e60 D) then written 64 (d_fmt0 D d)
        else if d_less D (d_abs D d) (d_1em6 D) \<or> d_less D (d_1e9 D) (d_abs D d) then written 64 (d_fmte D d)
        else written 64 (d_fmtf D d), as))"

fun array_body :: "bool \<Rightarrow> bytes list \<Rightarrow> bytes" where
  "array_body fmt [] = []"
| "array_body fmt (e # es) = e @ (if es = [] then [] else 0x2c # (if fmt then [0x20] else [])) @ array_body fmt es"

definition array_space :: "bool \<Rightarrow> bytes list \<Rightarrow> nat" where
  "array_space fmt es = 5 + sum_list (map (\<lambda>e. length e + 2 + (if fmt then 1 else 0)) es)"

definition array_text :: "bool \<Rightarrow> bytes list \<Rightarrow> bytes" where
  "array_text fmt es = 0x5b # array_body fmt es @ [0x5d]"

fun object_body :: "nat \<Rightarrow> bool \<Rightarrow> (bytes \<times> bytes) list \<Rightarrow> bytes" where
  "object_body depth fmt [] = []"
| "object_body depth fmt ((n, e) # ms) =
    (if fmt then replicate depth 0x09 else []) @ n @ 0x3a # (if fmt then [0x09] else []) @ e @
    (if ms = [] then [] else [0x2c]) @ (if fmt then [0x0a] else []) @ object_body depth fmt ms"

definition object_space :: "nat \<Rightarrow> bool \<Rightarrow> (bytes \<times> bytes) list \<Rightarrow> nat" where
  "object_space depth fmt ms =
    7 + (if fmt then depth else 0) + sum_list (map (\<lambda>(n, e). length e + length n + 2 + (if fmt then 2 + depth else 0)) ms)"

definition object_text :: "nat \<Rightarrow> bool \<Rightarrow> (bytes \<times> bytes) list \<Rightarrow> bytes" where
  "object_text depth fmt ms =
    0x7b # (if fmt then [0x0a] else []) @ object_body depth fmt ms @ (if fmt then replicate (depth - 1) 0x09 else []) @ [0x7d]"

definition empty_object :: "nat \<Rightarrow> bool \<Rightarrow> bytes" where
  "empty_object depth fmt = 0x7b # (if fmt then 0x0a # replicate (depth - 1) 0x09 else []) @ [0x7d]"

text \<open>
  \<^verbatim>\<open>print_array\<close> stops at the first element that fails, \<^verbatim>\<open>print_object\<close> prints all its members before it looks at the failures.
\<close>

fun cons_entry :: "'a printed \<Rightarrow> 'a list printed \<Rightarrow> 'a list printed" where
  "cons_entry (Text e) (Text es) = Text (e # es)"
| "cons_entry Overrun _ = Overrun"
| "cons_entry _ Overrun = Overrun"
| "cons_entry _ _ = Null"

fun pair_entry :: "'a printed \<Rightarrow> 'b printed \<Rightarrow> ('a \<times> 'b) printed" where
  "pair_entry (Text n) (Text e) = Text (n, e)"
| "pair_entry Overrun _ = Overrun"
| "pair_entry _ Overrun = Overrun"
| "pair_entry _ _ = Null"

text \<open>
  \<^verbatim>\<open>print_array\<close> and \<^verbatim>\<open>print_object\<close> take the children and the loop that prints them.
\<close>

definition print_array :: "bool \<Rightarrow> 'd cJSON list \<Rightarrow> (allocs \<Rightarrow> bytes list printed \<times> allocs) \<Rightarrow> allocs \<Rightarrow> bytes printed \<times> allocs" where
  [simp]: "print_array fmt cs print_children as =
    (case alloc as of (ok, as) \<Rightarrow>
       if \<not> ok then (Null, as)
       else if cs = [] then (written 3 (lit ''[]''), as)
       else case print_children as of
         (Text es, as) \<Rightarrow> (case alloc as of (ok, as) \<Rightarrow> (if ok then written (array_space fmt es) (array_text fmt es) else Null, as))
       | (Null, as) \<Rightarrow> (Null, as)
       | (Overrun, as) \<Rightarrow> (Overrun, as))"

definition print_object :: "nat \<Rightarrow> bool \<Rightarrow> 'd cJSON list \<Rightarrow> (allocs \<Rightarrow> (bytes \<times> bytes) list printed \<times> allocs) \<Rightarrow> allocs \<Rightarrow> bytes printed \<times> allocs" where
  [simp]: "print_object depth fmt cs print_children as =
    (case alloc as of (ok, as) \<Rightarrow>
       if \<not> ok then (Null, as)
       else if cs = [] then (written (if fmt then depth + 4 else 3) (empty_object depth fmt), as)
       else
         case alloc as of (ok, as) \<Rightarrow>
           if \<not> ok then (Null, as)
           else case print_children as of
             (Text ms, as) \<Rightarrow>
               (case alloc as of (ok, as) \<Rightarrow> (if ok then written (object_space (depth + 1) fmt ms) (object_text (depth + 1) fmt ms) else Null, as))
           | (Null, as) \<Rightarrow> (Null, as)
           | (Overrun, as) \<Rightarrow> (Overrun, as))"

fun print_value :: "'d double_ops \<Rightarrow> nat \<Rightarrow> bool \<Rightarrow> 'd cJSON \<Rightarrow> allocs \<Rightarrow> bytes printed \<times> allocs"
  and print_entries :: "'d double_ops \<Rightarrow> nat \<Rightarrow> bool \<Rightarrow> 'd cJSON list \<Rightarrow> allocs \<Rightarrow> bytes list printed \<times> allocs"
  and print_members :: "'d double_ops \<Rightarrow> nat \<Rightarrow> bool \<Rightarrow> 'd cJSON list \<Rightarrow> allocs \<Rightarrow> (bytes \<times> bytes) list printed \<times> allocs" where
  "print_value D depth fmt (Item t ref vs i d k cs) as =
    (case t of
       cJSON_NULL \<Rightarrow> cJSON_strdup (lit ''null'') as
     | cJSON_False \<Rightarrow> cJSON_strdup (lit ''false'') as
     | cJSON_True \<Rightarrow> cJSON_strdup (lit ''true'') as
     | cJSON_Number \<Rightarrow> print_number D i d as
     | cJSON_String \<Rightarrow> print_string_ptr vs as
     | cJSON_Array \<Rightarrow> print_array fmt cs (print_entries D (depth + 1) fmt cs) as
     | cJSON_Object \<Rightarrow> print_object depth fmt cs (print_members D (depth + 1) fmt cs) as)"
| "print_entries D depth fmt [] as = (Text [], as)"
| "print_entries D depth fmt (c # cs) as =
    (case print_value D depth fmt c as of
       (Text e, as) \<Rightarrow> (case print_entries D depth fmt cs as of (es, as) \<Rightarrow> (cons_entry (Text e) es, as))
     | (Null, as) \<Rightarrow> (Null, as)
     | (Overrun, as) \<Rightarrow> (Overrun, as))"
| "print_members D depth fmt [] as = (Text [], as)"
| "print_members D depth fmt (c # cs) as =
    (case print_string_ptr (item_string c) as of (n, as) \<Rightarrow>
       case print_value D depth fmt c as of (e, as) \<Rightarrow>
         case print_members D depth fmt cs as of (ms, as) \<Rightarrow> (cons_entry (pair_entry n e) ms, as))"

definition cJSON_Print :: "'d double_ops \<Rightarrow> 'd cJSON \<Rightarrow> allocs \<Rightarrow> bytes printed \<times> allocs" where
  "cJSON_Print D item as = print_value D 0 True item as"

definition cJSON_PrintUnformatted :: "'d double_ops \<Rightarrow> 'd cJSON \<Rightarrow> allocs \<Rightarrow> bytes printed \<times> allocs" where
  "cJSON_PrintUnformatted D item as = print_value D 0 False item as"

section \<open>The blocks are large enough\<close>

text \<open>
  What \<^verbatim>\<open>sprintf\<close> promises for the three formats, under the conditions in which the code uses them.
\<close>

definition sprintf_fits :: "'d double_ops \<Rightarrow> bool" where
  "sprintf_fits D \<longleftrightarrow>
    (\<forall>x. d_less D (d_abs D x) (d_1e60 D) \<longrightarrow> length (d_fmt0 D x) < 64) \<and>
    (\<forall>x. length (d_fmte D x) < 64) \<and>
    (\<forall>x. \<not> (d_less D (d_abs D x) (d_1em6 D) \<or> d_less D (d_1e9 D) (d_abs D x)) \<longrightarrow> length (d_fmtf D x) < 64)"

lemma written_fits [simp]: "written n s = Overrun \<longleftrightarrow> \<not> length s < n"
  by (auto simp: written_def)

lemma array_body_fits: "length (array_body fmt es) \<le> sum_list (map (\<lambda>e. length e + 2 + (if fmt then 1 else 0)) es)"
  by (induction es) auto

lemma array_fits: "length (array_text fmt es) < array_space fmt es"
  using array_body_fits [of fmt es] by (simp add: array_text_def array_space_def)

lemma object_body_fits:
  "length (object_body depth fmt ms) \<le> sum_list (map (\<lambda>(n, e). length e + length n + 2 + (if fmt then 2 + depth else 0)) ms)"
  by (induction depth fmt ms rule: object_body.induct) auto

lemma object_fits: "length (object_text depth fmt ms) < object_space depth fmt ms"
  using object_body_fits [of depth fmt ms] by (auto simp: object_text_def object_space_def)

lemma empty_object_fits: "length (empty_object depth fmt) < (if fmt then depth + 4 else 3)"
  by (auto simp: empty_object_def)

lemma print_string_ptr_fits: "fst (print_string_ptr str as) \<noteq> Overrun"
  by (cases str) (auto simp: print_string_ptr_def split_beta length_escaped)

lemma sint_length: "length (fmt_i (sint (i :: u32))) < 21"
proof -
  have "- (2 ^ 31) \<le> sint i" "sint i < 2 ^ 31" using sint_greater_eq [of i] sint_less [of i] by simp_all
  then have "length (dec_of_nat (nat \<bar>sint i\<bar>)) \<le> 10" by (intro length_dec_of_nat) auto
  then show ?thesis by (auto simp: fmt_i_def abs_if split: if_splits)
qed

lemma print_number_fits: "sprintf_fits D \<Longrightarrow> fst (print_number D i d as) \<noteq> Overrun"
  using sint_length [of i] by (auto simp: print_number_def sprintf_fits_def split_beta)

lemma cJSON_strdup_fits: "fst (cJSON_strdup str as) \<noteq> Overrun"
  by (auto simp: cJSON_strdup_def split_beta)

lemma cons_entry_fits: "e \<noteq> Overrun \<Longrightarrow> es \<noteq> Overrun \<Longrightarrow> cons_entry e es \<noteq> Overrun"
  by (cases e; cases es) auto

lemma pair_entry_fits: "n \<noteq> Overrun \<Longrightarrow> e \<noteq> Overrun \<Longrightarrow> pair_entry n e \<noteq> Overrun"
  by (cases n; cases e) auto

lemma print_array_fits:
  assumes "\<And>as. fst (f as) \<noteq> Overrun"
  shows "fst (print_array fmt cs f as) \<noteq> Overrun"
proof -
  have "r \<noteq> Overrun" if "f as' = (r, as'')" for r as' as'' using assms [of as'] that by auto
  then show ?thesis using array_fits by (auto simp: lit_def split: printed.splits prod.splits)
qed

lemma print_object_fits:
  assumes "\<And>as. fst (f as) \<noteq> Overrun"
  shows "fst (print_object depth fmt cs f as) \<noteq> Overrun"
proof -
  have "r \<noteq> Overrun" if "f as' = (r, as'')" for r as' as'' using assms [of as'] that by auto
  then show ?thesis using object_fits empty_object_fits [of depth True] empty_object_fits [of depth False] by (auto split: printed.splits prod.splits)
qed

lemmas print_fits = array_fits object_fits empty_object_fits print_string_ptr_fits print_number_fits cJSON_strdup_fits cons_entry_fits pair_entry_fits

lemma print_no_overrun:
  assumes "sprintf_fits D"
  shows "fst (print_value D depth fmt item as) \<noteq> Overrun"
    and "fst (print_entries D depth fmt cs as) \<noteq> Overrun"
    and "fst (print_members D depth fmt cs as) \<noteq> Overrun"
  using assms
proof (induction D depth fmt item as and D depth fmt cs as and D depth fmt cs as rule: print_value_print_entries_print_members.induct)
  case (1 D depth fmt t ref vs i d k cs as)
  show ?case
  proof (cases t)
    case cJSON_Array
    then show ?thesis using print_array_fits [OF 1(1) [OF cJSON_Array 1(3)]] by (simp del: print_array_def)
  next
    case cJSON_Object
    then show ?thesis using print_object_fits [OF 1(2) [OF cJSON_Object 1(3)]] by (simp del: print_object_def)
  qed (use 1(3) in \<open>simp_all add: print_fits\<close>)
next
  case (3 D depth fmt c cs as)
  obtain e as1 where e: "print_value D depth fmt c as = (e, as1)" by fastforce
  then show ?case using 3(1) [OF 3(3)] 3(2) [OF e [symmetric] _ 3(3)]
    by (cases e; cases "print_entries D depth fmt cs as1") (simp_all add: cons_entry_fits)
next
  case (5 D depth fmt c cs as)
  obtain n as1 where n: "print_string_ptr (item_string c) as = (n, as1)" by fastforce
  obtain e as2 where e: "print_value D depth fmt c as1 = (e, as2)" by fastforce
  have "n \<noteq> Overrun" using print_string_ptr_fits [of "item_string c" as] n by simp
  moreover have "e \<noteq> Overrun" using 5(1) [OF n [symmetric] 5(3)] e by simp
  ultimately show ?case using 5(2) [OF n [symmetric] e [symmetric] 5(3)] n e
    by (cases "print_members D depth fmt cs as2") (simp add: print_fits)
qed simp_all

text \<open>
  C25: Printing stays inside its blocks. For every item tree, every depth, both formats and all answers of malloc, the text that \<^verbatim>\<open>print_value\<close> composes fits the block it
  allocates at each level, given that \<^verbatim>\<open>sprintf\<close> needs less than 64 bytes for a double in the ranges in which the code calls it.
\<close>
theorem print_value_in_bounds:
  assumes "sprintf_fits D"
  shows "fst (print_value D depth fmt item as) \<noteq> Overrun"
  using print_no_overrun(1) [OF assms] .

text \<open>
  Integers for doubles, to run printer and parser on numbers without fraction or exponent.
\<close>

definition int_ops :: "int double_ops" where
  "int_ops = \<lparr>d_int = id, d_add = (+), d_sub = (-), d_mul = (*), d_le = (\<le>), d_less = (<), d_abs = abs, d_floor = id, d_pow10 = (\<lambda>_. 1),
    d_trunc = of_int, d_epsilon = 0, d_1e60 = 10 ^ 60, d_1em6 = 0, d_1e9 = 10 ^ 9, d_fmt0 = fmt_i, d_fmte = (\<lambda>_. []), d_fmtf = (\<lambda>_. [])\<rparr>"

lemma int_ops_fits: "sprintf_fits int_ops"
proof -
  have "length (fmt_i x) < 64" if "\<bar>x\<bar> < 10 ^ 60" for x
  proof -
    have "length (dec_of_nat (nat \<bar>x\<bar>)) \<le> 60" using that by (intro length_dec_of_nat) (simp_all add: nat_less_iff)
    then show ?thesis by (auto simp: fmt_i_def abs_if split: if_splits)
  qed
  then show ?thesis by (simp add: sprintf_fits_def int_ops_def)
qed

text \<open>An array of a number and an object, printed with line breaks while the second allocation fails.\<close>
theorem print_value_in_bounds_witness:
  "fst (print_value int_ops 0 True
     (Item cJSON_Array False None 0 0 None [Item cJSON_Number False None 7 7 None [], Item cJSON_Object False None 0 0 None []]) [True, False]) \<noteq> Overrun"
  by (rule print_value_in_bounds) (rule int_ops_fits)

end
