(* ===== verification/CJ_Parse.thy ===== *)
theory CJ_Parse
  imports CJ_Print
begin

text \<open>
  The parser of \<^verbatim>\<open>src/cJSON.c\<close> ends on every text, and stays inside the text and its buffers when every escape is complete.
\<close>

section \<open>What is consumed\<close>

definition consumes :: "bytes \<Rightarrow> bytes \<Rightarrow> bool" where
  "consumes s r \<longleftrightarrow> (\<exists>xs. s = xs @ r \<and> 0x5c \<notin> set xs)"

lemma consumes_refl [simp]: "consumes s s"
  by (auto simp: consumes_def)

lemma consumes_trans: "consumes s r \<Longrightarrow> consumes r t \<Longrightarrow> consumes s t"
  by (fastforce simp: consumes_def)

lemma consumes_Cons: "c \<noteq> 0x5c \<Longrightarrow> consumes s r \<Longrightarrow> consumes (c # s) r"
  by (auto simp: consumes_def intro: exI [of _ "c # _"])

lemma consumes_drop1: "deref s \<noteq> 0x5c \<Longrightarrow> consumes s (drop 1 s)"
  by (cases s) (auto simp: deref_def intro: consumes_Cons)

lemma consumes_take: "0x5c \<notin> set (take n s) \<Longrightarrow> consumes s (drop n s)"
  unfolding consumes_def by (metis append_take_drop_id)

lemma escapes_ok_append: "0x5c \<notin> set xs \<Longrightarrow> escapes_ok (xs @ r) = escapes_ok r"
  by (induction xs) auto

lemma consumes_ok: "consumes s r \<Longrightarrow> escapes_ok s = escapes_ok r"
  by (auto simp: consumes_def escapes_ok_append)

lemma consumes_length: "consumes s r \<Longrightarrow> length r \<le> length s"
  by (auto simp: consumes_def)

lemma consumes_skip: "consumes s (skip s)"
proof -
  have "0x5c \<notin> set (takeWhile (\<lambda>c. c \<noteq> 0 \<and> c \<le> 32) s)" by (auto dest: set_takeWhileD)
  then show ?thesis
    unfolding consumes_def skip_def by (intro exI [of _ "takeWhile (\<lambda>c. c \<noteq> 0 \<and> c \<le> 32) s"]) simp
qed

lemma int_digits_consumes: "consumes s (snd (int_digits D n s))"
  by (induction D n s rule: int_digits.induct) (auto simp: num_char_def intro!: consumes_Cons)

lemma frac_digits_consumes: "consumes s (snd (snd (frac_digits D n scale s)))"
  by (induction D n scale s rule: frac_digits.induct) (auto simp: num_char_def intro!: consumes_Cons)

lemma exp_digits_consumes: "consumes s (snd (exp_digits n s))"
  by (induction n s rule: exp_digits.induct) (auto simp: num_char_def intro!: consumes_Cons)

lemma parse_exponent_consumes: "consumes s (snd (parse_exponent s))"
proof -
  have e: "consumes u (snd (exp_digits 0 u))" for u by (rule exp_digits_consumes)
  define s1 where "s1 = drop 1 s"
  have "consumes s1 (snd (exp_digits 0 (if deref s1 = 0x2b \<or> deref s1 = 0x2d then drop 1 s1 else s1)))"
    using consumes_trans [OF consumes_drop1 e, of s1] e by auto
  moreover have "consumes s s1" if "deref s = 0x65 \<or> deref s = 0x45" using consumes_drop1 [of s] that by (auto simp: s1_def)
  ultimately show ?thesis
    unfolding parse_exponent_def Let_def s1_def [symmetric] by (auto simp: split_beta intro: consumes_trans)
qed

lemma int_digits_rest:
  assumes "num_char (deref s)"
  shows "consumes (drop 1 s) (snd (int_digits D n s))"
  using assms by (cases s) (auto simp: deref_def num_char_def int_digits_consumes)

lemma num_char_nonzero: "num_char c \<Longrightarrow> c \<noteq> 0x30 \<Longrightarrow> 0x31 \<le> c \<and> c \<le> 0x39"
  by (simp add: num_char_def word_le_nat_alt word_unat_eq_iff)

lemma num_char_plain: "num_char c \<Longrightarrow> c \<noteq> 0 \<and> c \<noteq> 0x5c"
  by (auto simp: num_char_def)

lemma parse_number_rest:
  assumes "deref num = 0x2d \<or> num_char (deref num)"
  obtains item' r where "parse_number D item num = Accept item' r" "consumes (drop 1 num) r"
proof -
  define p1 where "p1 = (if deref num = 0x2d then (d_int D (-1), drop 1 num) else (d_int D 1, num))"
  define num1 where "num1 = snd p1"
  define num2 where "num2 = (if deref num1 = 0x30 then drop 1 num1 else num1)"
  define p3 where "p3 = (if 0x31 \<le> deref num2 \<and> deref num2 \<le> 0x39 then int_digits D (d_int D 0) num2 else (d_int D 0, num2))"
  define p4 where "p4 = (if deref (snd p3) = 0x2e \<and> num_char (deref (drop 1 (snd p3))) then frac_digits D (fst p3) (d_int D 0) (drop 1 (snd p3))
    else (fst p3, d_int D 0, snd p3))"
  define r where "r = snd (parse_exponent (snd (snd p4)))"
  have "consumes (snd p3) (snd (snd p4))"
    using consumes_trans [OF consumes_drop1 frac_digits_consumes, of "snd p3"] by (auto simp: p4_def)
  then have p3: "consumes (snd p3) r" unfolding r_def by (rule consumes_trans [OF _ parse_exponent_consumes])
  moreover have "consumes num2 (snd p3)" using int_digits_consumes [of num2 D] by (simp add: p3_def)
  ultimately have num2: "consumes num2 r" using consumes_trans by blast
  moreover have "consumes num1 num2" using consumes_drop1 [of num1] by (simp add: num2_def)
  ultimately have num1: "consumes num1 r" using consumes_trans by blast
  have "consumes (drop 1 num) r"
  proof (cases "deref num = 0x2d")
    case True
    then show ?thesis using num1 by (simp add: num1_def p1_def)
  next
    case False
    then have n: "num_char (deref num)" "num1 = num" using assms by (simp_all add: num1_def p1_def)
    show ?thesis
    proof (cases "deref num = 0x30")
      case True
      then show ?thesis using num2 n by (simp add: num2_def)
    next
      case False
      then have "num2 = num" "p3 = int_digits D (d_int D 0) num"
        using n num_char_nonzero [OF n(1)] by (simp_all add: num2_def p3_def)
      then show ?thesis using consumes_trans [OF int_digits_rest [OF n(1), of D "d_int D 0"]] p3 by simp
    qed
  qed
  moreover have "\<exists>item'. parse_number D item num = Accept item' r"
    unfolding parse_number_def p1_def [symmetric] Let_def split_beta num1_def [symmetric] num2_def [symmetric] p3_def [symmetric] p4_def [symmetric] r_def [symmetric]
    by blast
  ultimately show ?thesis using that by blast
qed

section \<open>Termination and safety\<close>

text \<open>
  A result with which a caller can go on: the loop has ended, there was no fault if the escapes are complete (\<^verbatim>\<open>safe\<close>), and the text behind an item is shorter.
\<close>

definition outcome_ok :: "bool \<Rightarrow> bytes \<Rightarrow> 'a parse \<Rightarrow> bool" where
  "outcome_ok safe src res =
    (case res of
       Stuck \<Rightarrow> False
     | Fault \<Rightarrow> \<not> safe
     | Reject ep \<Rightarrow> True
     | Accept c r \<Rightarrow> length r < length src \<and> (safe \<longrightarrow> escapes_ok r))"

lemma outcome_ok_simps [simp]:
  "\<not> outcome_ok safe src Stuck" "outcome_ok safe src Fault \<longleftrightarrow> \<not> safe" "outcome_ok safe src (Reject ep)"
  "outcome_ok safe src (Accept c r) \<longleftrightarrow> length r < length src \<and> (safe \<longrightarrow> escapes_ok r)"
  by (simp_all add: outcome_ok_def)

lemma outcome_ok_mono: "outcome_ok safe s res \<Longrightarrow> length s \<le> length t \<Longrightarrow> outcome_ok safe t res"
  by (auto simp: outcome_ok_def split: parse.splits)

definition parser_ok :: "bool \<Rightarrow> nat \<Rightarrow> 'd parser \<Rightarrow> bool" where
  "parser_ok safe n pv \<longleftrightarrow>
    (\<forall>item src as. length src < n \<longrightarrow> (safe \<longrightarrow> escapes_ok src) \<longrightarrow> outcome_ok safe src (fst (pv item src as)))"

lemma parser_okD: "parser_ok safe n pv \<Longrightarrow> length src < n \<Longrightarrow> (safe \<longrightarrow> escapes_ok src) \<Longrightarrow> outcome_ok safe src (fst (pv item src as))"
  by (simp add: parser_ok_def)

lemma skip_ok: "length (skip s) \<le> length s" "escapes_ok (skip s) = escapes_ok s"
  using consumes_skip [of s] consumes_length consumes_ok by metis+

lemma drop1_ok:
  assumes "deref s = c" "c \<noteq> 0" "c \<noteq> 0x5c"
  shows "Suc (length (drop 1 s)) = length s" "escapes_ok (drop 1 s) = escapes_ok s"
  using assms by (cases s; auto simp: deref_def)+

lemma parse_string_ok: "(safe \<longrightarrow> escapes_ok str) \<Longrightarrow> outcome_ok safe str (fst (parse_string str as))"
proof (cases "fst (parse_string str as)")
  case Stuck
  then show ?thesis by (auto simp: parse_string_def split: if_splits option.splits prod.splits)
next
  case Fault
  then show "(safe \<longrightarrow> escapes_ok str) \<Longrightarrow> ?thesis" using parse_string_safe [of str as] by (metis fst_conv outcome_ok_simps(2) parse.distinct(3,5))
next
  case (Reject ep)
  then show ?thesis by simp
next
  case (Accept v r)
  then show "(safe \<longrightarrow> escapes_ok str) \<Longrightarrow> ?thesis"
    using parse_string_safe [of str as] parse_string_shorter [of str as v r "snd (parse_string str as)"] by (metis fst_conv outcome_ok_simps(4) parse.distinct(11) parse.inject(2) prod.collapse)
qed

lemma skip_drop1_ok:
  assumes "deref s = c" "c \<noteq> 0" "c \<noteq> 0x5c"
  shows "length (skip (drop 1 s)) < length s" "escapes_ok (skip (drop 1 s)) = escapes_ok s"
  using drop1_ok [OF assms] skip_ok [of "drop 1 s"] by simp_all

lemma outcome_ok_bind:
  assumes "outcome_ok safe s (fst res)" "length s \<le> length t"
    and "\<And>c r as. res = (Accept c r, as) \<Longrightarrow> length r < length t \<Longrightarrow> (safe \<longrightarrow> escapes_ok r) \<Longrightarrow> outcome_ok safe t (fst (f c r as))"
  shows "outcome_ok safe t (fst (case res of (Accept c r, as) \<Rightarrow> f c r as | (Reject ep, as) \<Rightarrow> (Reject ep, as) | (Fault, as) \<Rightarrow> (Fault, as) | (Stuck, as) \<Rightarrow> (Stuck, as)))"
  using assms by (cases res; cases "fst res") (auto simp: outcome_ok_def)

lemma array_loop_ok:
  assumes pv: "parser_ok safe N pv" and "length src < N" "length src < m" "safe \<longrightarrow> escapes_ok src"
  shows "outcome_ok safe src (fst (array_loop D pv m cs item src as))"
  using assms(2-4)
proof (induction m arbitrary: cs src as)
  case (Suc m)
  show ?case
  proof (cases "deref src = 0x2c")
    case True
    note s = skip_drop1_ok [OF True]
    obtain ok as1 where a: "alloc as = (ok, as1)" by fastforce
    have "outcome_ok safe (skip (drop 1 src)) (fst (pv (cJSON_New_Item D) (skip (drop 1 src)) as1))"
      using parser_okD [OF pv] s Suc.prems by simp
    moreover have "outcome_ok safe src (fst (array_loop D pv m (cs @ [c]) item (skip r) as2))"
      if "length r < length src" "safe \<longrightarrow> escapes_ok r" for c r as2
      using outcome_ok_mono [OF Suc.IH [of "skip r" "cs @ [c]" as2]] that skip_ok [of r] Suc.prems by simp
    ultimately show ?thesis
      using True a s(1) outcome_ok_bind [of safe "skip (drop 1 src)" "pv (cJSON_New_Item D) (skip (drop 1 src)) as1" src "\<lambda>c r as. array_loop D pv m (cs @ [c]) item (skip r) as"]
      by (simp split: prod.splits parse.splits)
  next
    case False
    then show ?thesis using drop1_ok [of src "0x5d"] Suc.prems by auto
  qed
qed simp

lemma parse_array_ok:
  assumes pv: "parser_ok safe n pv" and "length src < Suc n" "safe \<longrightarrow> escapes_ok src"
  shows "outcome_ok safe src (fst (parse_array D pv n item src as))"
proof (cases "deref src = 0x5b")
  case True
  note s = skip_drop1_ok [OF True]
  let ?s = "skip (drop 1 src)"
  show ?thesis
  proof (cases "deref ?s = 0x5d")
    case end_of_array: True
    then show ?thesis using True s drop1_ok [OF end_of_array] assms(3) by (simp add: parse_array_def)
  next
    case False
    obtain ok as1 where a: "alloc as = (ok, as1)" by fastforce
    have l: "length (skip ?s) \<le> length ?s" "escapes_ok (skip ?s) = escapes_ok ?s" by (rule skip_ok)+
    have "outcome_ok safe (skip ?s) (fst (pv (cJSON_New_Item D) (skip ?s) as1))"
      using parser_okD [OF pv, of "skip ?s"] s l assms(2,3) by simp
    moreover have "outcome_ok safe src (fst (array_loop D pv n [c] (set_type cJSON_Array item) (skip r) as2))"
      if "length r < length src" "safe \<longrightarrow> escapes_ok r" for c r as2
      using outcome_ok_mono [OF array_loop_ok [OF pv, of "skip r" n]] that skip_ok [of r] s(1) assms(2) by simp
    ultimately show ?thesis
      using True False a s(1) l(1)
        outcome_ok_bind [of safe "skip ?s" "pv (cJSON_New_Item D) (skip ?s) as1" src "\<lambda>c r as. array_loop D pv n [c] (set_type cJSON_Array item) (skip r) as"]
      by (simp add: parse_array_def Let_def split: prod.splits parse.splits)
  qed
qed (simp add: parse_array_def)

lemma parse_member_ok:
  assumes pv: "parser_ok safe N pv" and "length src < N" "safe \<longrightarrow> escapes_ok src"
  shows "outcome_ok safe src (fst (parse_member D pv src as))"
proof -
  obtain ok as1 where a: "alloc as = (ok, as1)" by fastforce
  have str: "outcome_ok safe (skip src) (fst (parse_string (skip src) as1))" using parse_string_ok skip_ok [of src] assms(3) by simp
  define f where "f k r as = (let s = skip r in if deref s \<noteq> 0x3a then (Reject (Some s), as)
    else pv (set_name (Some k) (set_type cJSON_String (cJSON_New_Item D))) (skip (drop 1 s)) as)" for k r as
  have "outcome_ok safe src (fst (f k r as2))" if r: "length r < length src" "safe \<longrightarrow> escapes_ok r" for k r as2
  proof (cases "deref (skip r) = 0x3a")
    case c: True
    have "length (skip (drop 1 (skip r))) < length src" "safe \<longrightarrow> escapes_ok (skip (drop 1 (skip r)))"
      using skip_drop1_ok [OF c] skip_ok [of r] r by simp_all
    then show ?thesis using outcome_ok_mono [OF parser_okD [OF pv]] assms(2) c by (simp add: f_def)
  qed (simp add: f_def)
  then have "outcome_ok safe src (fst (case parse_string (skip src) as1 of (Accept k r, as) \<Rightarrow> f k r as | (Reject ep, as) \<Rightarrow> (Reject ep, as) | (Fault, as) \<Rightarrow> (Fault, as) | (Stuck, as) \<Rightarrow> (Stuck, as)))"
    using outcome_ok_bind [OF str skip_ok(1)] by blast
  then show ?thesis using a unfolding parse_member_def f_def by simp
qed

lemma object_loop_ok:
  assumes pv: "parser_ok safe N pv" and "length src < N" "length src < m" "safe \<longrightarrow> escapes_ok src"
  shows "outcome_ok safe src (fst (object_loop D pv m cs item src as))"
  using assms(2-4)
proof (induction m arbitrary: cs src as)
  case (Suc m)
  show ?case
  proof (cases "deref src = 0x2c")
    case True
    note s = drop1_ok [OF True]
    have "outcome_ok safe (drop 1 src) (fst (parse_member D pv (drop 1 src) as))"
      using parse_member_ok [OF pv] s Suc.prems by simp
    moreover have "outcome_ok safe src (fst (object_loop D pv m (cs @ [c]) item (skip r) as2))"
      if "length r < length src" "safe \<longrightarrow> escapes_ok r" for c r as2
      using outcome_ok_mono [OF Suc.IH [of "skip r" "cs @ [c]" as2]] that skip_ok [of r] Suc.prems by simp
    ultimately show ?thesis
      using True s(1) outcome_ok_bind [of safe "drop 1 src" "parse_member D pv (drop 1 src) as" src "\<lambda>c r as. object_loop D pv m (cs @ [c]) item (skip r) as"]
      by (simp split: prod.splits parse.splits)
  next
    case False
    then show ?thesis using drop1_ok [of src "0x7d"] Suc.prems by auto
  qed
qed simp

lemma parse_object_ok:
  assumes pv: "parser_ok safe n pv" and "length src < Suc n" "safe \<longrightarrow> escapes_ok src"
  shows "outcome_ok safe src (fst (parse_object D pv n item src as))"
proof (cases "deref src = 0x7b")
  case True
  note s = skip_drop1_ok [OF True]
  let ?s = "skip (drop 1 src)"
  show ?thesis
  proof (cases "deref ?s = 0x7d")
    case end_of_object: True
    then show ?thesis using True s drop1_ok [OF end_of_object] assms(3) by (simp add: parse_object_def)
  next
    case False
    have "outcome_ok safe ?s (fst (parse_member D pv ?s as))" using parse_member_ok [OF pv] s assms(2,3) by simp
    moreover have "outcome_ok safe src (fst (object_loop D pv n [c] (set_type cJSON_Object item) (skip r) as2))"
      if "length r < length src" "safe \<longrightarrow> escapes_ok r" for c r as2
      using outcome_ok_mono [OF object_loop_ok [OF pv, of "skip r" n]] that skip_ok [of r] s(1) assms(2) by simp
    ultimately show ?thesis
      using True False s(1)
        outcome_ok_bind [of safe ?s "parse_member D pv ?s as" src "\<lambda>c r as. object_loop D pv n [c] (set_type cJSON_Object item) (skip r) as"]
      by (simp add: parse_object_def Let_def split: prod.splits parse.splits)
  qed
qed (simp add: parse_object_def)

lemma literal_word_ok:
  assumes "take n src = lit w" "length w = n" "w \<noteq> []" "0x5c \<notin> set (lit w)"
  shows "length (drop n src) < length src" "escapes_ok (drop n src) = escapes_ok src"
proof -
  have "0 < min (length src) n" using arg_cong [OF assms(1), of length] assms(2,3) by (cases w) auto
  then show "length (drop n src) < length src" by auto
  show "escapes_ok (drop n src) = escapes_ok src" using consumes_ok [OF consumes_take, of n src] assms(1,4) by simp
qed

lemma parse_value_ok: "parser_ok safe n (parse_value D n)"
proof (induction n)
  case 0
  show ?case by (simp add: parser_ok_def)
next
  case (Suc n)
  have "outcome_ok safe src (fst (parse_value D (Suc n) item src as))" if l: "length src < Suc n" and e: "safe \<longrightarrow> escapes_ok src" for item src as
  proof -
    consider "take 4 src = lit ''null''" | "take 5 src = lit ''false''" "take 4 src \<noteq> lit ''null''"
      | "take 4 src = lit ''true''" "take 4 src \<noteq> lit ''null''" "take 5 src \<noteq> lit ''false''"
      | "take 4 src \<noteq> lit ''null''" "take 5 src \<noteq> lit ''false''" "take 4 src \<noteq> lit ''true''" by blast
    then show ?thesis
    proof cases
      case 1
      then show ?thesis using literal_word_ok [OF 1] e by (simp add: lit_def)
    next
      case 2
      then show ?thesis using literal_word_ok [OF 2(1)] e by (simp add: lit_def)
    next
      case 3
      then show ?thesis using literal_word_ok [OF 3(1)] e by (simp add: lit_def)
    next
      case word: 4
      consider "deref src = 0x22" | "deref src \<noteq> 0x22" "deref src = 0x2d \<or> num_char (deref src)"
        | "deref src \<noteq> 0x22" "\<not> (deref src = 0x2d \<or> num_char (deref src))" by blast
      then show ?thesis
      proof cases
        case 1
        have "outcome_ok safe src (fst (parse_string src as))" using parse_string_ok e by blast
        then show ?thesis using word 1 outcome_ok_bind [of safe src "parse_string src as" src "\<lambda>v r as. (Accept (set_type cJSON_String (set_string (Some v) item)) r, as)"]
          by simp
      next
        case 2
        then obtain item' r where r: "parse_number D item src = Accept item' r" "consumes (drop 1 src) r" using parse_number_rest by blast
        have "deref src \<noteq> 0" "deref src \<noteq> 0x5c" using 2(2) num_char_plain by auto
        then have "Suc (length (drop 1 src)) = length src" "escapes_ok (drop 1 src) = escapes_ok src" using drop1_ok [OF refl] by blast+
        then show ?thesis using word 2 r consumes_length [OF r(2)] consumes_ok [OF r(2)] e by simp
      next
        case 3
        then show ?thesis using word parse_array_ok [OF Suc.IH l e] parse_object_ok [OF Suc.IH l e] by simp
      qed
    qed
  qed
  then show ?case by (simp add: parser_ok_def)
qed

lemma cJSON_Parse_ok:
  assumes "safe \<longrightarrow> escapes_ok src"
  shows "outcome_ok safe (0 # src) (fst (cJSON_Parse D src as))"
proof -
  have "outcome_ok safe (skip src) (fst (parse_value D (Suc (length src)) (cJSON_New_Item D) (skip src) as1))" for as1
    using parser_okD [OF parse_value_ok, of "skip src" "Suc (length src)" safe] skip_ok [of src] assms by (simp del: parse_value.simps)
  then have "outcome_ok safe (0 # src) (fst (case parse_value D (Suc (length src)) (cJSON_New_Item D) (skip src) as1 of
        (Accept c r, as) \<Rightarrow> if opt \<and> deref (skip r) \<noteq> 0 then (Reject (Some (skip r)), as) else (Accept c (if opt then skip r else r), as)
      | (Reject ep, as) \<Rightarrow> (Reject ep, as) | (Fault, as) \<Rightarrow> (Fault, as) | (Stuck, as) \<Rightarrow> (Stuck, as)))" for as1 opt
    by (intro outcome_ok_bind [of safe "skip src"]) (auto simp del: parse_value.simps simp: less_Suc_eq_le skip_ok intro: le_trans [OF skip_ok(1)] le_SucI)
  then show ?thesis unfolding cJSON_Parse_def cJSON_ParseWithOpts_def by (cases "alloc as") (simp del: parse_value.simps)
qed

text \<open>
  C28: Parsing ends. On every text, the loops and the recursion of \<^verbatim>\<open>cJSON_Parse\<close> come to an end within one step per byte of the text.
\<close>
theorem cJSON_Parse_terminates: "fst (cJSON_Parse D src as) \<noteq> Stuck"
  using cJSON_Parse_ok [of False src D as] by auto

text \<open>
  C24: Parsing is safe. On a text in which every escape is complete, \<^verbatim>\<open>cJSON_Parse\<close> reads nothing behind the NUL of the text and writes nothing behind the blocks
  it allocates, whatever malloc answers; what it leaves unread is a proper part of the text again with complete escapes.
\<close>
theorem cJSON_Parse_safe:
  assumes "escapes_ok src"
  shows "case fst (cJSON_Parse D src as) of Fault \<Rightarrow> False | Stuck \<Rightarrow> False | Reject ep \<Rightarrow> True | Accept c r \<Rightarrow> length r \<le> length src \<and> escapes_ok r"
  using cJSON_Parse_ok [of True src D as] assms by (auto simp: outcome_ok_def split: parse.splits)

text \<open>The text \<^verbatim>\<open>["A"]\<close>.\<close>
theorem cJSON_Parse_safe_witness:
  "case fst (cJSON_Parse int_ops [0x5b, 0x22, 0x5c, 0x75, 0x30, 0x30, 0x34, 0x31, 0x22, 0x5d] []) of
     Fault \<Rightarrow> False | Stuck \<Rightarrow> False | Reject ep \<Rightarrow> True
   | Accept c r \<Rightarrow> length r \<le> length [0x5b :: byte, 0x22, 0x5c, 0x75, 0x30, 0x30, 0x34, 0x31, 0x22, 0x5d] \<and> escapes_ok r"
  by (rule cJSON_Parse_safe) (simp add: is_hex4_def hex_digit_def)

lemma parse_hex4_bad:
  assumes "hex_digit (deref s) = None"
  shows "parse_hex4 s = 0"
proof -
  have "(4 :: nat) = Suc 3" by simp
  then show ?thesis unfolding parse_hex4_def by (simp only: hex4_loop.simps assms option.case)
qed

text \<open>
  C40: What an incomplete escape does. For a literal that begins with \<^verbatim>\<open>"\u"\<close> the first pass of \<^verbatim>\<open>parse_string\<close> stops at the inner quote and allocates two bytes; the
  second jumps over the quote and copies what follows, however long it is, into the block. A backslash at the very end of the text makes both passes read behind it.
\<close>
theorem parse_string_overflow:
  assumes "length junk = 3" "0x22 \<notin> set rest" "0x5c \<notin> set rest" "0 \<notin> set rest" "1 < length rest"
  shows "fst (parse_string (0x22 # 0x5c # 0x75 # 0x22 # junk @ rest @ [0x22]) []) = Fault \<and> fst (parse_string [0x22, 0x5c] []) = Fault"
proof -
  have plain: "0x22 \<notin> set xs \<Longrightarrow> 0x5c \<notin> set xs \<Longrightarrow> 0 \<notin> set xs \<Longrightarrow> unescape (xs @ [0x22]) = Some (xs, [0x22])" for xs
    by (induction xs) auto
  have "parse_hex4 (0x22 # junk @ rest @ [0x22]) = 0" by (rule parse_hex4_bad) (simp add: deref_def hex_digit_def)
  then have "unescape_char 0x75 (0x22 # junk @ rest @ [0x22]) = ([], Some (rest @ [0x22]))"
    using assms(1) by (simp add: unescape_char_def unescape_u_def advance_def)
  then have "unescape (0x5c # 0x75 # 0x22 # junk @ rest @ [0x22]) = Some (rest, [0x22])"
    using plain [OF assms(2-4)] by simp
  then show ?thesis using assms(5) by (simp add: parse_string_def deref_def)
qed

text \<open>The text \<^verbatim>\<open>"\u"abcdefg"\<close>.\<close>
theorem parse_string_overflow_witness:
  "fst (parse_string (0x22 # 0x5c # 0x75 # 0x22 # lit ''abc'' @ lit ''defg'' @ [0x22]) []) = Fault \<and> fst (parse_string [0x22, 0x5c] []) = Fault"
  by (rule parse_string_overflow) (simp_all add: lit_def)

end
