(* ===== verification/CJ_Roundtrip.thy ===== *)
theory CJ_Roundtrip
  imports CJ_Parse
begin

text \<open>
  What the JSON code is for: values, the items that represent them, and that printing and parsing translate between the two.
\<close>

section \<open>Values\<close>

datatype json =
    JNull
  | JBool bool
  | JNum int
  | JStr bytes
  | JArr "json list"
  | JObj "(bytes \<times> json) list"

text \<open>
  The value of an item. Strings are C strings; only numbers that are integers of 32 bits have a value here.
\<close>

fun json_of :: "'d double_ops \<Rightarrow> 'd cJSON \<Rightarrow> json option" where
  "json_of D (Item t ref vs i d k cs) =
    (case t of
       cJSON_NULL \<Rightarrow> Some JNull
     | cJSON_False \<Rightarrow> Some (JBool False)
     | cJSON_True \<Rightarrow> Some (JBool True)
     | cJSON_Number \<Rightarrow> (if d = d_int D (sint i) then Some (JNum (sint i)) else None)
     | cJSON_String \<Rightarrow> (case vs of Some s \<Rightarrow> if 0 \<in> set s then None else Some (JStr s) | None \<Rightarrow> None)
     | cJSON_Array \<Rightarrow> map_option JArr (those (map (json_of D) cs))
     | cJSON_Object \<Rightarrow>
         map_option JObj (those (map (\<lambda>c. case item_string c of None \<Rightarrow> None
            | Some n \<Rightarrow> if 0 \<in> set n then None else map_option (Pair n) (json_of D c)) cs)))"

text \<open>The item that the parser builds for a value.\<close>

fun item_of :: "'d double_ops \<Rightarrow> bytes option \<Rightarrow> json \<Rightarrow> 'd cJSON" where
  "item_of D k JNull = Item cJSON_NULL False None 0 (d_int D 0) k []"
| "item_of D k (JBool b) = (if b then Item cJSON_True False None 1 (d_int D 0) k [] else Item cJSON_False False None 0 (d_int D 0) k [])"
| "item_of D k (JNum n) = Item cJSON_Number False None (of_int n) (d_int D n) k []"
| "item_of D k (JStr s) = Item cJSON_String False (Some s) 0 (d_int D 0) k []"
| "item_of D k (JArr js) = Item cJSON_Array False None 0 (d_int D 0) k (map (item_of D None) js)"
| "item_of D k (JObj ms) = Item cJSON_Object False None 0 (d_int D 0) k (map (\<lambda>(n, j). item_of D (Some n) j) ms)"

text \<open>The text of a value.\<close>

definition quoted :: "bytes \<Rightarrow> bytes" where
  "quoted s = 0x22 # concat (map escape s) @ [0x22]"

fun text_of :: "nat \<Rightarrow> bool \<Rightarrow> json \<Rightarrow> bytes" where
  "text_of depth fmt JNull = lit ''null''"
| "text_of depth fmt (JBool b) = (if b then lit ''true'' else lit ''false'')"
| "text_of depth fmt (JNum n) = fmt_i n"
| "text_of depth fmt (JStr s) = quoted s"
| "text_of depth fmt (JArr js) = array_text fmt (map (text_of (depth + 1) fmt) js)"
| "text_of depth fmt (JObj ms) =
    (if ms = [] then empty_object depth fmt else object_text (depth + 1) fmt (map (\<lambda>(n, j). (quoted n, text_of (depth + 1) fmt j)) ms))"

text \<open>
  The values that items can have.
\<close>

fun json_wf :: "json \<Rightarrow> bool" where
  "json_wf (JNum n) \<longleftrightarrow> - (2 ^ 31) \<le> n \<and> n < 2 ^ 31"
| "json_wf (JStr s) \<longleftrightarrow> 0 \<notin> set s"
| "json_wf (JArr js) \<longleftrightarrow> list_all json_wf js"
| "json_wf (JObj ms) \<longleftrightarrow> list_all (\<lambda>(n, j). 0 \<notin> set n \<and> json_wf j) ms"
| "json_wf _ \<longleftrightarrow> True"

text \<open>
  What IEEE 754 promises for integers that a double represents exactly.
\<close>

definition exact :: "int \<Rightarrow> bool" where
  "exact n \<longleftrightarrow> \<bar>n\<bar> \<le> 2 ^ 53"

definition exact_ints :: "'d double_ops \<Rightarrow> bool" where
  "exact_ints D \<longleftrightarrow>
    (\<forall>a b. exact a \<longrightarrow> exact b \<longrightarrow> exact (a + b) \<longrightarrow> d_add D (d_int D a) (d_int D b) = d_int D (a + b)) \<and>
    (\<forall>a b. exact a \<longrightarrow> exact b \<longrightarrow> exact (a - b) \<longrightarrow> d_sub D (d_int D a) (d_int D b) = d_int D (a - b)) \<and>
    (\<forall>a b. exact a \<longrightarrow> exact b \<longrightarrow> exact (a * b) \<longrightarrow> d_mul D (d_int D a) (d_int D b) = d_int D (a * b)) \<and>
    (\<forall>a b. exact a \<longrightarrow> exact b \<longrightarrow> d_le D (d_int D a) (d_int D b) = (a \<le> b)) \<and>
    (\<forall>a. exact a \<longrightarrow> d_abs D (d_int D a) = d_int D \<bar>a\<bar>) \<and>
    (\<forall>a. - (2 ^ 31) \<le> a \<longrightarrow> a < 2 ^ 31 \<longrightarrow> d_trunc D (d_int D a) = of_int a) \<and>
    d_pow10 D (d_int D 0) = d_int D 1 \<and> d_le D (d_int D 0) (d_epsilon D)"

section \<open>Printing writes the text of the value\<close>

lemma print_string_ptr_quoted: "print_string_ptr (Some s) [] = (Text (quoted s), [])"
  by (simp add: print_string_ptr_text quoted_def)

lemma print_number_exact:
  assumes "exact_ints D"
  shows "print_number D i (d_int D (sint i)) [] = (Text (fmt_i (sint i)), [])"
proof -
  have "- (2 ^ 31) \<le> sint i" "sint i < 2 ^ 31" using sint_greater_eq [of i] sint_less [of i] by simp_all
  then have "exact (sint i)" "exact 0" "exact (2 ^ 31 - 1)" "exact (- (2 ^ 31))" "sint i \<le> 2 ^ 31 - 1" "- (2 ^ 31) \<le> sint i" by (auto simp: exact_def)
  then have "d_le D (d_abs D (d_sub D (d_int D (sint i)) (d_int D (sint i)))) (d_epsilon D)"
    "d_le D (d_int D (sint i)) (d_int D (2 ^ 31 - 1))" "d_le D (d_int D (- (2 ^ 31))) (d_int D (sint i))"
    using assms by (simp_all add: exact_ints_def)
  then show ?thesis using sint_length [of i] by (simp add: print_number_def written_def)
qed

lemma those_map: "those (map f xs) = Some ys \<longleftrightarrow> list_all2 (\<lambda>x y. f x = Some y) xs ys"
proof (induction xs arbitrary: ys)
  case (Cons x xs)
  then show ?case by (cases ys) (auto split: option.splits)
qed auto

lemma list_all2_all: "list_all2 P xs ys \<Longrightarrow> (\<And>x y. x \<in> set xs \<Longrightarrow> P x y \<Longrightarrow> Q y) \<Longrightarrow> list_all Q ys"
  by (induction rule: list_all2_induct) auto

definition member_of :: "'d double_ops \<Rightarrow> 'd cJSON \<Rightarrow> (bytes \<times> json) option" where
  "member_of D c = (case item_string c of None \<Rightarrow> None | Some n \<Rightarrow> if 0 \<in> set n then None else map_option (Pair n) (json_of D c))"

lemma member_of_Some: "member_of D c = Some (n, j) \<longleftrightarrow> item_string c = Some n \<and> 0 \<notin> set n \<and> json_of D c = Some j"
  by (auto simp: member_of_def split: option.splits)

lemma json_of_cases:
  assumes "json_of D (Item t ref vs i d k cs) = Some j"
  obtains (scalar) "t = cJSON_NULL" "j = JNull" | (bool) b where "t = (if b then cJSON_True else cJSON_False)" "j = JBool b"
  | (number) "t = cJSON_Number" "d = d_int D (sint i)" "j = JNum (sint i)"
  | (strg) s where "t = cJSON_String" "vs = Some s" "0 \<notin> set s" "j = JStr s"
  | (array) js where "t = cJSON_Array" "j = JArr js" "list_all2 (\<lambda>c j. json_of D c = Some j) cs js"
  | (object) ms where "t = cJSON_Object" "j = JObj ms" "list_all2 (\<lambda>c m. member_of D c = Some m) cs ms"
proof (cases t)
  case cJSON_Array
  then show ?thesis using assms array by (auto simp: those_map)
next
  case cJSON_Object
  then show ?thesis using assms object by (auto simp: those_map member_of_def [symmetric])
next
  case cJSON_True
  then show ?thesis using assms bool [of True] by auto
next
  case cJSON_False
  then show ?thesis using assms bool [of False] by auto
qed (use assms scalar number strg in \<open>auto split: if_splits option.splits\<close>)

lemma json_of_wf: "json_of D item = Some j \<Longrightarrow> json_wf j"
proof (induction D item arbitrary: j rule: json_of.induct)
  case (1 D t ref vs i d k cs)
  from 1(3) show ?case
  proof (cases rule: json_of_cases)
    case number
    then show ?thesis using sint_greater_eq [of i] sint_less [of i] by simp
  next
    case (array js)
    have "list_all json_wf js" by (rule list_all2_all [OF array(3)]) (rule 1(1) [OF array(1)])
    then show ?thesis using array(2) by simp
  next
    case (object ms)
    have "case m of (n, j) \<Rightarrow> 0 \<notin> set n \<and> json_wf j" if "c \<in> set cs" "member_of D c = Some m" for c m
      using 1(2) [OF object(1) that(1)] that(2) by (cases m) (auto simp: member_of_Some)
    from list_all2_all [OF object(3) this] show ?thesis using object(2) by simp
  qed auto
qed

lemma print_entries_text:
  assumes "list_all2 (\<lambda>c j. print_value D depth fmt c [] = (Text (text_of depth fmt j), [])) cs js"
  shows "print_entries D depth fmt cs [] = (Text (map (text_of depth fmt) js), [])"
  using assms by (induction rule: list_all2_induct) simp_all

lemma print_members_text:
  assumes "list_all2 (\<lambda>c (n, j). item_string c = Some n \<and> print_value D depth fmt c [] = (Text (text_of depth fmt j), [])) cs ms"
  shows "print_members D depth fmt cs [] = (Text (map (\<lambda>(n, j). (quoted n, text_of depth fmt j)) ms), [])"
  using assms by (induction rule: list_all2_induct) (auto simp: print_string_ptr_quoted)

lemma print_value_text:
  "json_of D item = Some j \<Longrightarrow> exact_ints D \<Longrightarrow> print_value D depth fmt item [] = (Text (text_of depth fmt j), [])"
proof (induction D item arbitrary: j depth rule: json_of.induct)
  case (1 D t ref vs i d k cs)
  from 1(3) show ?case
  proof (cases rule: json_of_cases)
    case number
    then show ?thesis using print_number_exact [OF 1(4)] by simp
  next
    case (array js)
    have "list_all2 (\<lambda>c j. print_value D (depth + 1) fmt c [] = (Text (text_of (depth + 1) fmt j), [])) cs js"
      by (rule list.rel_mono_strong [OF array(3)]) (rule 1(1) [OF array(1) _ _ 1(4)])
    from print_entries_text [OF this] show ?thesis
      using array array_fits [of fmt "map (text_of (depth + 1) fmt) js"] by (cases "cs = []") (auto simp: written_def lit_def array_text_def)
  next
    case (object ms)
    have "case m of (n, j) \<Rightarrow> item_string c = Some n \<and> print_value D (depth + 1) fmt c [] = (Text (text_of (depth + 1) fmt j), [])"
      if "c \<in> set cs" "member_of D c = Some m" for c m
      using 1(2) [OF object(1) that(1) _ _ _ 1(4)] that(2) by (cases m) (auto simp: member_of_Some)
    from print_members_text [OF list.rel_mono_strong [OF object(3) this]] show ?thesis
      using object object_fits [of "depth + 1" fmt "map (\<lambda>(n, j). (quoted n, text_of (depth + 1) fmt j)) ms"] empty_object_fits [of depth fmt]
      by (cases "cs = []") (auto simp: written_def)
  qed (auto simp: cJSON_strdup_def written_def print_string_ptr_quoted)
qed

section \<open>Parsing numbers and words\<close>

text \<open>What may follow a value.\<close>

definition follow :: "bytes \<Rightarrow> bool" where
  "follow X \<longleftrightarrow> \<not> num_char (deref X) \<and> deref X \<noteq> 0x2e \<and> deref X \<noteq> 0x65 \<and> deref X \<noteq> 0x45"

lemma num_char_iff: "num_char c \<longleftrightarrow> c - 0x30 < 10"
proof -
  have "c - 0x30 < 10 \<longleftrightarrow> unat c \<ge> 48 \<and> unat c \<le> 57"
    using unsigned_less [of c, where 'a = nat] by (cases "48 \<le> unat c") (auto simp: word_less_nat_alt unat_sub_if')
  then show ?thesis by (auto simp: num_char_def word_le_nat_alt)
qed

lemma int_digits_exact:
  assumes "exact_ints D" "\<forall>d \<in> set ds. num_char d" "\<not> num_char (deref X)" "digit_value a ds \<le> 2 ^ 31"
  shows "int_digits D (d_int D (int a)) (ds @ X) = (d_int D (int (digit_value a ds)), X)"
  using assms(2,4)
proof (induction ds arbitrary: a)
  case Nil
  then show ?case using assms(3) by (cases X) (auto simp: digit_value_def deref_def)
next
  case (Cons d ds)
  obtain m where m: "unat (d - 0x30) = m" "uint (d - 0x30) = int m" by simp
  let ?a = "a * 10 + m"
  have v: "digit_value a (d # ds) = digit_value ?a ds" using m by (simp add: digit_value_def)
  then have "?a \<le> 2 ^ 31" using digit_value_mono [of ?a ds] Cons.prems by simp
  then have "exact (int a)" "exact 10" "exact (int a * 10)" "exact (int m)" "exact (int a * 10 + int m)" by (simp_all add: exact_def)
  then have "d_add D (d_mul D (d_int D (int a)) (d_int D 10)) (d_int D (uint (d - 0x30))) = d_int D (int ?a)"
    using assms(1) m(2) by (simp add: exact_ints_def)
  then show ?case using Cons.IH [of ?a] Cons.prems v by simp
qed

lemma dec_of_nat_start: "0 < n \<Longrightarrow> \<exists>c s. dec_of_nat n = c # s \<and> num_char c \<and> c \<noteq> 0x30"
proof (induction n rule: dec_of_nat.induct)
  case (1 n)
  show ?case
  proof (cases "n < 10")
    case True
    then have "(of_nat n :: byte) \<noteq> 0" using 1(2) by (auto simp: word_of_nat_eq_0_iff dest!: dvd_imp_le)
    then show ?thesis using True digit_of [OF True] by (subst dec_of_nat.simps) (simp add: num_char_iff)
  next
    case False
    then have "0 < n div 10" by (simp add: div_greater_zero_iff)
    then obtain c s where "dec_of_nat (n div 10) = c # s" "num_char c" "c \<noteq> 0x30" using 1(1) [OF False] by blast
    then show ?thesis using False by (subst dec_of_nat.simps) simp
  qed
qed

lemma parse_exponent_none: "follow X \<Longrightarrow> parse_exponent X = (0, X)"
  by (simp add: parse_exponent_def follow_def)

lemma unsigned_number:
  assumes D: "exact_ints D" and "m \<le> 2 ^ 31" "follow X"
  defines "num \<equiv> (if deref (dec_of_nat m @ X) = 0x30 then drop 1 (dec_of_nat m @ X) else dec_of_nat m @ X)"
  shows "(if 0x31 \<le> deref num \<and> deref num \<le> 0x39 then int_digits D (d_int D 0) num else (d_int D 0, num)) = (d_int D (int m), X)"
proof (cases "m = 0")
  case True
  then have "num = X" by (simp add: num_def dec_of_nat.simps deref_def)
  moreover have "\<not> (0x31 \<le> deref X \<and> deref X \<le> 0x39)" using assms(3) by (auto simp: follow_def num_char_def intro: order_trans [of _ "0x31"])
  ultimately show ?thesis using True by auto
next
  case False
  then obtain c s where c: "dec_of_nat m = c # s" "num_char c" "c \<noteq> 0x30" using dec_of_nat_start [of m] by auto
  then have "num = dec_of_nat m @ X" "0x31 \<le> deref num \<and> deref num \<le> 0x39" using num_char_nonzero [OF c(2,3)] by (simp_all add: num_def deref_def)
  then show ?thesis
    using int_digits_exact [OF D, of "dec_of_nat m" X 0] dec_digit_value [of m] assms(2,3) by (simp add: num_char_iff follow_def)
qed

lemma parse_number_exact:
  assumes D: "exact_ints D" and n: "- (2 ^ 31) \<le> n" "n < 2 ^ 31" and X: "follow X"
  shows "parse_number D item (fmt_i n @ X) = Accept (set_type cJSON_Number (set_number (of_int n) (d_int D n) item)) X"
proof -
  define m where "m = nat \<bar>n\<bar>"
  define sign where "sign = (if n < 0 then -1 else 1 :: int)"
  have m: "m \<le> 2 ^ 31" "sign * int m = n" using n by (auto simp: m_def sign_def)
  have "deref (dec_of_nat m @ X) \<noteq> 0x2d"
    using dec_of_nat_start [of m] by (cases "m = 0") (auto simp: dec_of_nat.simps [of 0] deref_def num_char_def)
  then have s: "(if deref (fmt_i n @ X) = 0x2d then (d_int D (-1), drop 1 (fmt_i n @ X)) else (d_int D 1, fmt_i n @ X)) = (d_int D sign, dec_of_nat m @ X)"
    by (auto simp: fmt_i_def m_def sign_def deref_def)
  have f: "(if deref X = 0x2e \<and> num_char (deref (drop 1 X)) then frac_digits D (d_int D (int m)) (d_int D 0) (drop 1 X) else (d_int D (int m), d_int D 0, X)) =
      (d_int D (int m), d_int D 0, X)"
    using X by (simp add: follow_def)
  have e: "exact 0" "exact 1" "exact sign" "exact (int m)" "exact n" using m n by (auto simp: exact_def sign_def m_def)
  then have "d_mul D (d_mul D (d_int D sign) (d_int D (int m))) (d_pow10 D (d_add D (d_int D 0) (d_int D (sint (0 :: u32))))) = d_int D n" "d_trunc D (d_int D n) = of_int n"
    using D m(2) n by (simp_all add: exact_ints_def)
  then show ?thesis
    unfolding parse_number_def s Let_def prod.case unsigned_number [OF D m(1) X] f parse_exponent_none [OF X] by simp
qed

lemma skip_plain: "32 < c \<Longrightarrow> skip (c # s) = c # s"
  by (auto simp: skip_def)

section \<open>Parsing reads the value back\<close>

lemma num_char_visible: "num_char c \<Longrightarrow> 32 < c \<and> c \<noteq> 0x5d \<and> c \<noteq> 0x7d"
  by (auto simp: num_char_def word_le_nat_alt word_less_nat_alt)

lemma text_start: "\<exists>c s. text_of depth fmt j = c # s \<and> 32 < c \<and> c \<noteq> 0x5d \<and> c \<noteq> 0x7d"
proof (cases j)
  case (JNum n)
  have "\<exists>c s. dec_of_nat m = c # s \<and> 32 < c \<and> c \<noteq> 0x5d \<and> c \<noteq> 0x7d" for m
    using dec_of_nat_start [of m] by (cases "m = 0") (auto simp: dec_of_nat.simps [of 0] dest: num_char_visible)
  then show ?thesis using JNum by (cases "n < 0") (simp_all add: fmt_i_def)
qed (simp_all add: lit_def quoted_def array_text_def object_text_def empty_object_def)

lemma skip_text: "skip (text_of depth fmt j @ X) = text_of depth fmt j @ X"
  using text_start [of depth fmt j] by (auto simp: skip_plain)

lemma skip_white: "list_all (\<lambda>c. c \<noteq> 0 \<and> c \<le> 32) ws \<Longrightarrow> skip (ws @ s) = skip s"
  by (induction ws) (auto simp: skip_def)

lemma parse_quoted: "0 \<notin> set s \<Longrightarrow> parse_string (quoted s @ X) [] = (Accept s X, [])"
  using parse_escaped [of s X] by (simp add: quoted_def)

text \<open>A parser that reads the values of a set, as \<^verbatim>\<open>parse_value\<close> does with fuel \<^verbatim>\<open>n\<close>.\<close>

definition reads :: "'d double_ops \<Rightarrow> nat \<Rightarrow> bool \<Rightarrow> nat \<Rightarrow> 'd parser \<Rightarrow> json set \<Rightarrow> bool" where
  "reads D depth fmt n pv J \<longleftrightarrow>
    (\<forall>j \<in> J. \<forall>t k X. follow X \<longrightarrow> length (text_of depth fmt j @ X) < n \<longrightarrow>
       pv (Item t False None 0 (d_int D 0) k []) (text_of depth fmt j @ X) [] = (Accept (item_of D k j) X, []))"

lemma readsD:
  "reads D depth fmt n pv J \<Longrightarrow> j \<in> J \<Longrightarrow> follow X \<Longrightarrow> length (text_of depth fmt j @ X) < n \<Longrightarrow>
    pv (Item t False None 0 (d_int D 0) k []) (text_of depth fmt j @ X) [] = (Accept (item_of D k j) X, [])"
  by (simp add: reads_def)

definition array_tail :: "nat \<Rightarrow> bool \<Rightarrow> json list \<Rightarrow> bytes \<Rightarrow> bytes" where
  "array_tail depth fmt js X =
    (if js = [] then [] else 0x2c # (if fmt then [0x20] else [])) @ array_body fmt (map (text_of depth fmt) js) @ 0x5d # X"

lemma array_tail_start: "\<exists>c s. array_tail depth fmt js X = c # s \<and> (c = 0x2c \<or> c = 0x5d)"
  by (cases js) (auto simp: array_tail_def)

lemma array_tail_simps: "follow (array_tail depth fmt js X)" "skip (array_tail depth fmt js X) = array_tail depth fmt js X"
  using array_tail_start [of depth fmt js X] by (auto simp: follow_def deref_def num_char_def skip_plain)

lemma array_tail_Cons:
  "array_tail depth fmt (j # js) X = 0x2c # (if fmt then [0x20] else []) @ text_of depth fmt j @ array_tail depth fmt js X"
  by (simp add: array_tail_def)

lemma array_loop_reads:
  assumes "reads D depth fmt N pv (set js)" "length (array_tail depth fmt js X) < m" "m \<le> N"
  shows "array_loop D pv m cs item (array_tail depth fmt js X) [] = (Accept (set_child (cs @ map (item_of D None) js) item) X, [])"
  using assms
proof (induction js arbitrary: m cs)
  case Nil
  then show ?case by (cases m) (simp_all add: array_tail_def deref_def)
next
  case (Cons j js)
  then obtain m' where m: "m = Suc m'" by (cases m) auto
  have l: "length (text_of depth fmt j @ array_tail depth fmt js X) < m'" "length (array_tail depth fmt js X) < m'" "m' \<le> N"
    using Cons.prems m by (auto simp: array_tail_Cons split: if_splits)
  have s: "skip ((if fmt then [0x20] else []) @ text_of depth fmt j @ array_tail depth fmt js X) = text_of depth fmt j @ array_tail depth fmt js X"
    by (simp add: skip_white [of "[0x20]", simplified] skip_text)
  have "pv (cJSON_New_Item D) (text_of depth fmt j @ array_tail depth fmt js X) [] = (Accept (item_of D None j) (array_tail depth fmt js X), [])"
    unfolding cJSON_New_Item_def using l by (intro readsD [OF Cons.prems(1)]) (simp_all add: array_tail_simps)
  moreover have "reads D depth fmt N pv (set js)" using Cons.prems(1) by (simp add: reads_def)
  ultimately show ?case
    using Cons.IH [of m' "cs @ [item_of D None j]"] l m s by (simp add: array_tail_Cons deref_def array_tail_simps)
qed

lemma parse_array_reads:
  assumes pv: "reads D (depth + 1) fmt n pv (set js)" and l: "length (text_of depth fmt (JArr js) @ X) < Suc n"
  shows "parse_array D pv n (Item t False None 0 (d_int D 0) k []) (text_of depth fmt (JArr js) @ X) [] = (Accept (item_of D k (JArr js)) X, [])"
proof (cases js)
  case Nil
  then show ?thesis by (simp add: parse_array_def array_text_def deref_def skip_plain)
next
  case (Cons j js')
  let ?s = "text_of (depth + 1) fmt j @ array_tail (depth + 1) fmt js' X"
  have s: "text_of depth fmt (JArr js) @ X = 0x5b # ?s" by (simp add: Cons array_text_def array_tail_def)
  have l': "length ?s < n" using l unfolding s by simp
  have "deref ?s \<noteq> 0x5d" "skip ?s = ?s" using text_start [of "depth + 1" fmt j] skip_text [of "depth + 1" fmt j] by (auto simp: deref_def)
  moreover have "pv (cJSON_New_Item D) ?s [] = (Accept (item_of D None j) (array_tail (depth + 1) fmt js' X), [])"
    unfolding cJSON_New_Item_def using l' Cons by (intro readsD [OF pv]) (simp_all add: array_tail_simps)
  moreover have "array_loop D pv n [item_of D None j] (Item cJSON_Array False None 0 (d_int D 0) k []) (array_tail (depth + 1) fmt js' X) [] =
      (Accept (set_child ([item_of D None j] @ map (item_of D None) js') (Item cJSON_Array False None 0 (d_int D 0) k [])) X, [])"
    using pv l' Cons by (intro array_loop_reads [where N = n]) (simp_all add: reads_def)
  ultimately show ?thesis unfolding s using Cons by (simp add: parse_array_def deref_def array_tail_simps Let_def)
qed

definition object_tail :: "nat \<Rightarrow> bool \<Rightarrow> (bytes \<times> json) list \<Rightarrow> bytes \<Rightarrow> bytes" where
  "object_tail depth fmt ms X =
    (if ms = [] then [] else [0x2c]) @ (if fmt then [0x0a] else []) @ object_body depth fmt (map (\<lambda>(n, j). (quoted n, text_of depth fmt j)) ms) @
    (if fmt then replicate (depth - 1) 0x09 else []) @ 0x7d # X"

definition member_text :: "nat \<Rightarrow> bool \<Rightarrow> bytes \<Rightarrow> json \<Rightarrow> bytes" where
  "member_text depth fmt n j = (if fmt then replicate depth 0x09 else []) @ quoted n @ 0x3a # (if fmt then [0x09] else []) @ text_of depth fmt j"

lemma object_tail_Cons:
  "object_tail depth fmt ((n, j) # ms) X = 0x2c # (if fmt then [0x0a] else []) @ member_text depth fmt n j @ object_tail depth fmt ms X"
  by (simp add: object_tail_def member_text_def)

lemma white: "list_all (\<lambda>c. c \<noteq> 0 \<and> c \<le> 32) (replicate n (0x09 :: byte))" "list_all (\<lambda>c. c \<noteq> 0 \<and> c \<le> 32) [0x0a :: byte]"
  by (simp_all add: list_all_iff)

lemma object_tail_simps:
  "follow (object_tail depth fmt ms X)" "skip (object_tail depth fmt [] X) = 0x7d # X" "skip (object_tail depth fmt (m # ms) X) = object_tail depth fmt (m # ms) X"
proof -
  show "follow (object_tail depth fmt ms X)" by (cases ms; cases fmt) (auto simp: object_tail_def follow_def deref_def num_char_def)
  have "skip ([0x0a] @ replicate (depth - 1) 0x09 @ 0x7d # X) = 0x7d # X" by (simp only: skip_white [OF white(2)] skip_white [OF white(1)]) (simp add: skip_plain)
  then show "skip (object_tail depth fmt [] X) = 0x7d # X" by (simp add: object_tail_def skip_plain)
  show "skip (object_tail depth fmt (m # ms) X) = object_tail depth fmt (m # ms) X" by (simp add: object_tail_def skip_plain)
qed

lemma skip_member:
  assumes "list_all (\<lambda>c. c \<noteq> 0 \<and> c \<le> 32) ws"
  shows "skip (ws @ member_text depth fmt n j @ X) = quoted n @ 0x3a # (if fmt then [0x09] else []) @ text_of depth fmt j @ X"
  using white(1) [of depth] by (simp add: skip_white [OF assms] member_text_def skip_white) (simp add: quoted_def skip_plain)

lemma skip_skip: "skip (skip s) = skip s"
  by (induction s) (auto simp: skip_def)

lemma parse_member_skip: "parse_member D pv (skip s) as = parse_member D pv s as"
  unfolding parse_member_def skip_skip ..

lemma parse_member_reads:
  assumes pv: "reads D depth fmt N pv {j}" and n: "0 \<notin> set n" and "follow X" "length (member_text depth fmt n j @ X) < N"
    and ws: "list_all (\<lambda>c. c \<noteq> 0 \<and> c \<le> 32) ws"
  shows "parse_member D pv (ws @ member_text depth fmt n j @ X) [] = (Accept (item_of D (Some n) j) X, [])"
proof -
  let ?r = "0x3a # (if fmt then [0x09] else []) @ text_of depth fmt j @ X"
  have "skip (ws @ member_text depth fmt n j @ X) = quoted n @ ?r" by (rule skip_member [OF ws])
  moreover have "skip (drop 1 ?r) = text_of depth fmt j @ X"
    by (simp add: skip_white [of "[0x09]", simplified] skip_text)
  moreover have "pv (Item cJSON_String False None 0 (d_int D 0) (Some n) []) (text_of depth fmt j @ X) [] = (Accept (item_of D (Some n) j) X, [])"
    using assms(3,4) by (intro readsD [OF pv]) (simp_all add: member_text_def)
  ultimately show ?thesis
    using parse_quoted [OF n, of ?r] by (simp add: parse_member_def cJSON_New_Item_def skip_plain deref_def Let_def)
qed

lemma object_loop_reads:
  assumes "reads D depth fmt N pv (snd ` set ms)" "list_all (\<lambda>(n, j). 0 \<notin> set n) ms" "length (object_tail depth fmt ms X) < m" "m \<le> N"
  shows "object_loop D pv m cs item (skip (object_tail depth fmt ms X)) [] = (Accept (set_child (cs @ map (\<lambda>(n, j). item_of D (Some n) j) ms) item) X, [])"
  using assms
proof (induction ms arbitrary: m cs)
  case Nil
  then obtain m' where "m = Suc m'" by (cases m) auto
  then show ?case by (simp add: object_tail_simps deref_def)
next
  case (Cons nj ms)
  obtain n j where nj: "nj = (n, j)" by fastforce
  obtain m' where m: "m = Suc m'" using Cons.prems(3) by (cases m) auto
  have l: "length (member_text depth fmt n j @ object_tail depth fmt ms X) < N" "length (object_tail depth fmt ms X) < m'" "m' \<le> N"
    using Cons.prems m nj by (auto simp: object_tail_Cons split: if_splits)
  have "parse_member D pv ((if fmt then [0x0a] else []) @ member_text depth fmt n j @ object_tail depth fmt ms X) [] =
      (Accept (item_of D (Some n) j) (object_tail depth fmt ms X), [])"
    using Cons.prems(1,2) nj l(1) by (intro parse_member_reads) (simp_all add: reads_def object_tail_simps)
  moreover have "reads D depth fmt N pv (snd ` set ms)" using Cons.prems(1) by (simp add: reads_def)
  ultimately show ?case
    using Cons.IH [of m' "cs @ [item_of D (Some n) j]"] Cons.prems(2) l m nj by (simp add: object_tail_simps) (simp add: object_tail_Cons deref_def)
qed

lemma parse_object_reads:
  assumes pv: "reads D (depth + 1) fmt n pv (snd ` set ms)" and wf: "list_all (\<lambda>(n, j). 0 \<notin> set n) ms"
    and l: "length (text_of depth fmt (JObj ms) @ X) < Suc n"
  shows "parse_object D pv n (Item t False None 0 (d_int D 0) k []) (text_of depth fmt (JObj ms) @ X) [] = (Accept (item_of D k (JObj ms)) X, [])"
proof (cases ms)
  case Nil
  have "skip (0x0a # replicate (depth - 1) 0x09 @ 0x7d # X) = 0x7d # X"
    using skip_white [OF white(2)] skip_white [OF white(1)] by (simp add: skip_plain)
  then show ?thesis using Nil by (simp add: parse_object_def empty_object_def deref_def skip_plain)
next
  case (Cons nj ms')
  obtain m j where nj: "nj = (m, j)" by fastforce
  let ?w = "if fmt then [0x0a] else [] :: bytes" and ?s = "member_text (depth + 1) fmt m j @ object_tail (depth + 1) fmt ms' X"
  have s: "text_of depth fmt (JObj ms) @ X = 0x7b # ?w @ ?s" by (simp add: Cons nj object_text_def object_tail_def member_text_def)
  have l': "length ?s < n" using l unfolding s by simp
  have w: "list_all (\<lambda>c. c \<noteq> 0 \<and> c \<le> 32) ?w" by simp
  have sk: "deref (skip (?w @ ?s)) = 0x22" using skip_member [OF w] by (simp add: quoted_def deref_def)
  have "parse_member D pv (skip (?w @ ?s)) [] = (Accept (item_of D (Some m) j) (object_tail (depth + 1) fmt ms' X), [])"
    using pv wf l' w Cons nj unfolding parse_member_skip by (intro parse_member_reads) (simp_all add: reads_def object_tail_simps)
  moreover have "object_loop D pv n [item_of D (Some m) j] (Item cJSON_Object False None 0 (d_int D 0) k []) (skip (object_tail (depth + 1) fmt ms' X)) [] =
      (Accept (set_child ([item_of D (Some m) j] @ map (\<lambda>(n, j). item_of D (Some n) j) ms') (Item cJSON_Object False None 0 (d_int D 0) k [])) X, [])"
    using pv wf l' Cons nj by (intro object_loop_reads [where N = n]) (simp_all add: reads_def)
  ultimately show ?thesis unfolding s using Cons nj sk by (simp add: parse_object_def Let_def) (simp add: deref_def)
qed

lemma not_word:
  assumes "c \<noteq> 0x6e" "c \<noteq> 0x66" "c \<noteq> 0x74"
  shows "take 4 (c # s) \<noteq> lit ''null''" "take 5 (c # s) \<noteq> lit ''false''" "take 4 (c # s) \<noteq> lit ''true''"
  using assms by (simp_all add: lit_def)

lemma fmt_i_start: "\<exists>c s. fmt_i n = c # s \<and> (c = 0x2d \<or> num_char c)"
proof -
  have "\<exists>c s. dec_of_nat m = c # s \<and> num_char c" for m
    using dec_of_nat_start [of m] by (cases "m = 0") (auto simp: dec_of_nat.simps [of 0] num_char_def)
  then show ?thesis unfolding fmt_i_def by fastforce
qed

lemma parse_value_reads:
  assumes D: "exact_ints D"
  shows "json_wf j \<Longrightarrow> reads D depth fmt n (parse_value D n) {j}"
proof (induction n arbitrary: j depth)
  case 0
  show ?case by (simp add: reads_def)
next
  case (Suc n)
  have "parse_value D (Suc n) (Item t False None 0 (d_int D 0) k []) (text_of depth fmt j @ X) [] = (Accept (item_of D k j) X, [])"
    if X: "follow X" and l: "length (text_of depth fmt j @ X) < Suc n" for t k X
  proof (cases j)
    case JNull
    then show ?thesis by (simp add: lit_def)
  next
    case (JBool b)
    then show ?thesis by (simp add: lit_def)
  next
    case (JNum m)
    obtain c s where c: "fmt_i m = c # s" "c = 0x2d \<or> num_char c" using fmt_i_start by blast
    then have "c \<noteq> 0x6e" "c \<noteq> 0x66" "c \<noteq> 0x74" "c \<noteq> 0x22" by (auto simp: num_char_def)
    then show ?thesis
      using JNum Suc.prems c parse_number_exact [OF D, of m X] X not_word [of c "s @ X"] by (simp add: deref_def)
  next
    case (JStr s)
    then show ?thesis using parse_quoted [of s X] Suc.prems by (simp add: quoted_def deref_def lit_def)
  next
    case (JArr js)
    have "reads D (depth + 1) fmt n (parse_value D n) (set js)" using Suc.IH Suc.prems JArr by (auto simp: reads_def list_all_iff)
    from parse_array_reads [OF this] show ?thesis
      using l JArr by (simp add: array_text_def deref_def num_char_def lit_def)
  next
    case (JObj ms)
    have "reads D (depth + 1) fmt n (parse_value D n) (snd ` set ms)" using Suc.IH Suc.prems JObj by (fastforce simp: reads_def list_all_iff)
    moreover have "list_all (\<lambda>(n, j). 0 \<notin> set n) ms" using Suc.prems JObj by (auto simp: list_all_iff)
    ultimately have o: "parse_object D (parse_value D n) n (Item t False None 0 (d_int D 0) k []) (text_of depth fmt j @ X) [] = (Accept (item_of D k j) X, [])"
      using parse_object_reads l unfolding JObj by blast
    have "\<exists>s. text_of depth fmt j @ X = 0x7b # s" by (simp add: JObj object_text_def empty_object_def)
    then obtain s where s: "text_of depth fmt j @ X = 0x7b # s" by blast
    show ?thesis using o unfolding s by (simp add: deref_def num_char_def lit_def)
  qed
  then show ?case by (simp add: reads_def)
qed

lemma those_inverse: "(\<And>x. x \<in> set xs \<Longrightarrow> f (g x) = Some x) \<Longrightarrow> those (map f (map g xs)) = Some xs"
  by (induction xs) simp_all

lemma item_string_item_of: "item_string (item_of D k j) = k"
  by (cases j) simp_all

lemma json_of_item_of: "json_wf j \<Longrightarrow> json_of D (item_of D k j) = Some j"
proof (induction j arbitrary: k)
  case (JNum n)
  then have "sint (of_int n :: u32) = n" by (simp add: signed_of_int signed_take_bit_int_eq_self)
  then show ?case by simp
next
  case (JArr js)
  then have "those (map (json_of D) (map (item_of D None) js)) = Some js" by (intro those_inverse) (simp add: list_all_iff)
  then show ?case by simp
next
  case (JObj ms)
  then have "those (map (member_of D) (map (\<lambda>(n, j). item_of D (Some n) j) ms)) = Some ms"
    by (intro those_inverse) (fastforce simp: list_all_iff member_of_Some item_string_item_of)
  then show ?case by (simp add: member_of_def [abs_def])
qed simp_all

text \<open>
  C8: JSON survives printing and parsing. An item tree whose numbers are integers of 32 bits is printed, formatted or not, as a text that \<^verbatim>\<open>cJSON_Parse\<close> reads to the end
  and turns into an item tree with the same value, given that doubles compute exactly on integers up to two to the 53.
\<close>
theorem json_roundtrip:
  assumes "exact_ints D" "json_of D item = Some j"
  shows "\<exists>out item'. print_value D 0 fmt item [] = (Text out, []) \<and> cJSON_Parse D out [] = (Accept item' [], []) \<and> json_of D item' = Some j"
proof -
  let ?out = "text_of 0 fmt j"
  have wf: "json_wf j" using assms(2) by (rule json_of_wf)
  have "follow []" by (simp add: follow_def deref_def num_char_def)
  then have "parse_value D (length ?out + 1) (cJSON_New_Item D) (?out @ []) [] = (Accept (item_of D None j) [], [])"
    unfolding cJSON_New_Item_def by (intro readsD [OF parse_value_reads [OF assms(1) wf]]) simp_all
  then have "cJSON_Parse D ?out [] = (Accept (item_of D None j) [], [])"
    using skip_text [of 0 fmt j "[]"] by (simp add: cJSON_Parse_def cJSON_ParseWithOpts_def del: parse_value.simps)
  then show ?thesis using print_value_text [OF assms(2,1)] json_of_item_of [OF wf] by blast
qed

lemma int_ops_exact: "exact_ints int_ops"
  by (simp add: exact_ints_def int_ops_def)

text \<open>The answer \<^verbatim>\<open>{"code": -7, "msg": [null]}\<close>.\<close>

definition example_item :: "int cJSON" where
  "example_item = Item cJSON_Object False None 0 0 None
    [Item cJSON_Number False None (-7) (-7) (Some (lit ''code'')) [],
     Item cJSON_Array False None 0 0 (Some (lit ''msg'')) [Item cJSON_NULL False None 0 0 None []]]"

lemma example_item_json: "json_of int_ops example_item = Some (JObj [(lit ''code'', JNum (-7)), (lit ''msg'', JArr [JNull])])"
  by (simp add: example_item_def int_ops_def lit_def)

theorem json_roundtrip_witness:
  "\<exists>out item'. print_value int_ops 0 True example_item [] = (Text out, []) \<and> cJSON_Parse int_ops out [] = (Accept item' [], []) \<and>
    json_of int_ops item' = Some (JObj [(lit ''code'', JNum (-7)), (lit ''msg'', JArr [JNull])])"
  by (rule json_roundtrip [OF int_ops_exact example_item_json])

end
