(* ===== verification/CJ_Edit.thy ===== *)
theory CJ_Edit
  imports CJ_Roundtrip
begin

text \<open>
  Building and editing item trees with \<^verbatim>\<open>src/cJSON.c\<close>: access by index and by name, adding, detaching, replacing, creating and copying items. Names are compared
  without regard to case. An operation that may fail for lack of memory consumes answers of malloc; a null pointer is None.
\<close>

section \<open>Names\<close>

definition tolower :: "byte \<Rightarrow> byte" where
  "tolower c = (if 0x41 \<le> c \<and> c \<le> 0x5a then c + 0x20 else c)"

fun strcasecmp_loop :: "bytes \<Rightarrow> bytes \<Rightarrow> int" where
  "strcasecmp_loop [] s2 = - uint (tolower (deref s2))"
| "strcasecmp_loop (c # cs) s2 =
    (if tolower c = tolower (deref s2) then if c = 0 then 0 else strcasecmp_loop cs (drop 1 s2)
     else uint (tolower c) - uint (tolower (deref s2)))"

definition cJSON_strcasecmp :: "bytes option \<Rightarrow> bytes option \<Rightarrow> int" where
  "cJSON_strcasecmp s1 s2 =
    (case s1 of
       None \<Rightarrow> if s2 = None then 0 else 1
     | Some a \<Rightarrow> (case s2 of None \<Rightarrow> 1 | Some b \<Rightarrow> strcasecmp_loop a b))"

section \<open>Access\<close>

text \<open>The loops of the form \<^verbatim>\<open>while (c && which>0) c=c->next,which--\<close>, with what lies before the item and from it on.\<close>

fun walk :: "int \<Rightarrow> 'a list \<Rightarrow> 'a list \<times> 'a list" where
  "walk which [] = ([], [])"
| "walk which (c # cs) = (if 0 < which then map_prod (Cons c) id (walk (which - 1) cs) else ([], c # cs))"

definition has_name :: "bytes \<Rightarrow> 'd cJSON \<Rightarrow> bool" where
  "has_name str c \<longleftrightarrow> cJSON_strcasecmp (item_string c) (Some str) = 0"

fun name_index :: "bytes \<Rightarrow> 'd cJSON list \<Rightarrow> int option" where
  "name_index str [] = None"
| "name_index str (c # cs) = (if has_name str c then Some 0 else map_option (\<lambda>i. i + 1) (name_index str cs))"

definition cJSON_GetArraySize :: "'d cJSON \<Rightarrow> nat" where
  "cJSON_GetArraySize array = length (child array)"

definition cJSON_GetArrayItem :: "'d cJSON \<Rightarrow> int \<Rightarrow> 'd cJSON option" where
  "cJSON_GetArrayItem array i = (case walk i (child array) of (pre, []) \<Rightarrow> None | (pre, c # cs) \<Rightarrow> Some c)"

definition cJSON_GetObjectItem :: "'d cJSON \<Rightarrow> bytes \<Rightarrow> 'd cJSON option" where
  "cJSON_GetObjectItem obj str = find (has_name str) (child obj)"

section \<open>Editing\<close>

definition cJSON_AddItemToArray :: "'d cJSON \<Rightarrow> 'd cJSON option \<Rightarrow> 'd cJSON" where
  "cJSON_AddItemToArray array item = (case item of None \<Rightarrow> array | Some c \<Rightarrow> set_child (child array @ [c]) array)"

definition cJSON_AddItemToObject :: "'d cJSON \<Rightarrow> bytes \<Rightarrow> 'd cJSON option \<Rightarrow> allocs \<Rightarrow> 'd cJSON \<times> allocs" where
  "cJSON_AddItemToObject obj str item as =
    (case item of
       None \<Rightarrow> (obj, as)
     | Some c \<Rightarrow> (case alloc as of (ok, as) \<Rightarrow> (cJSON_AddItemToArray obj (Some (set_name (if ok then Some str else None) c)), as)))"

definition create_reference :: "'d cJSON \<Rightarrow> allocs \<Rightarrow> 'd cJSON option \<times> allocs" where
  "create_reference item as =
    (case alloc as of (ok, as) \<Rightarrow>
       (if ok then Some (Item (item_type item) True (valuestring item) (valueint item) (valuedouble item) None (child item)) else None, as))"

definition cJSON_AddItemReferenceToArray :: "'d cJSON \<Rightarrow> 'd cJSON \<Rightarrow> allocs \<Rightarrow> 'd cJSON \<times> allocs" where
  "cJSON_AddItemReferenceToArray array item as = (case create_reference item as of (r, as) \<Rightarrow> (cJSON_AddItemToArray array r, as))"

definition cJSON_AddItemReferenceToObject :: "'d cJSON \<Rightarrow> bytes \<Rightarrow> 'd cJSON \<Rightarrow> allocs \<Rightarrow> 'd cJSON \<times> allocs" where
  "cJSON_AddItemReferenceToObject obj str item as = (case create_reference item as of (r, as) \<Rightarrow> cJSON_AddItemToObject obj str r as)"

definition cJSON_DetachItemFromArray :: "'d cJSON \<Rightarrow> int \<Rightarrow> 'd cJSON option \<times> 'd cJSON" where
  "cJSON_DetachItemFromArray array which =
    (case walk which (child array) of (pre, []) \<Rightarrow> (None, array) | (pre, c # cs) \<Rightarrow> (Some c, set_child (pre @ cs) array))"

definition cJSON_DeleteItemFromArray :: "'d cJSON \<Rightarrow> int \<Rightarrow> 'd cJSON" where
  "cJSON_DeleteItemFromArray array which = snd (cJSON_DetachItemFromArray array which)"

definition cJSON_DetachItemFromObject :: "'d cJSON \<Rightarrow> bytes \<Rightarrow> 'd cJSON option \<times> 'd cJSON" where
  "cJSON_DetachItemFromObject obj str =
    (case name_index str (child obj) of None \<Rightarrow> (None, obj) | Some i \<Rightarrow> cJSON_DetachItemFromArray obj i)"

definition cJSON_DeleteItemFromObject :: "'d cJSON \<Rightarrow> bytes \<Rightarrow> 'd cJSON" where
  "cJSON_DeleteItemFromObject obj str = snd (cJSON_DetachItemFromObject obj str)"

definition cJSON_ReplaceItemInArray :: "'d cJSON \<Rightarrow> int \<Rightarrow> 'd cJSON \<Rightarrow> 'd cJSON" where
  "cJSON_ReplaceItemInArray array which newitem =
    (case walk which (child array) of (pre, []) \<Rightarrow> array | (pre, c # cs) \<Rightarrow> set_child (pre @ newitem # cs) array)"

definition cJSON_ReplaceItemInObject :: "'d cJSON \<Rightarrow> bytes \<Rightarrow> 'd cJSON \<Rightarrow> allocs \<Rightarrow> 'd cJSON \<times> allocs" where
  "cJSON_ReplaceItemInObject obj str newitem as =
    (case name_index str (child obj) of
       None \<Rightarrow> (obj, as)
     | Some i \<Rightarrow> (case alloc as of (ok, as) \<Rightarrow> (cJSON_ReplaceItemInArray obj i (set_name (if ok then Some str else None) newitem), as)))"

section \<open>Creating and copying\<close>

definition create_item :: "'d double_ops \<Rightarrow> cJSON_type \<Rightarrow> allocs \<Rightarrow> 'd cJSON option \<times> allocs" where
  "create_item D t as = (case alloc as of (ok, as) \<Rightarrow> (if ok then Some (set_type t (cJSON_New_Item D)) else None, as))"

definition cJSON_CreateNumber :: "'d double_ops \<Rightarrow> 'd \<Rightarrow> allocs \<Rightarrow> 'd cJSON option \<times> allocs" where
  "cJSON_CreateNumber D num as = (case create_item D cJSON_Number as of (item, as) \<Rightarrow> (map_option (set_number (d_trunc D num) num) item, as))"

definition cJSON_CreateString :: "'d double_ops \<Rightarrow> bytes \<Rightarrow> allocs \<Rightarrow> 'd cJSON option \<times> allocs" where
  "cJSON_CreateString D str as =
    (case create_item D cJSON_String as of
       (None, as) \<Rightarrow> (None, as)
     | (Some item, as) \<Rightarrow> (case alloc as of (ok, as) \<Rightarrow> (Some (set_string (if ok then Some str else None) item), as)))"

text \<open>
  The loop of \<^verbatim>\<open>cJSON_CreateIntArray\<close> and its three siblings, with the constructor of the elements as an argument. The first element may be a null pointer if it
  is the only one; any other null pointer is dereferenced when it is linked, the outer None.
\<close>

type_synonym 'd creator = "allocs \<Rightarrow> 'd cJSON option \<times> allocs"

fun link_items :: "'d creator list \<Rightarrow> 'd cJSON list \<Rightarrow> allocs \<Rightarrow> 'd cJSON list option \<times> allocs" where
  "link_items [] cs as = (Some cs, as)"
| "link_items (f # fs) cs as =
    (case f as of
       (None, as) \<Rightarrow> (if cs = [] \<and> fs = [] then Some [] else None, as)
     | (Some c, as) \<Rightarrow> link_items fs (cs @ [c]) as)"

definition create_array :: "'d double_ops \<Rightarrow> 'd creator list \<Rightarrow> allocs \<Rightarrow> 'd cJSON option option \<times> allocs" where
  "create_array D fs as =
    (case create_item D cJSON_Array as of
       (None, as) \<Rightarrow> (Some None, as)
     | (Some a, as) \<Rightarrow> (case link_items fs [] as of (r, as) \<Rightarrow> (map_option (\<lambda>cs. Some (set_child cs a)) r, as)))"

definition cJSON_CreateDoubleArray :: "'d double_ops \<Rightarrow> 'd list \<Rightarrow> allocs \<Rightarrow> 'd cJSON option option \<times> allocs" where
  "cJSON_CreateDoubleArray D numbers = create_array D (map (cJSON_CreateNumber D) numbers)"

definition cJSON_CreateIntArray :: "'d double_ops \<Rightarrow> u32 list \<Rightarrow> allocs \<Rightarrow> 'd cJSON option option \<times> allocs" where
  "cJSON_CreateIntArray D numbers = create_array D (map (\<lambda>n. cJSON_CreateNumber D (d_int D (sint n))) numbers)"

text \<open>\<^verbatim>\<open>float\<close> is a parameter: the type of its values and the widening to \<^verbatim>\<open>double\<close>, which the C compiler inserts.\<close>

definition cJSON_CreateFloatArray :: "'d double_ops \<Rightarrow> ('f \<Rightarrow> 'd) \<Rightarrow> 'f list \<Rightarrow> allocs \<Rightarrow> 'd cJSON option option \<times> allocs" where
  "cJSON_CreateFloatArray D widen numbers = create_array D (map (\<lambda>n. cJSON_CreateNumber D (widen n)) numbers)"

definition cJSON_CreateStringArray :: "'d double_ops \<Rightarrow> bytes list \<Rightarrow> allocs \<Rightarrow> 'd cJSON option option \<times> allocs" where
  "cJSON_CreateStringArray D strings = create_array D (map (cJSON_CreateString D) strings)"

definition strdup_field :: "bytes option \<Rightarrow> allocs \<Rightarrow> bool \<times> allocs" where
  "strdup_field s as = (case s of None \<Rightarrow> (True, as) | Some _ \<Rightarrow> alloc as)"

fun cJSON_Duplicate :: "'d cJSON \<Rightarrow> bool \<Rightarrow> allocs \<Rightarrow> 'd cJSON option \<times> allocs"
  and duplicate_chain :: "'d cJSON list \<Rightarrow> allocs \<Rightarrow> 'd cJSON list option \<times> allocs" where
  "cJSON_Duplicate (Item t ref vs i d k cs) recurse as =
    (case alloc as of (ok, as) \<Rightarrow>
       if \<not> ok then (None, as)
       else case strdup_field vs as of (ok, as) \<Rightarrow>
         if \<not> ok then (None, as)
         else case strdup_field k as of (ok, as) \<Rightarrow>
           if \<not> ok then (None, as)
           else if \<not> recurse then (Some (Item t False vs i d k []), as)
           else case duplicate_chain cs as of (r, as) \<Rightarrow> (map_option (Item t False vs i d k) r, as))"
| "duplicate_chain [] as = (Some [], as)"
| "duplicate_chain (c # cs) as =
    (case cJSON_Duplicate c True as of
       (None, as) \<Rightarrow> (None, as)
     | (Some c', as) \<Rightarrow> (case duplicate_chain cs as of (r, as) \<Rightarrow> (map_option (Cons c') r, as)))"

section \<open>An object is a map\<close>

definition casefold :: "bytes \<Rightarrow> bytes" where
  "casefold s = map tolower s"

lemma tolower_0: "tolower c = 0 \<longleftrightarrow> c = 0"
proof -
  have "unat (c + 0x20) \<noteq> 0" if "0x41 \<le> c" "c \<le> 0x5a"
    using that by (simp add: word_le_nat_alt unat_word_ariths)
  then show ?thesis by (auto simp: tolower_def)
qed

lemma deref_simps: "deref [] = 0" "deref (c # cs) = c"
  by (simp_all add: deref_def)

lemma strcasecmp_loop_0: "0 \<notin> set a \<Longrightarrow> 0 \<notin> set b \<Longrightarrow> strcasecmp_loop a b = 0 \<longleftrightarrow> casefold a = casefold b"
proof (induction a arbitrary: b)
  case Nil
  have "strcasecmp_loop [] b = 0 \<longleftrightarrow> tolower (deref b) = 0" by (simp add: word_uint_eq_iff)
  then show ?case using Nil by (cases b) (simp_all add: casefold_def deref_simps tolower_0)
next
  case (Cons c cs)
  have c: "c \<noteq> 0" "tolower c \<noteq> 0" "0 \<notin> set cs" using Cons.prems(1) tolower_0 by auto
  show ?case
  proof (cases b)
    case Nil
    have "tolower 0 = 0" using tolower_0 [of 0] by simp
    moreover have "uint (tolower c) \<noteq> 0" using c(2) by (simp add: word_uint_eq_iff)
    ultimately show ?thesis using Nil c by (simp add: casefold_def deref_simps)
  next
    case (Cons d ds)
    have "uint (tolower c) - uint (tolower d) = 0 \<longleftrightarrow> tolower c = tolower d" by (simp add: word_uint_eq_iff)
    then show ?thesis using Cons.IH [of ds] Cons Cons.prems c by (simp add: casefold_def deref_simps)
  qed
qed

text \<open>The members have names, as C strings.\<close>

definition names_ok :: "'d cJSON list \<Rightarrow> bool" where
  "names_ok cs \<longleftrightarrow> list_all (\<lambda>c. case item_string c of None \<Rightarrow> False | Some n \<Rightarrow> 0 \<notin> set n) cs"

definition name_key :: "'d cJSON \<Rightarrow> bytes" where
  "name_key c = casefold (the (item_string c))"

lemma has_name_key: "names_ok [c] \<Longrightarrow> 0 \<notin> set n \<Longrightarrow> has_name n c \<longleftrightarrow> name_key c = casefold n"
  by (auto simp: names_ok_def has_name_def name_key_def cJSON_strcasecmp_def strcasecmp_loop_0 split: option.splits)

lemma find_has_name: "names_ok cs \<Longrightarrow> 0 \<notin> set n \<Longrightarrow> find (has_name n) cs = find (\<lambda>c. name_key c = casefold n) cs"
  by (induction cs) (auto simp: names_ok_def has_name_key)

lemma set_name_simps [simp]:
  "item_string (set_name k c) = k" "child (set_child cs c) = cs" "names_ok (a @ b) \<longleftrightarrow> names_ok a \<and> names_ok b"
  "names_ok (set_name (Some n) c # cs) \<longleftrightarrow> 0 \<notin> set n \<and> names_ok cs" "name_key (set_name (Some n) c) = casefold n"
  by (cases c; auto simp: names_ok_def name_key_def)+

lemma names_ok_Cons: "names_ok (c # cs) \<longleftrightarrow> names_ok [c] \<and> names_ok cs"
  by (simp add: names_ok_def)

lemma name_index_cases:
  assumes "names_ok cs" "0 \<notin> set n"
  obtains (absent) "name_index n cs = None" "\<forall>c \<in> set cs. name_key c \<noteq> casefold n"
  | (found) pre c post where "cs = pre @ c # post" "name_index n cs = Some (int (length pre))" "name_key c = casefold n" "\<forall>c \<in> set pre. name_key c \<noteq> casefold n"
proof -
  have "name_index n cs = None \<and> (\<forall>c \<in> set cs. name_key c \<noteq> casefold n) \<or>
    (\<exists>pre c post. cs = pre @ c # post \<and> name_index n cs = Some (int (length pre)) \<and> name_key c = casefold n \<and> (\<forall>c \<in> set pre. name_key c \<noteq> casefold n))"
    using assms(1)
  proof (induction cs)
    case (Cons c cs)
    then have c: "names_ok [c]" "names_ok cs" using names_ok_Cons by blast+
    show ?case
    proof (cases "has_name n c")
      case True
      then show ?thesis using has_name_key [OF c(1) assms(2)] by (intro disjI2 exI [of _ "[]"]) simp
    next
      case False
      then have k: "name_key c \<noteq> casefold n" using has_name_key [OF c(1) assms(2)] by simp
      from Cons.IH [OF c(2)] show ?thesis
      proof (elim disjE exE conjE)
        fix pre d post
        assume "cs = pre @ d # post" "name_index n cs = Some (int (length pre))" "name_key d = casefold n" "\<forall>c \<in> set pre. name_key c \<noteq> casefold n"
        then show ?thesis using False k by (intro disjI2 exI [of _ "c # pre"] exI [of _ d] exI [of _ post]) simp
      qed (use False k in simp)
    qed
  qed simp
  then show ?thesis using absent found by blast
qed

lemma walk_append: "walk (int (length pre)) (pre @ c # post) = (pre, c # post)"
  by (induction pre) auto

text \<open>
  The abstract view of an object: a map from names, up to case, to items.
\<close>

definition object_map :: "'d cJSON \<Rightarrow> bytes \<rightharpoonup> 'd cJSON" where
  "object_map obj k = find (\<lambda>c. name_key c = k) (child obj)"

definition object_ok :: "'d cJSON \<Rightarrow> bool" where
  "object_ok obj \<longleftrightarrow> names_ok (child obj) \<and> distinct (map name_key (child obj))"

lemma object_names: "object_ok obj \<Longrightarrow> names_ok (child obj)"
  by (simp add: object_ok_def)

lemma find_append_key: "find P (xs @ ys) = (case find P xs of None \<Rightarrow> find P ys | Some x \<Rightarrow> Some x)"
  by (induction xs) auto

lemma find_none: "\<forall>x \<in> set xs. key x \<noteq> k \<Longrightarrow> find (\<lambda>x. key x = k) xs = None"
  by (simp add: find_None_iff)

lemma get_object_map: "object_ok obj \<Longrightarrow> 0 \<notin> set n \<Longrightarrow> cJSON_GetObjectItem obj n = object_map obj (casefold n)"
  by (simp add: object_ok_def cJSON_GetObjectItem_def object_map_def find_has_name)

lemma add_object_map:
  assumes "object_ok obj" "0 \<notin> set n" "object_map obj (casefold n) = None"
  shows "object_map (fst (cJSON_AddItemToObject obj n (Some c) [])) = (object_map obj)(casefold n \<mapsto> set_name (Some n) c) \<and>
    object_ok (fst (cJSON_AddItemToObject obj n (Some c) []))"
proof -
  have "casefold n \<notin> name_key ` set (child obj)" using assms(3) by (auto simp: object_map_def find_None_iff)
  moreover have "names_ok []" by (simp add: names_ok_def)
  ultimately have "object_ok (fst (cJSON_AddItemToObject obj n (Some c) []))"
    using assms(1,2) by (simp add: object_ok_def cJSON_AddItemToObject_def cJSON_AddItemToArray_def)
  moreover have "object_map (fst (cJSON_AddItemToObject obj n (Some c) [])) k = ((object_map obj)(casefold n \<mapsto> set_name (Some n) c)) k" for k
    using assms(3) by (auto simp: cJSON_AddItemToObject_def cJSON_AddItemToArray_def object_map_def find_append_key split: option.splits)
  ultimately show ?thesis by blast
qed

lemma replace_object_map:
  assumes "object_ok obj" "0 \<notin> set n" "object_map obj (casefold n) \<noteq> None"
  shows "object_map (fst (cJSON_ReplaceItemInObject obj n c [])) = (object_map obj)(casefold n \<mapsto> set_name (Some n) c) \<and>
    object_ok (fst (cJSON_ReplaceItemInObject obj n c []))"
  using object_names [OF assms(1)] assms(2)
proof (cases rule: name_index_cases)
  case absent
  then show ?thesis using assms(3) find_none [OF absent(2)] by (simp add: object_map_def)
next
  case (found pre d post)
  have r: "child (fst (cJSON_ReplaceItemInObject obj n c [])) = pre @ set_name (Some n) c # post"
    unfolding cJSON_ReplaceItemInObject_def cJSON_ReplaceItemInArray_def using found by (simp add: walk_append)
  have "object_map (fst (cJSON_ReplaceItemInObject obj n c [])) k = ((object_map obj)(casefold n \<mapsto> set_name (Some n) c)) k" for k
    using found find_none [OF found(4)] by (auto simp: object_map_def r find_append_key split: option.splits)
  moreover have "object_ok (fst (cJSON_ReplaceItemInObject obj n c []))"
    using assms(1,2) found(1,3) names_ok_Cons [of d post] by (auto simp: object_ok_def r)
  ultimately show ?thesis by blast
qed

lemma detach_object_map:
  assumes "object_ok obj" "0 \<notin> set n"
  shows "fst (cJSON_DetachItemFromObject obj n) = object_map obj (casefold n)"
  using object_names [OF assms(1)] assms(2)
proof (cases rule: name_index_cases)
  case absent
  then show ?thesis using find_none [OF absent(2)] by (simp add: cJSON_DetachItemFromObject_def object_map_def)
next
  case (found pre d post)
  then show ?thesis using find_none [OF found(4)]
    by (simp add: cJSON_DetachItemFromObject_def cJSON_DetachItemFromArray_def walk_append object_map_def find_append_key)
qed

lemma delete_object_map:
  assumes "object_ok obj" "0 \<notin> set n"
  shows "object_map (cJSON_DeleteItemFromObject obj n) = (object_map obj)(casefold n := None) \<and> object_ok (cJSON_DeleteItemFromObject obj n)"
  using object_names [OF assms(1)] assms(2)
proof (cases rule: name_index_cases)
  case absent
  then have "cJSON_DeleteItemFromObject obj n = obj" by (simp add: cJSON_DeleteItemFromObject_def cJSON_DetachItemFromObject_def)
  moreover have "object_map obj (casefold n) = None" using find_none [OF absent(2)] by (simp add: object_map_def)
  ultimately show ?thesis using assms by auto
next
  case (found pre d post)
  have r: "child (cJSON_DeleteItemFromObject obj n) = pre @ post"
    unfolding cJSON_DeleteItemFromObject_def cJSON_DetachItemFromObject_def cJSON_DetachItemFromArray_def using found by (simp add: walk_append)
  have "name_key d \<notin> name_key ` set (pre @ post)" using assms(1) found(1) by (simp add: object_ok_def image_Un)
  then have d: "\<forall>c \<in> set (pre @ post). name_key c \<noteq> casefold n" using found(3) by (metis imageI)
  have "object_map (cJSON_DeleteItemFromObject obj n) k = ((object_map obj)(casefold n := None)) k" for k
    using found find_none [OF d] by (cases "k = casefold n") (auto simp: object_map_def r find_append_key split: option.splits)
  moreover have "object_ok (cJSON_DeleteItemFromObject obj n)"
    using assms(1) found(1) names_ok_Cons [of d post] by (auto simp: object_ok_def r)
  ultimately show ?thesis by blast
qed

text \<open>
  C23: An object whose members have distinct names is a map from names, up to case, to items, and stays one: \<^verbatim>\<open>cJSON_GetObjectItem\<close> looks a name up,
  \<^verbatim>\<open>cJSON_AddItemToObject\<close> with a new name and \<^verbatim>\<open>cJSON_ReplaceItemInObject\<close> with a name of the object update the map there,
  \<^verbatim>\<open>cJSON_DetachItemFromObject\<close> and \<^verbatim>\<open>cJSON_DeleteItemFromObject\<close> remove the name, when memory is not short.
\<close>
theorem object_is_map:
  assumes "object_ok obj" "0 \<notin> set n"
  shows "cJSON_GetObjectItem obj n = object_map obj (casefold n) \<and>
    fst (cJSON_DetachItemFromObject obj n) = object_map obj (casefold n) \<and>
    object_map (cJSON_DeleteItemFromObject obj n) = (object_map obj)(casefold n := None) \<and>
    object_ok (cJSON_DeleteItemFromObject obj n) \<and>
    (object_map obj (casefold n) = None \<longrightarrow>
      object_map (fst (cJSON_AddItemToObject obj n (Some c) [])) = (object_map obj)(casefold n \<mapsto> set_name (Some n) c) \<and>
      object_ok (fst (cJSON_AddItemToObject obj n (Some c) []))) \<and>
    (object_map obj (casefold n) \<noteq> None \<longrightarrow>
      object_map (fst (cJSON_ReplaceItemInObject obj n c [])) = (object_map obj)(casefold n \<mapsto> set_name (Some n) c) \<and>
      object_ok (fst (cJSON_ReplaceItemInObject obj n c [])))"
  using get_object_map [OF assms] detach_object_map [OF assms] delete_object_map [OF assms] add_object_map [OF assms] replace_object_map [OF assms]
  by blast

text \<open>In the object \<^verbatim>\<open>{"code": -7, "msg": [null]}\<close> the name MSG is replaced, then code is removed.\<close>
theorem object_is_map_witness:
  "object_map (fst (cJSON_ReplaceItemInObject example_item (lit ''MSG'') (Item cJSON_True False None 1 0 None []) [])) =
     (object_map example_item)(lit ''msg'' \<mapsto> Item cJSON_True False None 1 0 (Some (lit ''MSG'')) []) \<and>
   object_map (cJSON_DeleteItemFromObject example_item (lit ''code'')) (lit ''code'') = None"
proof -
  have ok: "object_ok example_item"
    by (simp add: object_ok_def names_ok_def name_key_def example_item_def casefold_def tolower_def lit_def word_le_nat_alt)
  have n: "0 \<notin> set (lit ''MSG'')" "0 \<notin> set (lit ''code'')" by (simp_all add: lit_def)
  have f: "casefold (lit ''MSG'') = lit ''msg''" "casefold (lit ''code'') = lit ''code''"
    by (simp_all add: casefold_def tolower_def lit_def word_le_nat_alt)
  have "object_map example_item (lit ''msg'') \<noteq> None"
    by (simp add: object_map_def name_key_def example_item_def casefold_def tolower_def lit_def word_le_nat_alt)
  then show ?thesis
    using object_is_map [OF ok n(1), of "Item cJSON_True False None 1 0 None []"] object_is_map [OF ok n(2)] by (simp add: f)
qed

section \<open>Copies\<close>

text \<open>The number of allocations a deep copy makes, and the copy: every item of the tree, none of them a reference.\<close>

fun copy_allocs :: "'d cJSON \<Rightarrow> nat" where
  "copy_allocs (Item t ref vs i d k cs) = 1 + (if vs = None then 0 else 1) + (if k = None then 0 else 1) + sum_list (map copy_allocs cs)"

fun owned :: "'d cJSON \<Rightarrow> 'd cJSON" where
  "owned (Item t ref vs i d k cs) = Item t False vs i d k (map owned cs)"

lemma alloc_take: "alloc as = (list_all id (take 1 as), drop 1 as)"
  by (cases as) simp_all

lemma strdup_field_take:
  "strdup_field s as = (list_all id (take (if s = None then 0 else 1) as), drop (if s = None then 0 else 1) as)"
  by (cases s) (simp_all add: strdup_field_def alloc_take)

lemma all_take_add: "list_all P (take (m + n) as) \<longleftrightarrow> list_all P (take m as) \<and> list_all P (take n (drop m as))"
  by (simp add: take_add)

lemma drop_plus: "drop (m + n) as = drop n (drop m as)"
  by (simp add: add.commute)

definition copied :: "nat \<Rightarrow> 'a \<Rightarrow> allocs \<Rightarrow> 'a option \<times> allocs \<Rightarrow> bool" where
  "copied n x as r \<longleftrightarrow> (if list_all id (take n as) then r = (Some x, drop n as) else fst r = None)"

lemma duplicate_chain_copied:
  "(\<And>c as. c \<in> set cs \<Longrightarrow> copied (copy_allocs c) (owned c) as (cJSON_Duplicate c True as)) \<Longrightarrow>
    copied (sum_list (map copy_allocs cs)) (map owned cs) as (duplicate_chain cs as)"
proof (induction cs arbitrary: as)
  case (Cons c cs)
  have c: "copied (copy_allocs c) (owned c) as (cJSON_Duplicate c True as)" by (rule Cons.prems) simp
  have cs: "copied (sum_list (map copy_allocs cs)) (map owned cs) as' (duplicate_chain cs as')" for as'
    by (rule Cons.IH, rule Cons.prems) simp
  show ?case
  proof (cases "list_all id (take (copy_allocs c) as)")
    case True
    then have "cJSON_Duplicate c True as = (Some (owned c), drop (copy_allocs c) as)" using c by (simp add: copied_def)
    then show ?thesis using cs [of "drop (copy_allocs c) as"] True
      by (cases "duplicate_chain cs (drop (copy_allocs c) as)") (auto simp: copied_def all_take_add add.commute)
  next
    case False
    then have "fst (cJSON_Duplicate c True as) = None" using c by (simp add: copied_def)
    then show ?thesis using False by (cases "cJSON_Duplicate c True as") (simp add: copied_def all_take_add)
  qed
qed (simp add: copied_def)

lemma duplicate_copied: "copied (copy_allocs c) (owned c) as (cJSON_Duplicate c True as)"
proof (induction c arbitrary: as)
  case (Item t ref vs i d k cs)
  define m where "m = sum_list (map copy_allocs cs)"
  define u where "u = (1 :: nat)"
  define v where "v = (if vs = None then 0 else 1 :: nat)"
  define l where "l = (if k = None then 0 else 1 :: nat)"
  have a: "alloc as' = (list_all id (take u as'), drop u as')" "strdup_field vs as' = (list_all id (take v as'), drop v as')"
    "strdup_field k as' = (list_all id (take l as'), drop l as')" for as'
    by (simp_all add: alloc_take strdup_field_take u_def v_def l_def)
  have r: "copied m (map owned cs) as' (duplicate_chain cs as')" for as'
    unfolding m_def by (rule duplicate_chain_copied) (rule Item.IH)
  have n: "copy_allocs (Item t ref vs i d k cs) = u + (v + (l + m))" by (simp add: m_def u_def v_def l_def)
  show ?case
    unfolding n using r [of "drop l (drop v (drop u as))"]
    by (cases "duplicate_chain cs (drop l (drop v (drop u as)))")
      (auto simp: copied_def all_take_add a drop_plus simp del: copy_allocs.simps drop_drop)
qed

text \<open>
  C38: \<^verbatim>\<open>cJSON_Duplicate\<close> with recursion returns a copy of the whole tree, in which no item is a reference, exactly when each of the allocations for the
  items and their strings succeeds; one failure and it returns a null pointer.
\<close>
theorem duplicate_all_or_nothing:
  "fst (cJSON_Duplicate c True as) = (if list_all id (take (copy_allocs c) as) then Some (owned c) else None)"
  using duplicate_copied [of c as] by (simp add: copied_def split: if_splits)

end
