(* ===== verification/CJ_Typed.thy ===== *)
theory CJ_Typed
  imports CJ_Edit
begin

text \<open>
  The items that the parser of \<^verbatim>\<open>src/cJSON.c\<close> returns are well typed: the fields of an item agree with its type tag at every level of the tree.
\<close>

definition c_string :: "bytes option \<Rightarrow> bool" where
  "c_string s = (case s of None \<Rightarrow> False | Some v \<Rightarrow> 0 \<notin> set v)"

fun typed :: "'d double_ops \<Rightarrow> 'd cJSON \<Rightarrow> bool" where
  "typed D (Item t ref vs i d k cs) \<longleftrightarrow>
    \<not> ref \<and>
    (case t of
       cJSON_String \<Rightarrow> c_string vs \<and> cs = []
     | cJSON_Number \<Rightarrow> vs = None \<and> cs = [] \<and> i = d_trunc D d
     | cJSON_True \<Rightarrow> vs = None \<and> cs = [] \<and> i = 1
     | cJSON_False \<Rightarrow> vs = None \<and> cs = [] \<and> i = 0
     | cJSON_NULL \<Rightarrow> vs = None \<and> cs = [] \<and> i = 0
     | cJSON_Array \<Rightarrow> vs = None \<and> (\<forall>c \<in> set cs. item_string c = None \<and> typed D c)
     | cJSON_Object \<Rightarrow> vs = None \<and> (\<forall>c \<in> set cs. c_string (item_string c) \<and> typed D c))"

text \<open>An item as it is handed to \<^verbatim>\<open>parse_value\<close>: just allocated, or with the name of a member.\<close>

definition fresh :: "'d cJSON \<Rightarrow> bool" where
  "fresh item \<longleftrightarrow> (\<exists>t d k. item = Item t False None 0 d k [])"

lemma fresh_simps [simp]:
  "fresh (cJSON_New_Item D)" "fresh (set_type t item) \<longleftrightarrow> fresh item" "fresh (set_name k item) \<longleftrightarrow> fresh item"
  "item_string (cJSON_New_Item D) = None" "item_string (set_type t item) = item_string item" "item_string (set_child cs item) = item_string item"
  "item_string (set_number i d item) = item_string item" "item_string (set_string s item) = item_string item"
  by (cases item; auto simp: fresh_def cJSON_New_Item_def)+

lemma parse_string_c_string: "parse_string s as = (Accept v r, as') \<Longrightarrow> 0 \<notin> set v"
  by (auto simp: parse_string_def c_str_def split: if_splits option.splits prod.splits dest: set_takeWhileD)

lemma parse_number_typed:
  assumes "fresh item" "parse_number D item s = Accept c r"
  shows "typed D c \<and> item_string c = item_string item"
proof -
  obtain n where "c = set_type cJSON_Number (set_number (d_trunc D n) n item)"
    using assms(2) by (auto simp: parse_number_def Let_def split: prod.splits)
  then show ?thesis using assms(1) by (auto simp: fresh_def)
qed

definition parser_typed :: "'d double_ops \<Rightarrow> 'd parser \<Rightarrow> bool" where
  "parser_typed D pv \<longleftrightarrow>
    (\<forall>item src as c r as'. fresh item \<longrightarrow> pv item src as = (Accept c r, as') \<longrightarrow> typed D c \<and> item_string c = item_string item)"

lemma parser_typedD:
  "parser_typed D pv \<Longrightarrow> pv item src as = (Accept c r, as') \<Longrightarrow> fresh item \<Longrightarrow> typed D c \<and> item_string c = item_string item"
  unfolding parser_typed_def by blast

lemma array_loop_typed:
  assumes pv: "parser_typed D pv"
  shows "\<forall>c \<in> set cs. item_string c = None \<and> typed D c \<Longrightarrow> array_loop D pv n cs item src as = (Accept x r, as') \<Longrightarrow>
    \<exists>cs'. x = set_child cs' item \<and> (\<forall>c \<in> set cs'. item_string c = None \<and> typed D c)"
proof (induction n arbitrary: cs src as)
  case (Suc n)
  show ?case
  proof (cases "deref src = 0x2c")
    case True
    then obtain as1 c s as2 where c: "pv (cJSON_New_Item D) (skip (drop 1 src)) as1 = (Accept c s, as2)"
      and l: "array_loop D pv n (cs @ [c]) item (skip s) as2 = (Accept x r, as')"
      using Suc.prems(2) by (auto split: prod.splits if_splits parse.splits)
    have "typed D c \<and> item_string c = None" using parser_typedD [OF pv c] by simp
    then show ?thesis using Suc.IH [OF _ l] Suc.prems(1) by auto
  next
    case False
    then show ?thesis using Suc.prems by (auto split: if_splits)
  qed
qed simp

lemma parse_array_typed:
  assumes pv: "parser_typed D pv" and "fresh item" "parse_array D pv n item src as = (Accept x r, as')"
  shows "typed D x \<and> item_string x = item_string item"
proof -
  have "\<exists>cs'. x = set_child cs' (set_type cJSON_Array item) \<and> (\<forall>c \<in> set cs'. item_string c = None \<and> typed D c)"
  proof (cases "deref (skip (drop 1 src)) = 0x5d")
    case True
    then have "x = set_child [] (set_type cJSON_Array item)"
      using assms(2,3) by (auto simp: parse_array_def fresh_def split: if_splits)
    then show ?thesis by (metis empty_iff list.set(1))
  next
    case False
    then obtain as1 c s as2 where c: "pv (cJSON_New_Item D) (skip (skip (drop 1 src))) as1 = (Accept c s, as2)"
      and l: "array_loop D pv n [c] (set_type cJSON_Array item) (skip s) as2 = (Accept x r, as')"
      using assms(3) by (auto simp: parse_array_def Let_def split: prod.splits if_splits parse.splits)
    show ?thesis using array_loop_typed [OF pv _ l] parser_typedD [OF pv c] by simp
  qed
  then show ?thesis using assms(2) by (auto simp: fresh_def)
qed

lemma parse_member_typed:
  assumes pv: "parser_typed D pv" and "parse_member D pv src as = (Accept c r, as')"
  shows "typed D c \<and> c_string (item_string c)"
proof -
  obtain as1 k s as2 where k: "parse_string (skip src) as1 = (Accept k s, as2)"
    and c: "pv (set_name (Some k) (set_type cJSON_String (cJSON_New_Item D))) (skip (drop 1 (skip s))) as2 = (Accept c r, as')"
    using assms(2) by (auto simp: parse_member_def Let_def split: prod.splits if_splits parse.splits)
  show ?thesis using parser_typedD [OF pv c] parse_string_c_string [OF k] by (simp add: c_string_def)
qed

lemma object_loop_typed:
  assumes pv: "parser_typed D pv"
  shows "\<forall>c \<in> set cs. c_string (item_string c) \<and> typed D c \<Longrightarrow> object_loop D pv n cs item src as = (Accept x r, as') \<Longrightarrow>
    \<exists>cs'. x = set_child cs' item \<and> (\<forall>c \<in> set cs'. c_string (item_string c) \<and> typed D c)"
proof (induction n arbitrary: cs src as)
  case (Suc n)
  show ?case
  proof (cases "deref src = 0x2c")
    case True
    then obtain c s as2 where c: "parse_member D pv (drop 1 src) as = (Accept c s, as2)"
      and l: "object_loop D pv n (cs @ [c]) item (skip s) as2 = (Accept x r, as')"
      using Suc.prems(2) by (auto split: prod.splits if_splits parse.splits)
    show ?thesis using Suc.IH [OF _ l] Suc.prems(1) parse_member_typed [OF pv c] by auto
  next
    case False
    then show ?thesis using Suc.prems by (auto split: if_splits)
  qed
qed simp

lemma parse_object_typed:
  assumes pv: "parser_typed D pv" and "fresh item" "parse_object D pv n item src as = (Accept x r, as')"
  shows "typed D x \<and> item_string x = item_string item"
proof -
  have "\<exists>cs'. x = set_child cs' (set_type cJSON_Object item) \<and> (\<forall>c \<in> set cs'. c_string (item_string c) \<and> typed D c)"
  proof (cases "deref (skip (drop 1 src)) = 0x7d")
    case True
    then have "x = set_child [] (set_type cJSON_Object item)"
      using assms(2,3) by (auto simp: parse_object_def fresh_def split: if_splits)
    then show ?thesis by (metis empty_iff list.set(1))
  next
    case False
    then obtain c s as2 where c: "parse_member D pv (skip (drop 1 src)) as = (Accept c s, as2)"
      and l: "object_loop D pv n [c] (set_type cJSON_Object item) (skip s) as2 = (Accept x r, as')"
      using assms(3) by (auto simp: parse_object_def Let_def split: prod.splits if_splits parse.splits)
    show ?thesis using object_loop_typed [OF pv _ l] parse_member_typed [OF pv c] by simp
  qed
  then show ?thesis using assms(2) by (auto simp: fresh_def)
qed

lemma parse_value_typed: "parser_typed D (parse_value D n)"
proof (induction n)
  case 0
  show ?case by (simp add: parser_typed_def)
next
  case (Suc n)
  have "typed D c \<and> item_string c = item_string item" if f: "fresh item" and p: "parse_value D (Suc n) item src as = (Accept c r, as')" for item src as c r as'
  proof -
    have s: "typed D (set_type cJSON_String (set_string (Some v) item))" if "parse_string src as = (Accept v s, as'')" for v s as''
      using f parse_string_c_string [OF that] by (auto simp: fresh_def c_string_def)
    have t: "typed D (set_type cJSON_NULL item)" "typed D (set_type cJSON_False item)" "typed D (set_number 1 (valuedouble item) (set_type cJSON_True item))"
      using f by (auto simp: fresh_def)
    show ?thesis
      using p parse_number_typed [OF f] parse_array_typed [OF Suc f] parse_object_typed [OF Suc f]
      by (auto split: if_splits prod.splits parse.splits simp: s t)
  qed
  then show ?case by (auto simp: parser_typed_def)
qed

text \<open>
  C27: The items that \<^verbatim>\<open>cJSON_Parse\<close> returns are well typed at every level: a string has a value that is a C string, the elements of an array have no name and the
  members of an object have one, the other types have no children, a number's integer is its truncated double, and nothing is a reference to another tree.
\<close>
theorem cJSON_Parse_typed:
  assumes "cJSON_Parse D src as = (Accept c r, as')"
  shows "typed D c \<and> item_string c = None"
proof -
  obtain as1 r1 as2 where "parse_value D (length src + 1) (cJSON_New_Item D) (skip src) as1 = (Accept c r1, as2)"
    using assms by (auto simp: cJSON_Parse_def cJSON_ParseWithOpts_def simp del: parse_value.simps split: prod.splits if_splits parse.splits)
  from parser_typedD [OF parse_value_typed this] show ?thesis by simp
qed

text \<open>The text \<^verbatim>\<open>[{"a":""}]\<close>.\<close>
theorem cJSON_Parse_typed_witness:
  "typed int_ops (Item cJSON_Array False None 0 0 None
     [Item cJSON_Object False None 0 0 None [Item cJSON_String False (Some []) 0 0 (Some (lit ''a'')) []]])"
proof -
  have "cJSON_Parse int_ops (lit ''[{\"a\":\"\"}]'') [] = (Accept (Item cJSON_Array False None 0 0 None
     [Item cJSON_Object False None 0 0 None [Item cJSON_String False (Some []) 0 0 (Some (lit ''a'')) []]]) [], [])"
    by code_simp
  from cJSON_Parse_typed [OF this] show ?thesis by simp
qed

end
