(* ===== verification/CJ_Minify.thy ===== *)
theory CJ_Minify
  imports CJ_Roundtrip
begin

text \<open>
  \<^verbatim>\<open>cJSON_Minify\<close> of \<^verbatim>\<open>src/cJSON.c\<close>, which removes blanks and comments from a text in place. It never writes more than it has read, so its result is a list of its
  own; None is a read behind the NUL of the text.
\<close>

fun comment_end :: "bytes \<Rightarrow> bytes option" where
  "comment_end [] = advance 2 []"
| "comment_end (c # cs) =
    (if c = 0 \<or> c = 0x2a \<and> deref cs = 0x2f then advance 2 (c # cs) else comment_end cs)"

fun minify_string :: "bytes \<Rightarrow> (bytes \<times> bytes) option" where
  "minify_string [] = None"
| "minify_string (c # cs) =
    (if c = 0 \<or> c = 0x22 then Some ([c], cs)
     else if c = 0x5c then (case cs of [] \<Rightarrow> None | e # t \<Rightarrow> map_option (map_prod (append [c, e]) id) (minify_string t))
     else map_option (map_prod (append [c]) id) (minify_string cs))"

lemma comment_end_length: "comment_end s = Some r \<Longrightarrow> length r \<le> length s"
  by (induction s) (auto dest: advance_length split: if_splits)

lemma minify_string_length: "minify_string s = Some (out, r) \<Longrightarrow> length r < length s"
  by (induction s arbitrary: out rule: minify_string.induct) (fastforce split: if_splits list.splits)+

function cJSON_Minify :: "bytes \<Rightarrow> bytes option" where
  "cJSON_Minify [] = Some []"
| "cJSON_Minify (c # cs) =
    (if c = 0 then Some []
     else if c = 0x20 \<or> c = 0x09 \<or> c = 0x0d \<or> c = 0x0a then cJSON_Minify cs
     else if c = 0x2f \<and> deref cs = 0x2f then cJSON_Minify (dropWhile (\<lambda>c. c \<noteq> 0 \<and> c \<noteq> 0x0a) cs)
     else if c = 0x2f \<and> deref cs = 0x2a then (case comment_end cs of None \<Rightarrow> None | Some r \<Rightarrow> cJSON_Minify r)
     else if c = 0x22 then (case minify_string cs of None \<Rightarrow> None | Some (out, r) \<Rightarrow> map_option (append (c # out)) (cJSON_Minify r))
     else map_option (Cons c) (cJSON_Minify cs))"
  by pat_completeness auto
termination
  by (relation "measure length") (auto dest: comment_end_length minify_string_length simp: less_Suc_eq_le length_dropWhile_le)

lemma tohex_plain: "n < 16 \<Longrightarrow> tohex n \<noteq> 0 \<and> tohex n \<noteq> 0x22 \<and> tohex n \<noteq> 0x5c"
  using hex_digit_plain [of "tohex n"] hex_digit_tohex [of n] by simp

lemma minify_escape:
  assumes "c \<noteq> 0"
  shows "minify_string (escape c @ X) = map_option (map_prod (append (escape c)) id) (minify_string X)"
proof -
  have "unat c div 16 < 16" "unat c mod 16 < 16" using unsigned_less [of c, where 'a = nat] by auto
  then show ?thesis using assms tohex_plain [of "unat c div 16"] tohex_plain [of "unat c mod 16"]
    by (cases "minify_string X") (simp_all add: escape_def split_beta map_prod_def)
qed

lemma minify_escaped:
  "0 \<notin> set s \<Longrightarrow> minify_string (concat (map escape s) @ 0x22 # X) = Some (concat (map escape s) @ [0x22], X)"
  by (induction s) (auto simp: minify_escape)

lemma minify_quoted: "0 \<notin> set s \<Longrightarrow> cJSON_Minify (quoted s @ X) = map_option (append (quoted s)) (cJSON_Minify X)"
  by (simp add: quoted_def minify_escaped)

text \<open>Bytes that are copied.\<close>

definition copied :: "byte \<Rightarrow> bool" where
  "copied c \<longleftrightarrow> 32 < c \<and> c \<noteq> 0x22 \<and> c \<noteq> 0x2f"

lemma minify_copied: "copied c \<Longrightarrow> cJSON_Minify (c # X) = map_option (Cons c) (cJSON_Minify X)"
  by (auto simp: copied_def)

lemma minify_copied_list: "list_all copied xs \<Longrightarrow> cJSON_Minify (xs @ X) = map_option (append xs) (cJSON_Minify X)"
  by (cases "cJSON_Minify X"; induction xs) (auto simp: minify_copied simp del: cJSON_Minify.simps(2))

lemma minify_white: "list_all (\<lambda>c. c = 0x20 \<or> c = 0x09 \<or> c = 0x0a) ws \<Longrightarrow> cJSON_Minify (ws @ X) = cJSON_Minify X"
  by (induction ws) auto

lemma digits_copied: "list_all copied (fmt_i n)"
proof -
  have "copied c" if "num_char c" for c using num_char_visible [OF that] that by (auto simp: copied_def num_char_def)
  then have "list_all copied (dec_of_nat m)" for m using dec_digit_value [of m] by (auto simp: list_all_iff num_char_iff)
  then show ?thesis by (simp add: fmt_i_def copied_def)
qed

lemma words_copied: "list_all copied (lit ''null'')" "list_all copied (lit ''true'')" "list_all copied (lit ''false'')"
  by (simp_all add: lit_def copied_def)

text \<open>What becomes of a part of a text, whatever follows it.\<close>

definition shrinks :: "bytes \<Rightarrow> bytes \<Rightarrow> bool" where
  "shrinks a b \<longleftrightarrow> (\<forall>X. cJSON_Minify (a @ X) = map_option (append b) (cJSON_Minify X))"

lemma shrinks_append: "shrinks a b \<Longrightarrow> shrinks a' b' \<Longrightarrow> shrinks (a @ a') (b @ b')"
  by (auto simp: shrinks_def option.map_comp intro!: option.map_cong)

lemma minify_nothing: "map_option (append []) (cJSON_Minify X) = cJSON_Minify X"
  by (cases "cJSON_Minify X") auto

lemma shrinks_Nil: "shrinks [] []"
  by (simp add: shrinks_def minify_nothing)

lemma shrinks_copied: "list_all copied xs \<Longrightarrow> shrinks xs xs"
  by (simp add: shrinks_def minify_copied_list)

lemma shrinks_white: "list_all (\<lambda>c. c = 0x20 \<or> c = 0x09 \<or> c = 0x0a) ws \<Longrightarrow> shrinks ws []"
  by (simp add: shrinks_def minify_white minify_nothing)

lemma shrinks_quoted: "0 \<notin> set s \<Longrightarrow> shrinks (quoted s) (quoted s)"
  by (simp add: shrinks_def minify_quoted)

lemma shrinks_array_body:
  "list_all2 shrinks as bs \<Longrightarrow> shrinks (array_body True as) (array_body False bs)"
proof (induction rule: list_all2_induct)
  case (Cons a as b bs)
  have "shrinks (if as = [] then [] else [0x2c, 0x20]) (if bs = [] then [] else [0x2c])"
    using Cons(2) shrinks_append [OF shrinks_copied [of "[0x2c]"] shrinks_white [of "[0x20]"]] shrinks_Nil
    by (cases as; cases bs) (auto simp: copied_def)
  from shrinks_append [OF Cons(1) shrinks_append [OF this Cons(3)]] show ?case by (cases "as = []"; cases "bs = []") simp_all
qed (simp add: shrinks_Nil)

lemma shrinks_object_body:
  "list_all2 (\<lambda>(n, a) (m, b). shrinks n m \<and> shrinks a b) as bs \<Longrightarrow> shrinks (object_body d True as) (object_body d' False bs)"
proof (induction rule: list_all2_induct)
  case (Cons p as q bs)
  obtain n a m b where pq: "p = (n, a)" "q = (m, b)" by fastforce
  have w: "shrinks (replicate d 0x09) []" "shrinks [0x3a, 0x09] [0x3a]" "shrinks [0x0a] []" "shrinks [0x2c, 0x0a] [0x2c]"
    using shrinks_append [OF shrinks_copied [of "[0x3a]"] shrinks_white [of "[0x09]"]] shrinks_append [OF shrinks_copied [of "[0x2c]"] shrinks_white [of "[0x0a]"]]
    by (auto simp: copied_def list_all_iff intro!: shrinks_white)
  have "shrinks (if as = [] then [0x0a] else [0x2c, 0x0a]) (if bs = [] then [] else [0x2c])" using Cons(2) w by (cases as; cases bs) auto
  then have "shrinks (replicate d 0x09 @ n @ [0x3a, 0x09] @ a @ (if as = [] then [0x0a] else [0x2c, 0x0a]) @ object_body d True as)
      ([] @ m @ [0x3a] @ b @ (if bs = [] then [] else [0x2c]) @ object_body d' False bs)"
    using Cons(1,3) pq w by (intro shrinks_append) auto
  then show ?case using pq by (cases "as = []"; cases "bs = []") auto
qed (simp add: shrinks_Nil)

lemma text_shrinks: "json_wf j \<Longrightarrow> shrinks (text_of d True j) (text_of d' False j)"
proof (induction j arbitrary: d d')
  case (JArr js)
  have "list_all2 shrinks (map (text_of (d + 1) True) js) (map (text_of (d' + 1) False) js)"
    using JArr by (auto simp: list_all2_map1 list_all2_map2 list_all_iff intro!: list.rel_refl_strong)
  from shrinks_append [OF shrinks_copied [of "[0x5b]"] shrinks_append [OF shrinks_array_body [OF this] shrinks_copied [of "[0x5d]"]]]
  show ?case by (simp add: array_text_def copied_def)
next
  case (JObj ms)
  have tabs: "shrinks [0x7b] [0x7b]" "shrinks [0x7d] [0x7d]" "shrinks [0x0a] []" "shrinks (replicate k 0x09) []" for k
    by (auto simp: copied_def list_all_iff intro!: shrinks_white shrinks_copied)
  show ?case
  proof (cases "ms = []")
    case True
    then show ?thesis using shrinks_append [OF tabs(1) shrinks_append [OF tabs(3) shrinks_append [OF tabs(4) tabs(2)]]] by (simp add: empty_object_def)
  next
    case False
    have "list_all2 (\<lambda>(n, a) (m, b). shrinks n m \<and> shrinks a b) (map (\<lambda>(n, j). (quoted n, text_of (d + 1) True j)) ms)
        (map (\<lambda>(n, j). (quoted n, text_of (d' + 1) False j)) ms)"
      using JObj by (fastforce simp: list_all2_map1 list_all2_map2 list_all_iff intro!: list.rel_refl_strong shrinks_quoted)
    from shrinks_object_body [OF this, of "d + 1" "d' + 1"] show ?thesis
      using False shrinks_append [OF tabs(1) shrinks_append [OF tabs(3) shrinks_append [OF _ shrinks_append [OF tabs(4) tabs(2)]]]] by (simp add: object_text_def)
  qed
qed (simp_all add: shrinks_copied words_copied digits_copied shrinks_quoted)

text \<open>
  C26: Minifying undoes the formatting. \<^verbatim>\<open>cJSON_Minify\<close> turns the text that \<^verbatim>\<open>cJSON_Print\<close> writes for an item tree into the one that
  \<^verbatim>\<open>cJSON_PrintUnformatted\<close> writes, without a read behind the text; blanks inside of strings stay.
\<close>
theorem minify_unformats:
  assumes "exact_ints D" "json_of D item = Some j"
  shows "\<exists>a b. cJSON_Print D item [] = (Text a, []) \<and> cJSON_PrintUnformatted D item [] = (Text b, []) \<and> cJSON_Minify a = Some b"
proof -
  have "cJSON_Minify (text_of 0 True j @ []) = map_option (append (text_of 0 False j)) (cJSON_Minify [])"
    using text_shrinks [OF json_of_wf [OF assms(2)]] unfolding shrinks_def by blast
  then show ?thesis using print_value_text [OF assms(2,1)] by (simp add: cJSON_Print_def cJSON_PrintUnformatted_def)
qed

theorem minify_unformats_witness:
  "\<exists>a b. cJSON_Print int_ops example_item [] = (Text a, []) \<and> cJSON_PrintUnformatted int_ops example_item [] = (Text b, []) \<and> cJSON_Minify a = Some b"
  by (rule minify_unformats [OF int_ops_exact example_item_json])

lemma comment_unclosed: "0 \<notin> set s \<Longrightarrow> (\<And>u v. s \<noteq> u @ [0x2a, 0x2f] @ v) \<Longrightarrow> comment_end s = None"
proof (induction s)
  case (Cons c cs)
  have "\<not> (c = 0x2a \<and> deref cs = 0x2f)" using Cons.prems(2) [of "[]"] by (cases cs) (auto simp: deref_def)
  moreover have "cs \<noteq> u @ [0x2a, 0x2f] @ v" for u v using Cons.prems(2) [of "c # u" v] by simp
  ultimately show ?case using Cons.IH Cons.prems(1) by auto
qed (simp add: advance_def)

lemma string_unclosed: "0 \<notin> set s \<Longrightarrow> 0x22 \<notin> set s \<Longrightarrow> minify_string s = None"
  by (induction s rule: minify_string.induct) (auto split: list.splits)

text \<open>
  A comment that is not closed, and a string that is not, take \<^verbatim>\<open>cJSON_Minify\<close> behind the NUL of its text.
\<close>
lemma minify_overread:
  assumes "0 \<notin> set s"
  shows "((\<forall>u v. 0x2a # s \<noteq> u @ [0x2a, 0x2f] @ v) \<longrightarrow> cJSON_Minify (0x2f # 0x2a # s) = None) \<and>
    (0x22 \<notin> set s \<longrightarrow> cJSON_Minify (0x22 # s) = None)"
proof
  show "(\<forall>u v. 0x2a # s \<noteq> u @ [0x2a, 0x2f] @ v) \<longrightarrow> cJSON_Minify (0x2f # 0x2a # s) = None"
    using comment_unclosed [of "0x2a # s"] assms by (simp add: deref_def)
  show "0x22 \<notin> set s \<longrightarrow> cJSON_Minify (0x22 # s) = None" using string_unclosed [OF assms] by simp
qed

end
