(* ===== verification/BT_Packet.thy ===== *)
theory BT_Packet
  imports CJ_Typed CJ_Minify OT_Udp
begin

text \<open>
  The packets of the control connection: \<^verbatim>\<open>src/socket.c\<close> with \<^verbatim>\<open>include/packet.h\<close> and \<^verbatim>\<open>include/client.h\<close>. A packet starts with 24 bytes in little endian order; the
  fields are read and written at their offsets, as the code does by casts.
\<close>

abbreviation (input) PACKET_LEN :: int where "PACKET_LEN \<equiv> 24"
abbreviation (input) DATA_SIZE :: int where "DATA_SIZE \<equiv> 1452"
abbreviation (input) CLIENT_BUF :: int where "CLIENT_BUF \<equiv> 1024 * 1024"

definition le16 :: "u16 \<Rightarrow> bytes" where
  "le16 w = rev (be16 w)"

definition get32 :: "bytes \<Rightarrow> nat \<Rightarrow> u32" where
  "get32 buf i = rd32 (rev (take 4 (drop i buf)))"

definition get16 :: "bytes \<Rightarrow> nat \<Rightarrow> u16" where
  "get16 buf i = rd16 (rev (take 2 (drop i buf)))"

definition read_packet_order :: "bytes \<Rightarrow> u16" where
  "read_packet_order buf = ucast (get32 buf 4)"

definition read_packet_size :: "bytes \<Rightarrow> u32" where
  "read_packet_size buf = get32 buf 12"

definition read_packet_token :: "bytes \<Rightarrow> u16" where
  "read_packet_token buf = get16 buf 20"

text \<open>\<^verbatim>\<open>tokenLength\<close>, at offset 20, keeps its value; \<^verbatim>\<open>data_type\<close> is not used.\<close>

definition set_packet_head :: "bytes \<Rightarrow> u32 \<Rightarrow> u32 \<Rightarrow> byte \<Rightarrow> bool \<Rightarrow> bytes" where
  "set_packet_head buf cmd data_size data_type req_flag =
    le16 1 @ le16 0 @ le32 cmd @ le32 0 @ le32 data_size @ [0x01, 0x00, 0x02, if req_flag then 0x02 else 0x01] @ take 2 (drop 20 buf) @ le16 0"

text \<open>
  \<^verbatim>\<open>send_msg\<close>: the list has the answers of \<^verbatim>\<open>send\<close>, the number of bytes taken, -1 for EINTR or EAGAIN, another negative number for an error; at its end all is taken.
  The result is the status, what was sent and the answers that are left.
\<close>

fun send_msg :: "int list \<Rightarrow> bytes \<Rightarrow> int \<times> bytes \<times> int list" where
  "send_msg ks [] = (0, [], ks)"
| "send_msg [] buf = (0, buf, [])"
| "send_msg (k # ks) buf =
    (if k = -1 then send_msg ks buf
     else if k < 0 then (1, [], ks)
     else case send_msg ks (drop (nat k) buf) of (status, out, ks') \<Rightarrow> (status, take (nat k) buf @ out, ks'))"

text \<open>A client, with the fields that the server uses.\<close>

record client =
  fd :: int
  packet :: bytes
  token :: "bytes option"
  token_size :: int
  has_read_head :: bool
  data_buf :: "bytes option"
  pos :: int
  data_size :: int

definition send_packet :: "client \<Rightarrow> int list \<Rightarrow> int \<times> bytes \<times> int list" where
  "send_packet cli ks =
    (if fd cli = 0 then (1, [], ks)
     else
       let (status, out, ks) = send_msg ks (packet cli);
           (status, out, ks) =
             (case token cli of
                Some t \<Rightarrow> if token_size cli < DATA_SIZE \<and> token_size cli > 0 then case send_msg ks (take (nat (token_size cli)) t) of (status, out', ks) \<Rightarrow> (status, out @ out', ks)
                          else (status, out, ks)
              | None \<Rightarrow> (status, out, ks))
       in
         (case data_buf cli of
            Some d \<Rightarrow> if data_size cli < DATA_SIZE \<and> data_size cli > 0 then case send_msg ks (take (nat (data_size cli)) d) of (status, out', ks) \<Rightarrow> (status, out @ out', ks)
                      else (status, out, ks)
          | None \<Rightarrow> (status, out, ks)))"

section \<open>Headers and sending\<close>

lemma get32_le32:
  assumes "length xs = i"
  shows "get32 (xs @ le32 w @ ys) i = w"
  using assms rd32_be32 [of w "[]"] by (simp add: get32_def le32_def)

lemma get16_le16:
  assumes "length xs = i"
  shows "get16 (xs @ le16 w @ ys) i = w"
  using assms rd16_be16 [of w "[]"] by (simp add: get16_def le16_def)

lemma length_le [simp]: "length (le16 h) = 2" "length (le32 w) = 4"
  by (simp_all add: le16_def le32_def)

lemma set_packet_head_fields:
  assumes "length buf = 24"
  shows "length (set_packet_head buf cmd n ty req) = 24" "read_packet_order (set_packet_head buf cmd n ty req @ X) = ucast cmd"
    "read_packet_size (set_packet_head buf cmd n ty req @ X) = n" "read_packet_token (set_packet_head buf cmd n ty req @ X) = read_packet_token buf"
proof -
  let ?h = "set_packet_head buf cmd n ty req @ X"
  show "length (set_packet_head buf cmd n ty req) = 24" using assms by (simp add: set_packet_head_def)
  have "?h = (le16 1 @ le16 0) @ le32 cmd @ le32 0 @ le32 n @ [0x01, 0x00, 0x02, if req then 0x02 else 0x01] @ take 2 (drop 20 buf) @ le16 0 @ X"
    by (simp add: set_packet_head_def)
  then show "read_packet_order ?h = ucast cmd" using get32_le32 [of "le16 1 @ le16 0" 4] by (simp add: read_packet_order_def)
  have "?h = (le16 1 @ le16 0 @ le32 cmd @ le32 0) @ le32 n @ [0x01, 0x00, 0x02, if req then 0x02 else 0x01] @ take 2 (drop 20 buf) @ le16 0 @ X"
    by (simp add: set_packet_head_def)
  then show "read_packet_size ?h = n" using get32_le32 [of "le16 1 @ le16 0 @ le32 cmd @ le32 0" 12] by (simp add: read_packet_size_def)
  show "read_packet_token ?h = read_packet_token buf" using assms by (simp add: read_packet_token_def get16_def set_packet_head_def)
qed

text \<open>What \<^verbatim>\<open>send_msg\<close> reports as sent was sent, however the kernel cuts it.\<close>

lemma send_msg_all: "send_msg ks buf = (0, out, ks') \<Longrightarrow> out = buf"
  by (induction ks buf arbitrary: out ks' rule: send_msg.induct) (auto split: if_splits prod.splits)

end
