(* ===== verification/OW_Ip6.thy ===== *)
theory OW_Ip6
  imports OW_Text
begin

text \<open>
  Addresses survive formatting and scanning by libowfat, except those that end in a lone zero word: for these \<^verbatim>\<open>fmt_ip6\<close> goes wrong, depending on the bytes that happen to lie
  behind the address.
\<close>

section \<open>Words\<close>

lemma hex_of_nat_digits: "(\<forall>d \<in> set (hex_of_nat n). is_hex d) \<and> hex_value 0 (hex_of_nat n) = n"
proof (induction n rule: hex_of_nat.induct)
  case (1 n)
  have snoc: "hex_value 0 (xs @ [c]) = hex_value 0 xs * 16 + nat (scan_fromhex c)" for xs c by (simp add: hex_value_def)
  show ?case
  proof (cases "n < 16")
    case True
    then show ?thesis using scan_fromhex_tohex [of n] by (simp add: hex_of_nat.simps [of n] hex_value_def is_hex_def)
  next
    case False
    then show ?thesis using 1 scan_fromhex_tohex [of "n mod 16"] by (simp add: hex_of_nat.simps [of n] snoc is_hex_def)
  qed
qed

lemma hex_nonempty: "hex_of_nat n \<noteq> []"
  by (simp add: hex_of_nat.simps [of n])

lemma scan_xlong_hex:
  assumes "n < 2 ^ 16" "hex_end rest"
  shows "scan_xlong (hex_of_nat n @ rest) = (length (hex_of_nat n), of_nat n)"
  using scan_xlong_digits [of "hex_of_nat n" 0 rest] hex_of_nat_digits [of n] assms by (simp add: scan_xlong_def)

lemma ip6_word_bound: "ip6_word ip k < 2 ^ 16"
  using unsigned_less [of "ip ! k", where 'a = nat] unsigned_less [of "ip ! (k + 1)", where 'a = nat] by (simp add: ip6_word_def)

lemma word_bytes_nat:
  assumes "a < 256" "b < 256"
  shows "word_bytes (of_nat (a * 256 + b)) = [of_nat a, of_nat b]"
proof -
  define w where "w = (of_nat (a * 256 + b) :: 64 word)"
  have u: "unat w = a * 256 + b" using assms by (simp only: w_def unat_of_nat) (simp add: take_bit_eq_mod)
  have "unat (ucast (drop_bit 8 w) :: byte) = unat (of_nat a :: byte)"
    using u assms by (simp only: unsigned_ucast_eq unat_drop_bit_eq unat_of_nat) (simp add: drop_bit_eq_div take_bit_eq_mod)
  moreover have "unat (ucast w :: byte) = unat (of_nat b :: byte)"
    using u assms by (simp only: unsigned_ucast_eq unat_of_nat) (simp add: take_bit_eq_mod)
  ultimately show ?thesis by (simp only: word_bytes_def w_def [symmetric] word_unat_eq_iff list.inject simp_thms)
qed

lemma word_bytes_word: "word_bytes (of_nat (ip6_word ip k)) = [ip ! k, ip ! (k + 1)]"
  using word_bytes_nat [of "unat (ip ! k)" "unat (ip ! (k + 1))"] unsigned_less [of "ip ! k", where 'a = nat]
    unsigned_less [of "ip ! (k + 1)", where 'a = nat] by (simp only: ip6_word_def) simp

lemma length_word_bytes [simp]: "length (word_bytes u) = 2"
  by (simp add: word_bytes_def)

lemma scan_ip4_hex:
  assumes "\<forall>c \<in> set h. is_hex c"
  shows "scan_ip4 (h @ 0x3a # t) = None"
proof -
  have step: "\<exists>c \<in> set (h @ [0x3a]). deref (drop (fst (scan_dec limit (h @ 0x3a # t) l)) (h @ 0x3a # t)) = c" if "\<forall>c \<in> set h. is_hex c" for h limit l
    using that
  proof (induction h arbitrary: l)
    case (Cons c h)
    then show ?case by (auto simp: Let_def deref_def split: prod.split if_split) (metis fst_conv)+
  qed (simp add: deref_def)
  have "\<not> is_hex 0x2e" by code_simp
  then have "deref (drop (fst (scan_ulong (h @ 0x3a # t))) (h @ 0x3a # t)) \<noteq> 0x2e"
    using step [OF assms, of "2 ^ 64" 0] assms by (auto simp: scan_ulong_def)
  then show ?thesis by (subst scan_ip4_def, subst scan_ip4_loop.simps) (auto split: prod.split)
qed

section \<open>The run of zeros\<close>

definition zero_run :: "bytes \<Rightarrow> nat \<Rightarrow> nat \<Rightarrow> bool" where
  "zero_run ip len pos \<longleftrightarrow> len = 0 \<or> even pos \<and> even len \<and> pos + len \<le> 16 \<and> (\<forall>j. pos \<le> j \<and> j < pos + len \<longrightarrow> ip ! j = 0)"

definition zero_word :: "bytes \<Rightarrow> nat \<Rightarrow> bool" where
  "zero_word ip k \<longleftrightarrow> ip ! k = 0 \<and> ip ! (k + 1) = 0"

lemma zero_word_next: "zero_word ip (k + 2) \<longleftrightarrow> ip ! (k + 2) = 0 \<and> ip ! (k + 3) = 0"
  by (simp add: zero_word_def eval_nat_numeral)

lemma zero_run_extend:
  assumes "even k" "k \<le> 14" "zero_word ip k" "q = k \<or> q < k \<and> zero_run ip (k - q) q"
  shows "zero_run ip (k + 2 - q) q"
proof -
  have "ip ! j = 0" if "q \<le> j" "j < k + 2" for j
  proof (cases "j < k")
    case True
    then show ?thesis using assms(4) that(1) by (auto simp: zero_run_def)
  next
    case False
    then have "j = k \<or> j = k + 1" using that by auto
    then show ?thesis using assms(3) by (auto simp: zero_word_def)
  qed
  moreover have "even q" using assms(1,4) by (auto simp: zero_run_def)
  ultimately show ?thesis using assms by (auto simp: zero_run_def)
qed

lemma ip6_runs_zero_run:
  assumes last: "zero_word ip 14 \<longrightarrow> zero_word ip 12" and k: "even k" "k \<le> 16"
    and run: "zero_run ip len0 pos0" "compr \<longrightarrow> pos1 < k \<and> zero_run ip (k - pos1) pos1"
    and two: "2 \<le> k \<and> zero_word ip (k - 2) \<and> zero_word ip k \<and> k \<le> 14 \<longrightarrow> compr"
  shows "case ip6_runs ip k compr pos1 len0 pos0 of (l, p) \<Rightarrow> zero_run ip l p"
  using k run two
proof (induction "16 - k" arbitrary: k compr pos1 len0 pos0 rule: less_induct)
  case less
  show ?case
  proof (cases "k < 16")
    case False
    then show ?thesis using less.prems(3) by (simp add: ip6_runs.simps)
  next
    case True
    then have k: "k \<le> 14" "16 - (k + 2) < 16 - k" "even (k + 2)" "k + 2 \<le> 16" using less.prems(1) by presburger+
    show ?thesis
    proof (cases "zero_word ip k")
      case False
      then have nz: "(ip ! k = 0 \<and> ip ! (k + 1) = 0) = False" by (simp add: zero_word_def)
      have "ip6_runs ip k compr pos1 len0 pos0 =
          (if compr then if k - pos1 > len0 then ip6_runs ip (k + 2) False pos1 (k - pos1) pos1 else ip6_runs ip (k + 2) False pos1 len0 pos0
           else ip6_runs ip (k + 2) compr pos1 len0 pos0)"
        by (subst ip6_runs.simps) (simp only: nz True if_True if_False)
      moreover have "case ip6_runs ip (k + 2) False pos1 len0 pos0 of (l, p) \<Rightarrow> zero_run ip l p"
        using less.hyps [OF k(2-4) less.prems(3), of False pos1] False by simp
      moreover have "case ip6_runs ip (k + 2) False pos1 (k - pos1) pos1 of (l, p) \<Rightarrow> zero_run ip l p" if compr
        using less.hyps [OF k(2-4), of "k - pos1" pos1 False pos1] less.prems(4) that False by simp
      ultimately show ?thesis by (cases compr) simp_all
    next
      case zero: True
      define c' p' where "c' = (compr \<or> zero_word ip (k + 2))" and "p' = (if \<not> compr \<and> zero_word ip (k + 2) then k else pos1)"
      have ext: "c' \<longrightarrow> zero_run ip (k + 2 - p') p'"
        using zero_run_extend [OF less.prems(1) k(1) zero, of p'] less.prems(4) by (auto simp: c'_def p'_def)
      show ?thesis
      proof (cases "k = 14")
        case False
        have "ip6_runs ip k compr pos1 len0 pos0 = ip6_runs ip (k + 2) c' p' len0 pos0"
          using True zero False k(1) unfolding c'_def p'_def zero_word_next
          by (subst ip6_runs.simps) (auto simp: zero_word_def)
        moreover have "c' \<longrightarrow> p' < k + 2" using less.prems(4) by (auto simp: p'_def c'_def)
        ultimately show ?thesis using less.hyps [OF k(2-4) less.prems(3), of c' p'] ext by (auto simp: c'_def)
      next
        case 14: True
        then have "compr" using last zero less.prems(5) by simp
        then have "ip6_runs ip k compr pos1 len0 pos0 = (if 16 - pos1 > len0 then (16 - pos1, pos1) else (len0, pos0))"
          using zero 14 by (subst ip6_runs.simps) (auto simp: zero_word_def)
        then show ?thesis using \<open>compr\<close> ext 14 less.prems(3) by (auto simp: c'_def p'_def)
      qed
    qed
  qed
qed

section \<open>Scanning what was printed\<close>

lemma not_hex_punct: "\<not> is_hex 0x3a" "\<not> is_hex 0x2e"
  by code_simp+

lemma hex_of_nat_Cons: obtains c cs where "hex_of_nat n = c # cs" "is_hex c" "c \<noteq> 0x3a"
proof -
  obtain c cs where h: "hex_of_nat n = c # cs" using hex_nonempty [of n] by (cases "hex_of_nat n") auto
  then have "is_hex c" using hex_of_nat_digits [of n] by simp
  then show thesis using that [OF h] not_hex_punct(1) by metis
qed

lemma ip6_print_word:
  assumes "\<not> ip6_isv4mapped ip" "k \<le> 14" "\<not> (pos0 = k \<and> len0 \<noteq> 0)"
  shows "ip6_print ip len0 pos0 k = hex_of_nat (ip6_word ip k) @ (if k < 14 then 0x3a # ip6_print ip len0 pos0 (k + 2) else [])"
proof -
  have e: "ip6_print ip len0 pos0 (k + 2) = []" if "\<not> k < 14" using that assms(2) by (subst ip6_print.simps) simp
  show ?thesis using assms e by (subst ip6_print.simps) (auto simp: fmt_xlong_eq)
qed

lemma addr_end_simps:
  assumes "addr_end rest"
  shows "hex_end rest" "deref rest \<noteq> 0x3a" "deref rest \<noteq> 0x2e" "not_digit rest"
proof -
  have "\<not> is_hex c \<Longrightarrow> \<not> c - 0x30 < 10" for c
  proof
    assume "\<not> is_hex c" "c - 0x30 < 10"
    moreover from this(2) have "c - 0x30 \<le> 9" using word_le_less_eq by (simp add: word_le_nat_alt word_less_nat_alt)
    ultimately show False by (simp add: is_hex_def scan_fromhex_def)
  qed
  then show "hex_end rest" "deref rest \<noteq> 0x3a" "deref rest \<noteq> 0x2e" "not_digit rest"
    using assms by (auto simp: addr_end_def hex_end_def deref_def not_digit_def split: list.splits)
qed

text \<open>One word in front of a colon or of the end of the address.\<close>

lemma scan_word:
  assumes "hex_end X" "deref X \<noteq> 0x2e"
  shows "scan_xlong (hex_of_nat (ip6_word ip k) @ X) = (length (hex_of_nat (ip6_word ip k)), of_nat (ip6_word ip k))"
  using scan_xlong_hex [OF ip6_word_bound assms(1)] .

lemma take_word: "k + 1 < length ip \<Longrightarrow> take (k + 2) ip = take k ip @ [ip ! k, ip ! (k + 1)]"
  by (simp add: take_Suc_conv_app_nth)

lemma ip6_suffix_print:
  assumes nm: "\<not> ip6_isv4mapped ip" and l: "16 \<le> length ip" and rest: "addr_end rest" and gap: "2 \<le> len0" "pos0 + len0 \<le> k"
    and k: "even k" "k \<le> 14" and suf: "suf = take (k - (pos0 + len0)) (drop (pos0 + len0) ip)"
  shows "ip6_suffix ((if suf = [] then [] else [0x3a]) @ ip6_print ip len0 pos0 k @ rest) len pos0 suf =
    (len + length ((if suf = [] then [] else [0x3a]) @ ip6_print ip len0 pos0 k), take (16 - (pos0 + len0)) (drop (pos0 + len0) ip))"
  using gap(2) k suf
proof (induction "16 - k" arbitrary: k suf len rule: less_induct)
  case less
  let ?g = "pos0 + len0" and ?h = "hex_of_nat (ip6_word ip k)" and ?c = "if suf = [] then [] else [0x3a :: byte]"
  define X where "X = (if k < 14 then 0x3a # ip6_print ip len0 pos0 (k + 2) @ rest else rest)"
  have s: "ip6_print ip len0 pos0 k @ rest = ?h @ X"
    using ip6_print_word [OF nm less.prems(3), of pos0 len0] less.prems(1) gap(1) by (simp add: X_def)
  have X: "hex_end X" "deref X \<noteq> 0x2e" using addr_end_simps [OF rest] not_hex_punct(1) by (auto simp: X_def hex_end_def deref_def)
  obtain c cs where h: "?h = c # cs" "c \<noteq> 0x3a" using hex_of_nat_Cons by metis
  have suf': "suf @ word_bytes (of_nat (ip6_word ip k)) = take (k + 2 - ?g) (drop ?g ip)"
    using less.prems l take_word [of "k - ?g" "drop ?g ip"] by (simp add: word_bytes_word Suc_diff_le)
  have len: "length suf = k - ?g" using less.prems l by simp
  have "ip6_suffix (?c @ ?h @ X) len pos0 suf = ip6_suffix X (len + length (?c @ ?h)) pos0 (suf @ word_bytes (of_nat (ip6_word ip k)))"
    using scan_word [OF X, of ip k] h X len less.prems(1,3) gap(1)
    by (subst ip6_suffix.simps) (auto simp: deref_def Let_def)
  then have step: "ip6_suffix (?c @ ?h @ X) len pos0 suf = ip6_suffix X (len + length (?c @ ?h)) pos0 (take (k + 2 - ?g) (drop ?g ip))"
    by (simp only: suf')
  have ne: "take (k + 2 - ?g) (drop ?g ip) \<noteq> []" using less.prems l by simp
  show ?case
  proof (cases "k < 14")
    case False
    then have "k = 14" using less.prems(3) by simp
    then have "ip6_suffix X (len + length (?c @ ?h)) pos0 (take (k + 2 - ?g) (drop ?g ip)) = (len + length (?c @ ?h), take (16 - ?g) (drop ?g ip))"
      using ne addr_end_simps(2) [OF rest] by (subst ip6_suffix.simps) (simp add: X_def)
    then show ?thesis using step s False by (simp add: X_def)
  next
    case True
    then have "16 - (k + 2) < 16 - k" "?g \<le> k + 2" "even (k + 2)" "k + 2 \<le> 14" using less.prems by presburger+
    from less.hyps [OF this refl, of "len + length (?c @ ?h)"] show ?thesis
      using step s ne True ip6_print_word [OF nm less.prems(3), of pos0 len0] less.prems(1) gap(1) by (simp add: X_def)
  qed
qed

lemma ip6_prefix_word:
  assumes "\<not> ip6_isv4mapped ip" "16 \<le> length ip" "even k" "k \<le> 14" "hex_end X" "deref X \<noteq> 0x2e"
  shows "ip6_prefix ((if k = 0 then [] else [0x3a]) @ hex_of_nat (ip6_word ip k) @ X) len (take k ip) =
    (let len = len + length ((if k = 0 then [] else [0x3a]) @ hex_of_nat (ip6_word ip k)) in
     if k = 14 then Inl (Some (len, take 16 ip)) else ip6_prefix X len (take (k + 2) ip))"
proof -
  obtain c cs where h: "hex_of_nat (ip6_word ip k) = c # cs" "c \<noteq> 0x3a" using hex_of_nat_Cons by metis
  have pre: "take k ip @ word_bytes (of_nat (ip6_word ip k)) = take (k + 2) ip" "length (take k ip) = k"
    using assms(2,4) take_word [of k ip] by (simp_all add: word_bytes_word)
  have "16 \<le> k + 2 \<longleftrightarrow> k = 14" using assms(4) by auto
  then show ?thesis
    using scan_word [OF assms(5,6), of ip k] h assms(4,6) pre
    by (subst ip6_prefix.simps) (auto simp: deref_def Let_def)
qed

lemma ip6_prefix_gap:
  assumes nm: "\<not> ip6_isv4mapped ip" and l: "16 \<le> length ip" and gap: "2 \<le> len0" "even pos0" "pos0 + len0 \<le> 16" and k: "even k" "k \<le> pos0"
  shows "\<exists>a. (if k = 0 then [] else [0x3a]) @ ip6_print ip len0 pos0 k = a @ ip6_print ip len0 pos0 (pos0 + len0) \<and>
    ip6_prefix (a @ ip6_print ip len0 pos0 (pos0 + len0) @ rest) len (take k ip) =
      Inr (ip6_print ip len0 pos0 (pos0 + len0) @ rest, len + length a, take pos0 ip)"
  using k
proof (induction "pos0 - k" arbitrary: k len rule: less_induct)
  case less
  let ?c = "if k = 0 then [] else [0x3a :: byte]" and ?h = "hex_of_nat (ip6_word ip k)" and ?t = "ip6_print ip len0 pos0 (pos0 + len0)"
  show ?case
  proof (cases "k = pos0")
    case True
    then have "?c @ ip6_print ip len0 pos0 k = [0x3a, 0x3a] @ ?t"
      using nm gap by (subst ip6_print.simps) simp
    moreover have "ip6_prefix ([0x3a, 0x3a] @ ?t @ rest) len (take k ip) = Inr (?t @ rest, len + length [0x3a :: byte, 0x3a], take pos0 ip)"
      using True by (subst ip6_prefix.simps) (simp add: deref_def)
    ultimately show ?thesis by blast
  next
    case False
    then have k: "k < pos0" "pos0 - (k + 2) < pos0 - k" "even (k + 2)" "k + 2 \<le> pos0" "k < 14" "k \<le> 14"
      using less.prems gap by presburger+
    obtain a where a: "0x3a # ip6_print ip len0 pos0 (k + 2) = a @ ?t"
        "ip6_prefix (a @ ?t @ rest) (len + length (?c @ ?h)) (take (k + 2) ip) = Inr (?t @ rest, len + length (?c @ ?h) + length a, take pos0 ip)"
      using less.hyps [OF k(2-4), of "len + length (?c @ ?h)"] by auto
    have pr: "ip6_print ip len0 pos0 k = ?h @ a @ ?t"
      using ip6_print_word [OF nm k(6), of pos0 len0] k(1,5) a(1) by simp
    have "a @ ?t @ rest = 0x3a # ip6_print ip len0 pos0 (k + 2) @ rest" using a(1) by (metis append_Cons append_assoc)
    then have X: "hex_end (a @ ?t @ rest)" "deref (a @ ?t @ rest) \<noteq> 0x2e"
      using not_hex_punct(1) by (simp_all only: hex_end_def deref_def) simp_all
    have "ip6_prefix ((?c @ ?h @ a) @ ?t @ rest) len (take k ip) = Inr (?t @ rest, len + length (?c @ ?h @ a), take pos0 ip)"
      using ip6_prefix_word [OF nm l less.prems(1) k(6) X, of len] a(2) k(5) by (simp add: Let_def add.assoc)
    then show ?thesis using pr by (intro exI [of _ "?c @ ?h @ a"]) simp
  qed
qed

lemma ip6_prefix_full:
  assumes nm: "\<not> ip6_isv4mapped ip" and l: "16 \<le> length ip" and rest: "addr_end rest" and k: "even k" "k \<le> 14"
  shows "ip6_prefix ((if k = 0 then [] else [0x3a]) @ ip6_print ip 0 pos0 k @ rest) len (take k ip) =
    Inl (Some (len + length ((if k = 0 then [] else [0x3a]) @ ip6_print ip 0 pos0 k), take 16 ip))"
  using k
proof (induction "16 - k" arbitrary: k len rule: less_induct)
  case less
  let ?c = "if k = 0 then [] else [0x3a :: byte]" and ?h = "hex_of_nat (ip6_word ip k)"
  define X where "X = (if k < 14 then 0x3a # ip6_print ip 0 pos0 (k + 2) @ rest else rest)"
  have s: "ip6_print ip 0 pos0 k @ rest = ?h @ X"
    using ip6_print_word [OF nm less.prems(2), of pos0 0] by (simp add: X_def)
  have X: "hex_end X" "deref X \<noteq> 0x2e" using addr_end_simps [OF rest] not_hex_punct(1) by (auto simp: X_def hex_end_def deref_def)
  show ?case
  proof (cases "k < 14")
    case False
    then have "k = 14" using less.prems(2) by simp
    then show ?thesis using ip6_prefix_word [OF nm l less.prems X, of len] s by (simp add: X_def Let_def)
  next
    case True
    then have "16 - (k + 2) < 16 - k" "even (k + 2)" "k + 2 \<le> 14" using less.prems by presburger+
    from less.hyps [OF this, of "len + length (?c @ ?h)"] show ?thesis
      using ip6_prefix_word [OF nm l less.prems X, of len] s True ip6_print_word [OF nm less.prems(2), of pos0 0] by (simp add: X_def Let_def add.assoc)
  qed
qed

lemma scan_ip4_fmt:
  assumes "length a = 4" "not_digit rest"
  shows "scan_ip4 (fmt_ip4 a @ rest) = Some (length (fmt_ip4 a), a)"
  using scan_ip4_loop_fmt [of 0 a rest 0 "[]"] assms by (cases a) (simp_all add: scan_ip4_def)

lemma scan_ip4_print:
  assumes "\<not> ip6_isv4mapped ip"
  shows "scan_ip4 (ip6_print ip len0 pos0 0 @ rest) = None"
proof (cases "pos0 = 0 \<and> len0 \<noteq> 0")
  case True
  then show ?thesis using scan_ip4_hex [of "[]"] by (subst ip6_print.simps) simp
next
  case False
  then show ?thesis
    using scan_ip4_hex [of "hex_of_nat (ip6_word ip 0)"] ip6_print_word [OF assms, of 0 pos0 len0] hex_of_nat_digits by simp
qed

lemma ip6_suffix_gap:
  assumes "\<not> ip6_isv4mapped ip" "16 \<le> length ip" "addr_end rest" "2 \<le> len0" "even (pos0 + len0)" "pos0 + len0 \<le> 16"
  shows "ip6_suffix (ip6_print ip len0 pos0 (pos0 + len0) @ rest) len pos0 [] =
    (len + length (ip6_print ip len0 pos0 (pos0 + len0)), take (16 - (pos0 + len0)) (drop (pos0 + len0) ip))"
proof (cases "pos0 + len0 = 16")
  case True
  have "scan_xlong rest = (0, 0)"
    using scan_xlong_digits [of "[]" 0 rest] addr_end_simps(1) [OF assms(3)] by (simp add: hex_value_def scan_xlong_def)
  then show ?thesis using True addr_end_simps [OF assms(3)]
    by (subst ip6_suffix.simps) (simp add: ip6_print.simps)
next
  case False
  then have "pos0 + len0 \<le> 14" using assms(5,6) by presburger
  then show ?thesis using ip6_suffix_print [OF assms(1-4) le_refl assms(5), of "[]" len] by simp
qed

lemma zero_gap:
  assumes "zero_run ip len pos" "len \<noteq> 0" "length ip = 16"
  shows "take pos ip @ replicate len 0 @ drop (pos + len) ip = ip"
proof (rule nth_equalityI)
  show "length (take pos ip @ replicate len 0 @ drop (pos + len) ip) = length ip" using assms by (auto simp: zero_run_def)
next
  fix i
  assume "i < length (take pos ip @ replicate len 0 @ drop (pos + len) ip)"
  then show "(take pos ip @ replicate len 0 @ drop (pos + len) ip) ! i = ip ! i"
    using assms by (auto simp: zero_run_def nth_append)
qed

text \<open>
  C32: Addresses survive formatting and scanning. For every address that does not end in a lone zero word, and whatever lies behind it in memory, \<^verbatim>\<open>scan_ip6\<close> reads
  back all of what \<^verbatim>\<open>fmt_ip6c\<close> writes: dotted notation for v4-mapped addresses, the longest run of zero words as a double colon for the others.
\<close>
theorem ip6_roundtrip:
  assumes "length ip = 16" "length behind = 2" "zero_word ip 14 \<longrightarrow> zero_word ip 12" "addr_end rest"
  shows "scan_ip6 (fmt_ip6c (ip @ behind) @ rest) = Some (length (fmt_ip6c (ip @ behind)), ip)"
proof (cases "ip6_isv4mapped (ip @ behind)")
  case True
  let ?a = "take 4 (drop 12 (ip @ behind))"
  have a: "V4mappedprefix @ ?a = ip" "length ?a = 4"
    using True assms(1) append_take_drop_id [of 12 ip] by (simp_all add: ip6_isv4mapped_def)
  then have "scan_ip4 (fmt_ip4 ?a @ rest) = Some (length (fmt_ip4 ?a), ?a)"
    using scan_ip4_fmt addr_end_simps(4) [OF assms(4)] by blast
  then show ?thesis using True a by (simp add: scan_ip6_def fmt_ip6c_def)
next
  case False
  let ?ip = "ip @ behind"
  obtain len0 pos0 where runs: "ip6_runs ?ip 0 False 0 0 0 = (len0, pos0)" by fastforce
  have z: "zero_word ?ip 14 \<longrightarrow> zero_word ?ip 12" using assms(1,3) by (simp add: zero_word_def nth_append)
  have run: "zero_run ?ip len0 pos0"
    using ip6_runs_zero_run [OF z, of 0 0 0 False 0] runs by (simp add: zero_run_def)
  have l: "16 \<le> length ?ip" using assms(1,2) by simp
  have f: "fmt_ip6c ?ip = ip6_print ?ip len0 pos0 0" using False runs by (simp add: fmt_ip6c_def fmt_ip6_def)
  show ?thesis
  proof (cases "len0 = 0")
    case True
    then show ?thesis
      using ip6_prefix_full [OF False l assms(4), of 0 pos0 0] scan_ip4_print [OF False, of 0 pos0 rest] assms(1) f by (simp add: scan_ip6_def)
  next
    case gap: False
    then have g: "2 \<le> len0" "even pos0" "pos0 + len0 \<le> 16" "even (pos0 + len0)" using run by (auto simp: zero_run_def)
    obtain a where a: "ip6_print ?ip len0 pos0 0 = a @ ip6_print ?ip len0 pos0 (pos0 + len0)"
      "ip6_prefix (a @ ip6_print ?ip len0 pos0 (pos0 + len0) @ rest) 0 [] =
        Inr (ip6_print ?ip len0 pos0 (pos0 + len0) @ rest, length a, take pos0 ?ip)"
      using ip6_prefix_gap [OF False l g(1-3), of 0 rest 0] by auto
    have "take pos0 ip @ replicate len0 0 @ drop (pos0 + len0) ip = ip"
      using zero_gap [of ip len0 pos0] run gap assms(1) by (auto simp: zero_run_def nth_append)
    moreover have "take (pos0 + len0) (take pos0 ip @ replicate 16 0) = take pos0 ip @ replicate len0 0"
      using g assms(1) by (simp add: min_def)
    moreover have "scan_ip6 (fmt_ip6c ?ip @ rest) =
        Some (length (fmt_ip6c ?ip), take (pos0 + len0) (take pos0 ip @ replicate 16 0) @ drop (pos0 + len0) ip)"
      using a ip6_suffix_gap [OF False l assms(4) g(1,4,3), of "length a"] scan_ip4_print [OF False, of len0 pos0 rest] assms(1,2) f g(3) gap
      by (simp add: scan_ip6_def)
    ultimately show ?thesis by simp
  qed
qed

text \<open>
  The address 2001:db8::1, read back in front of a blank.
\<close>
theorem ip6_roundtrip_witness:
  "scan_ip6 (fmt_ip6c ([0x20, 0x01, 0x0d, 0xb8, 0, 0, 0, 0, 0, 0, 0, 0, 0, 0, 0, 1] @ [7, 7]) @ [0x20]) =
    Some (length (fmt_ip6c ([0x20, 0x01, 0x0d, 0xb8, 0, 0, 0, 0, 0, 0, 0, 0, 0, 0, 0, 1] @ [7, 7])),
      [0x20, 0x01, 0x0d, 0xb8, 0, 0, 0, 0, 0, 0, 0, 0, 0, 0, 0, 1])"
  by (rule ip6_roundtrip) (simp_all add: zero_word_def addr_end_def is_hex_def scan_fromhex_def)

text \<open>
  What the exception costs. The address 1:2:3:4:5:6:7:0 is written faithfully when two zero bytes happen to follow it in memory, and as a bare double colon, the
  unspecified address, when they are not both zero: \<^verbatim>\<open>fmt_ip6\<close> looks at two bytes that do not belong to the address.
\<close>
lemma fmt_ip6_reads_behind:
  "fmt_ip6c ([0, 1, 0, 2, 0, 3, 0, 4, 0, 5, 0, 6, 0, 7, 0, 0] @ [0, 0]) =
     [0x31, 0x3a, 0x32, 0x3a, 0x33, 0x3a, 0x34, 0x3a, 0x35, 0x3a, 0x36, 0x3a, 0x37, 0x3a, 0x3a] \<and>
   fmt_ip6c ([0, 1, 0, 2, 0, 3, 0, 4, 0, 5, 0, 6, 0, 7, 0, 0] @ [0, 1]) = [0x3a, 0x3a]"
  by (simp add: fmt_ip6c_def ip6_isv4mapped_def V4mappedprefix_def fmt_ip6_def ip6_runs.simps ip6_print.simps ip6_word_def fmt_xlong_eq hex_of_nat.simps tohex_def)

end
