(* ===== verification/OT_Fullscrape.thy ===== *)
theory OT_Fullscrape
  imports OW_Text OT_Scrape
begin

text \<open>
  The full scrape of \<^verbatim>\<open>src/ot_fullscrape.c\<close>, without compression, into the vector of memory blocks of \<^verbatim>\<open>src/ot_iovec.c\<close>. The memory of a block is the list of the bytes
  written to it; a block that \<^verbatim>\<open>mmap\<close> refused has no memory (\<^verbatim>\<open>MAP_FAILED\<close>, which is not a null pointer). None is a write outside of a block, or a bucket that is locked.
\<close>

section \<open>Blocks\<close>

record iov_block =
  iov_base :: "bytes option"
  iov_len :: nat

text \<open>The pointer that is returned is null (False) or the base of the last block (True). \<^verbatim>\<open>realloc\<close> and \<^verbatim>\<open>mmap\<close> each consume an answer.\<close>

definition iovec_increase :: "iov_block list \<Rightarrow> nat \<Rightarrow> allocs \<Rightarrow> bool \<times> iov_block list \<times> allocs" where
  "iovec_increase iov new_alloc as =
    (case alloc as of (ok, as) \<Rightarrow>
       if \<not> ok then (False, iov, as)
       else case alloc as of (ok, as) \<Rightarrow> (True, iov @ [\<lparr>iov_base = if ok then Some [] else None, iov_len = new_alloc\<rparr>], as))"

definition iovec_free :: "iov_block list \<Rightarrow> iov_block list" where
  "iovec_free iov = []"

text \<open>
  \<^verbatim>\<open>last_ptr\<close> as an offset into the last block. The entry in front of the first one is read if there is none.
\<close>

definition iovec_fixlast :: "iov_block list \<Rightarrow> nat \<Rightarrow> iov_block list option" where
  "iovec_fixlast iov last_ptr = (if iov = [] then None else Some (butlast iov @ [(last iov)\<lparr>iov_len := last_ptr\<rparr>]))"

definition iovec_fix_increase_or_free :: "iov_block list \<Rightarrow> nat \<Rightarrow> nat \<Rightarrow> allocs \<Rightarrow> (bool \<times> iov_block list \<times> allocs) option" where
  "iovec_fix_increase_or_free iov last_ptr new_alloc as =
    (case iovec_fixlast iov last_ptr of
       None \<Rightarrow> None
     | Some iov \<Rightarrow>
         (case iovec_increase iov new_alloc as of (ok, iov, as) \<Rightarrow> Some (ok, if ok then iov else iovec_free iov, as)))"

definition iovec_length :: "iov_block list \<Rightarrow> size_t" where
  "iovec_length iov = sum_list (map (\<lambda>v. of_nat (iov_len v)) iov)"

section \<open>The full scrape\<close>

definition OT_SCRAPE_CHUNK_SIZE :: nat where "OT_SCRAPE_CHUNK_SIZE = 512 * 1024"
definition OT_SCRAPE_MAXENTRYLEN :: nat where "OT_SCRAPE_MAXENTRYLEN = 256"

abbreviation (input) TASK_FULLSCRAPE :: u32 where "TASK_FULLSCRAPE \<equiv> 0x200"
abbreviation (input) TASK_FULLSCRAPE_TPB_BINARY :: u32 where "TASK_FULLSCRAPE_TPB_BINARY \<equiv> 0x201"
abbreviation (input) TASK_FULLSCRAPE_TPB_ASCII :: u32 where "TASK_FULLSCRAPE_TPB_ASCII \<equiv> 0x202"
abbreviation (input) TASK_FULLSCRAPE_TPB_ASCII_PLUS :: u32 where "TASK_FULLSCRAPE_TPB_ASCII_PLUS \<equiv> 0x203"
abbreviation (input) TASK_FULLSCRAPE_TPB_URLENCODED :: u32 where "TASK_FULLSCRAPE_TPB_URLENCODED \<equiv> 0x204"
abbreviation (input) TASK_FULLSCRAPE_TRACKERSTATE :: u32 where "TASK_FULLSCRAPE_TRACKERSTATE \<equiv> 0x205"
abbreviation (input) TASK_TASK_MASK :: u32 where "TASK_TASK_MASK \<equiv> 0x0fff"

definition hex_upper :: "nat \<Rightarrow> byte" where
  "hex_upper n = lit ''0123456789ABCDEF'' ! n"

definition to_hex :: "bytes \<Rightarrow> bytes" where
  "to_hex s = concat (map (\<lambda>c. [hex_upper (unat (drop_bit 4 c)), hex_upper (unat (c AND 15))]) s)"

definition issafe :: "byte \<Rightarrow> bool" where
  "issafe c \<longleftrightarrow> 0x41 \<le> c \<and> c \<le> 0x5a \<or> 0x61 \<le> c \<and> c \<le> 0x7a \<or> 0x30 \<le> c \<and> c \<le> 0x39 \<or> c \<in> set (lit ''$/.=~-_'')"

definition fmt_urlencoded :: "bytes \<Rightarrow> bytes" where
  "fmt_urlencoded s =
    concat (map (\<lambda>c. if \<not> issafe c then [0x25, tohex (unat (drop_bit 4 c)), tohex (unat (c AND 15))] else [c]) s)"

definition fullscrape_entry :: "u32 \<Rightarrow> ot_torrent \<Rightarrow> bytes" where
  "fullscrape_entry mode t =
    (let pl = peer_list t; seeds = seed_count pl; leechers = peer_count pl - seed_count pl; mode = mode AND TASK_TASK_MASK in
     if mode = TASK_FULLSCRAPE_TPB_ASCII then to_hex (t_hash t) @ lit '':'' @ fmt_zd seeds @ lit '':'' @ fmt_zd leechers @ [0x0a]
     else if mode = TASK_FULLSCRAPE_TPB_ASCII_PLUS then
       to_hex (t_hash t) @ lit '':'' @ fmt_zd seeds @ lit '':'' @ fmt_zd leechers @ lit '':'' @ fmt_zd (down_count pl) @ [0x0a]
     else if mode = TASK_FULLSCRAPE_TPB_BINARY then t_hash t @ be32 (ucast seeds) @ be32 (ucast leechers)
     else if mode = TASK_FULLSCRAPE_TPB_URLENCODED then fmt_urlencoded (t_hash t) @ lit '':'' @ fmt_zd seeds @ lit '':'' @ fmt_zd leechers @ [0x0a]
     else if mode = TASK_FULLSCRAPE_TRACKERSTATE then to_hex (t_hash t) @ lit '':'' @ fmt_zd (of_int (pl_base pl)) @ lit '':'' @ fmt_zd (down_count pl) @ [0x0a]
     else lit ''20:'' @ t_hash t @ lit ''d8:completei'' @ fmt_zd seeds @ lit ''e10:downloadedi'' @ fmt_zd (down_count pl) @
       lit ''e10:incompletei'' @ fmt_zd leechers @ lit ''ee'')"

text \<open>
  Writing at \<^verbatim>\<open>r\<close>, which is always the end of what the last block holds. All but the binary entries end with a \<^verbatim>\<open>sprintf\<close>, which writes a NUL behind its text.
\<close>

definition put_bytes :: "bytes \<Rightarrow> bool \<Rightarrow> iov_block list \<Rightarrow> iov_block list option" where
  "put_bytes bs nul iov =
    (if iov = [] then None
     else
       case iov_base (last iov) of
         None \<Rightarrow> None
       | Some d \<Rightarrow>
           if length d + length bs + (if nul then 1 else 0) \<le> iov_len (last iov) then Some (butlast iov @ [(last iov)\<lparr>iov_base := Some (d @ bs)\<rparr>])
           else None)"

definition write_pos :: "iov_block list \<Rightarrow> nat" where
  "write_pos iov = (case iov_base (last iov) of None \<Rightarrow> 0 | Some d \<Rightarrow> length d)"

definition fullscrape_increase :: "iov_block list \<Rightarrow> allocs \<Rightarrow> (bool \<times> iov_block list \<times> allocs) option" where
  "fullscrape_increase iov as = iovec_fix_increase_or_free iov (write_pos iov) OT_SCRAPE_CHUNK_SIZE as"

text \<open>
  The torrents of a bucket. A fresh block starts below the low watermark, so the loop that asks for one runs at most once. The result says whether the memory sufficed.
\<close>

fun fullscrape_bucket :: "u32 \<Rightarrow> ot_torrent list \<Rightarrow> iov_block list \<Rightarrow> allocs \<Rightarrow> (bool \<times> iov_block list \<times> allocs) option" where
  "fullscrape_bucket mode [] iov as = Some (True, iov, as)"
| "fullscrape_bucket mode (t # ts) iov as =
    (case put_bytes (fullscrape_entry mode t) (mode AND TASK_TASK_MASK \<noteq> TASK_FULLSCRAPE_TPB_BINARY) iov of
       None \<Rightarrow> None
     | Some iov \<Rightarrow>
         if write_pos iov \<ge> OT_SCRAPE_CHUNK_SIZE - OT_SCRAPE_MAXENTRYLEN then
           case fullscrape_increase iov as of
             None \<Rightarrow> None
           | Some (ok, iov, as) \<Rightarrow> if \<not> ok then Some (False, iov, as) else fullscrape_bucket mode ts iov as
         else fullscrape_bucket mode ts iov as)"

text \<open>The result says whether all buckets were visited.\<close>

fun fullscrape_buckets :: "(nat \<Rightarrow> bool) \<Rightarrow> u32 \<Rightarrow> nat list \<Rightarrow> bucket_state \<Rightarrow> iov_block list \<Rightarrow> allocs \<Rightarrow> (bool \<times> bucket_state \<times> iov_block list \<times> allocs) option" where
  "fullscrape_buckets running mode [] s iov as = Some (True, s, iov, as)"
| "fullscrape_buckets running mode (b # bs) s iov as =
    (case mutex_bucket_lock b s of
       None \<Rightarrow> None
     | Some s1 \<Rightarrow>
         (case fullscrape_bucket mode (vdata (torrents_at s1 b)) iov as of
            None \<Rightarrow> None
          | Some (ok, iov, as) \<Rightarrow>
              let s2 = mutex_bucket_unlock b 0 s1 in
              if \<not> ok \<or> \<not> running b then Some (False, s2, iov, as) else fullscrape_buckets running mode bs s2 iov as))"

definition fullscrape_make :: "(nat \<Rightarrow> bool) \<Rightarrow> u32 \<Rightarrow> bucket_state \<Rightarrow> allocs \<Rightarrow> (bucket_state \<times> iov_block list \<times> allocs) option" where
  "fullscrape_make running mode s as =
    (case iovec_increase [] OT_SCRAPE_CHUNK_SIZE as of (ok, iov, as) \<Rightarrow>
       if \<not> ok then Some (s, iov, as)
       else
         case (if mode AND TASK_TASK_MASK = TASK_FULLSCRAPE then put_bytes (lit ''d5:filesd'') True iov else Some iov) of
           None \<Rightarrow> None
         | Some iov \<Rightarrow>
             (case fullscrape_buckets running mode [0..<OT_BUCKET_COUNT] s iov as of
                None \<Rightarrow> None
              | Some (all, s, iov, as) \<Rightarrow>
                  if \<not> all then Some (s, iov, as)
                  else
                    case (if mode AND TASK_TASK_MASK = TASK_FULLSCRAPE then put_bytes (lit ''ee'') True iov else Some iov) of
                      None \<Rightarrow> None
                    | Some iov \<Rightarrow> map_option (\<lambda>iov. (s, iov, as)) (iovec_fixlast iov (write_pos iov))))"

text \<open>A round of the worker thread: it waits for a task of its class (None) and puts the blocks, as the bytes they hold, into the queue of results.\<close>

definition iov_text :: "iov_block list \<Rightarrow> bytes" where
  "iov_text iov = concat (map (\<lambda>v. case iov_base v of None \<Rightarrow> [] | Some d \<Rightarrow> d) iov)"

definition fullscrape_worker :: "(nat \<Rightarrow> bool) \<Rightarrow> bucket_state \<Rightarrow> task_state \<Rightarrow> allocs \<Rightarrow> (bucket_state \<times> task_state \<times> allocs) option" where
  "fullscrape_worker running s st as =
    (case mutex_workqueue_poptask TASK_FULLSCRAPE st of
       None \<Rightarrow> None
     | Some (st, tid, ty) \<Rightarrow>
         (case fullscrape_make running ty s as of
            None \<Rightarrow> None
          | Some (s, iov, as) \<Rightarrow> Some (s, fst (mutex_workqueue_pushresult tid (map (\<lambda>v. iov_text [v]) iov) st), as)))"

definition fullscrape_deliver :: "bool \<Rightarrow> int \<Rightarrow> u32 \<Rightarrow> task_state \<Rightarrow> task_state" where
  "fullscrape_deliver ok fd ty st = fst (mutex_workqueue_pushtask ok fd ty st)"

section \<open>The text of a full scrape\<close>

definition filled :: "iov_block \<Rightarrow> bool" where
  "filled v \<longleftrightarrow> (case iov_base v of None \<Rightarrow> False | Some d \<Rightarrow> iov_len v = length d \<and> length d \<le> OT_SCRAPE_CHUNK_SIZE)"

text \<open>While the scrape runs, the text lies in full blocks and a last one below the low watermark.\<close>

definition filling :: "iov_block list \<Rightarrow> bytes \<Rightarrow> bool" where
  "filling iov outp \<longleftrightarrow>
    (\<exists>full d. iov = full @ [\<lparr>iov_base = Some d, iov_len = OT_SCRAPE_CHUNK_SIZE\<rparr>] \<and> length d < OT_SCRAPE_CHUNK_SIZE - OT_SCRAPE_MAXENTRYLEN \<and>
      list_all filled full \<and> outp = iov_text full @ d)"

lemma length_to_hex: "length (to_hex s) = 2 * length s"
  by (induction s) (simp_all add: to_hex_def)

lemma length_fmt_urlencoded: "length (fmt_urlencoded s) \<le> 3 * length s"
  by (induction s) (auto simp: fmt_urlencoded_def)

lemma fullscrape_entry_short:
  assumes "length (t_hash t) = 20"
  shows "length (fullscrape_entry mode t) < OT_SCRAPE_MAXENTRYLEN"
proof -
  have "length (fmt_zd a) + length (fmt_zd b) + length (fmt_zd c) \<le> 60" for a b c
    using length_fmt_zd [of a] length_fmt_zd [of b] length_fmt_zd [of c] by simp
  note zd = this [of "seed_count (peer_list t)" "peer_count (peer_list t) - seed_count (peer_list t)" "down_count (peer_list t)"]
    length_fmt_zd [of "of_int (pl_base (peer_list t))"]
  show ?thesis
    using zd assms length_fmt_urlencoded [of "t_hash t"]
    by (simp add: fullscrape_entry_def Let_def length_to_hex OT_SCRAPE_MAXENTRYLEN_def lit_def be32_def)
qed

lemma put_filling:
  assumes "filling iov outp" "length bs < OT_SCRAPE_MAXENTRYLEN"
  obtains full d where "put_bytes bs nul iov = Some (full @ [\<lparr>iov_base = Some d, iov_len = OT_SCRAPE_CHUNK_SIZE\<rparr>])"
    "length d \<le> OT_SCRAPE_CHUNK_SIZE" "list_all filled full" "outp @ bs = iov_text full @ d"
proof -
  obtain full d where d: "iov = full @ [\<lparr>iov_base = Some d, iov_len = OT_SCRAPE_CHUNK_SIZE\<rparr>]"
    "length d < OT_SCRAPE_CHUNK_SIZE - OT_SCRAPE_MAXENTRYLEN" "list_all filled full" "outp = iov_text full @ d"
    using assms(1) by (auto simp: filling_def)
  have "length d + length bs + 1 \<le> OT_SCRAPE_CHUNK_SIZE" using d(2) assms(2) by simp
  then show ?thesis using that [of full "d @ bs"] d by (simp add: put_bytes_def)
qed

lemma put_if_filling:
  assumes "filling iov outp" "length bs < OT_SCRAPE_MAXENTRYLEN"
  shows "\<exists>full d. (if P then put_bytes bs True iov else Some iov) = Some (full @ [\<lparr>iov_base = Some d, iov_len = OT_SCRAPE_CHUNK_SIZE\<rparr>]) \<and>
    length d \<le> OT_SCRAPE_CHUNK_SIZE \<and> list_all filled full \<and> outp @ (if P then bs else []) = iov_text full @ d"
proof (cases P)
  case True
  show ?thesis by (rule put_filling [OF assms, of True]) (use True in auto)
next
  case False
  then show ?thesis using assms(1) by (auto simp: filling_def)
qed

lemma increase_filling:
  assumes "list_all filled full" "length d \<le> OT_SCRAPE_CHUNK_SIZE"
  shows "\<exists>iov. fullscrape_increase (full @ [\<lparr>iov_base = Some d, iov_len = OT_SCRAPE_CHUNK_SIZE\<rparr>]) [] = Some (True, iov, []) \<and> filling iov (iov_text full @ d)"
proof -
  define iov where "iov = (full @ [\<lparr>iov_base = Some d, iov_len = length d\<rparr>]) @ [\<lparr>iov_base = Some [], iov_len = OT_SCRAPE_CHUNK_SIZE\<rparr>]"
  have "filling iov (iov_text full @ d)"
    unfolding filling_def iov_def using assms
    by (intro exI [of _ "full @ [\<lparr>iov_base = Some d, iov_len = length d\<rparr>]"] exI [of _ "[]"])
      (simp add: filled_def iov_text_def OT_SCRAPE_CHUNK_SIZE_def OT_SCRAPE_MAXENTRYLEN_def)
  then show ?thesis
    by (simp add: fullscrape_increase_def iovec_fix_increase_or_free_def iovec_fixlast_def iovec_increase_def write_pos_def iov_def)
qed

lemma fullscrape_bucket_text:
  "filling iov outp \<Longrightarrow> \<forall>t \<in> set ts. length (t_hash t) = 20 \<Longrightarrow>
    \<exists>iov'. fullscrape_bucket mode ts iov [] = Some (True, iov', []) \<and> filling iov' (outp @ concat (map (fullscrape_entry mode) ts))"
proof (induction ts arbitrary: iov outp)
  case (Cons t ts)
  have l: "length (fullscrape_entry mode t) < OT_SCRAPE_MAXENTRYLEN" using fullscrape_entry_short Cons.prems(2) by simp
  obtain full d where p: "put_bytes (fullscrape_entry mode t) (mode AND TASK_TASK_MASK \<noteq> TASK_FULLSCRAPE_TPB_BINARY) iov
      = Some (full @ [\<lparr>iov_base = Some d, iov_len = OT_SCRAPE_CHUNK_SIZE\<rparr>])"
    "length d \<le> OT_SCRAPE_CHUNK_SIZE" "list_all filled full" "outp @ fullscrape_entry mode t = iov_text full @ d"
    by (rule put_filling [OF Cons.prems(1) l])
  let ?iov = "full @ [\<lparr>iov_base = Some d, iov_len = OT_SCRAPE_CHUNK_SIZE\<rparr>]"
  have w: "write_pos ?iov = length d" by (simp add: write_pos_def)
  show ?case
  proof (cases "length d \<ge> OT_SCRAPE_CHUNK_SIZE - OT_SCRAPE_MAXENTRYLEN")
    case True
    obtain iov' where i: "fullscrape_increase ?iov [] = Some (True, iov', [])" "filling iov' (outp @ fullscrape_entry mode t)"
      using increase_filling [OF p(3,2)] p(4) by auto
    then show ?thesis using Cons.IH [OF i(2)] Cons.prems(2) p(1) w True by simp
  next
    case False
    then have "filling ?iov (outp @ fullscrape_entry mode t)" using p(3,4) by (auto simp: filling_def)
    then show ?thesis using Cons.IH [of ?iov "outp @ fullscrape_entry mode t"] Cons.prems(2) p(1) w False by simp
  qed
qed simp

lemma fullscrape_buckets_text:
  assumes "bucket_locklist s = []" "\<forall>b \<in> set bs. \<forall>t \<in> set (vdata (torrents_at s b)). length (t_hash t) = 20" "filling iov outp"
  shows "\<exists>iov'. fullscrape_buckets (\<lambda>_. True) mode bs s iov [] = Some (True, s, iov', []) \<and>
    filling iov' (outp @ concat (map (fullscrape_entry mode) (concat (map (\<lambda>b. vdata (torrents_at s b)) bs))))"
  using assms(2,3)
proof (induction bs arbitrary: iov outp)
  case (Cons b bs)
  obtain s1 where s1: "mutex_bucket_lock b s = Some s1" "all_torrents s1 = all_torrents s"
    "mutex_bucket_unlock b 0 s1 = s\<lparr>g_torrent_count := g_torrent_count s + of_int 0\<rparr>"
    using lock_unlock_free [OF assms(1)] by blast
  obtain iov1 where i: "fullscrape_bucket mode (vdata (torrents_at s b)) iov [] = Some (True, iov1, [])"
    "filling iov1 (outp @ concat (map (fullscrape_entry mode) (vdata (torrents_at s b))))"
    using fullscrape_bucket_text [OF Cons.prems(2), of "vdata (torrents_at s b)" mode] Cons.prems(1) by auto
  show ?case using Cons.IH [OF _ i(2)] Cons.prems(1) s1 i(1) by simp
qed simp

lemma bucket_entries:
  assumes "tracker_wf now s"
  shows "concat (map (\<lambda>b. vdata (torrents_at s b)) [0..<OT_BUCKET_COUNT]) = torrents_entries (all_torrents s)"
proof -
  have "length (all_torrents s) = OT_BUCKET_COUNT" using tracker_wf_bucket [OF assms, of 0] by simp
  then have "map (\<lambda>b. vdata (torrents_at s b)) [0..<OT_BUCKET_COUNT] = map vdata (all_torrents s)" by (intro nth_equalityI) simp_all
  then show ?thesis by (simp add: torrents_entries_def)
qed

definition scrape_head :: "u32 \<Rightarrow> bytes" where
  "scrape_head mode = (if mode AND TASK_TASK_MASK = TASK_FULLSCRAPE then lit ''d5:filesd'' else [])"

definition scrape_tail :: "u32 \<Rightarrow> bytes" where
  "scrape_tail mode = (if mode AND TASK_TASK_MASK = TASK_FULLSCRAPE then lit ''ee'' else [])"

lemma fixlast_filling:
  assumes "list_all filled full" "length d \<le> OT_SCRAPE_CHUNK_SIZE"
  shows "\<exists>iov'. iovec_fixlast (full @ [\<lparr>iov_base = Some d, iov_len = OT_SCRAPE_CHUNK_SIZE\<rparr>])
      (write_pos (full @ [\<lparr>iov_base = Some d, iov_len = OT_SCRAPE_CHUNK_SIZE\<rparr>])) = Some iov' \<and> list_all filled iov' \<and> iov_text iov' = iov_text full @ d"
  using assms by (simp add: iovec_fixlast_def write_pos_def filled_def iov_text_def)

lemma fullscrape_text:
  assumes "tracker_wf now s" "bucket_locklist s = []"
  shows "\<exists>iov. fullscrape_make (\<lambda>_. True) mode s [] = Some (s, iov, []) \<and> list_all filled iov \<and>
    iov_text iov = scrape_head mode @ concat (map (fullscrape_entry mode) (torrents_entries (all_torrents s))) @ scrape_tail mode"
proof -
  let ?block = "\<lambda>d. \<lparr>iov_base = Some d, iov_len = OT_SCRAPE_CHUNK_SIZE\<rparr>" and ?full = "mode AND TASK_TASK_MASK = TASK_FULLSCRAPE"
  have short: "length (lit ''d5:filesd'') < OT_SCRAPE_MAXENTRYLEN" "length (lit ''ee'') < OT_SCRAPE_MAXENTRYLEN" "0 < OT_SCRAPE_CHUNK_SIZE - OT_SCRAPE_MAXENTRYLEN"
    "length (lit ''d5:filesd'') < OT_SCRAPE_CHUNK_SIZE - OT_SCRAPE_MAXENTRYLEN"
    by (simp_all add: lit_def OT_SCRAPE_MAXENTRYLEN_def OT_SCRAPE_CHUNK_SIZE_def)
  have inc: "iovec_increase [] OT_SCRAPE_CHUNK_SIZE [] = (True, [?block []], [])" by (simp add: iovec_increase_def)
  have head: "(if ?full then put_bytes (lit ''d5:filesd'') True [?block []] else Some [?block []]) = Some [?block (scrape_head mode)]"
    using short by (simp add: put_bytes_def scrape_head_def)
  have "filling [?block (scrape_head mode)] (scrape_head mode)"
    using short(3,4) by (simp add: filling_def iov_text_def scrape_head_def)
  moreover have "\<forall>b \<in> set [0..<OT_BUCKET_COUNT]. \<forall>t \<in> set (vdata (torrents_at s b)). length (t_hash t) = 20"
    using tracker_wf_bucket(2) [OF assms(1)] by (auto simp: torrent_ok_def simp del: upt.simps)
  ultimately obtain iov where b: "fullscrape_buckets (\<lambda>_. True) mode [0..<OT_BUCKET_COUNT] s [?block (scrape_head mode)] [] = Some (True, s, iov, [])"
    and f: "filling iov (scrape_head mode @ concat (map (fullscrape_entry mode) (torrents_entries (all_torrents s))))"
    using fullscrape_buckets_text [OF assms(2), of "[0..<OT_BUCKET_COUNT]" "[?block (scrape_head mode)]" "scrape_head mode" mode] bucket_entries [OF assms(1)] by auto
  obtain full d where p: "(if ?full then put_bytes (lit ''ee'') True iov else Some iov) = Some (full @ [?block d])"
    "length d \<le> OT_SCRAPE_CHUNK_SIZE" "list_all filled full"
    "scrape_head mode @ concat (map (fullscrape_entry mode) (torrents_entries (all_torrents s))) @ scrape_tail mode = iov_text full @ d"
    using put_if_filling [OF f short(2), of ?full] unfolding scrape_tail_def append_assoc by blast
  show ?thesis
    using fixlast_filling [OF p(3,2)] unfolding fullscrape_make_def inc prod.case head option.case b p(1,4) by auto
qed

text \<open>
  C20: A full scrape in any of its formats lists every torrent of the tracker once, bucket by bucket, between the opening and closing of the bencoded format; it leaves the
  tracker as it was and releases every lock. No entry is written outside of its block, the length of every block is that of the text in it, and the blocks in their order
  hold the whole text, however many torrents there are.
\<close>
theorem fullscrape_lists_all:
  assumes "tracker_wf now s" "bucket_locklist s = []"
  shows "\<exists>iov. fullscrape_make (\<lambda>_. True) mode s [] = Some (s, iov, []) \<and> list_all filled iov \<and>
    iov_text iov = scrape_head mode @ concat (map (fullscrape_entry mode) (torrents_entries (all_torrents s))) @ scrape_tail mode"
  using fullscrape_text [OF assms] .

text \<open>The tracker with one torrent, in the bencoded format.\<close>
theorem fullscrape_lists_all_witness:
  "\<exists>iov. fullscrape_make (\<lambda>_. True) TASK_FULLSCRAPE example_tracker [] = Some (example_tracker, iov, []) \<and> list_all filled iov \<and>
    iov_text iov = scrape_head TASK_FULLSCRAPE @ concat (map (fullscrape_entry TASK_FULLSCRAPE) (torrents_entries (all_torrents example_tracker))) @
      scrape_tail TASK_FULLSCRAPE"
  using fullscrape_lists_all [OF example_tracker_wf(1) example_tracker_wf(2), of 120] by simp

end
