(* ===== verification/OT_State.thy ===== *)
theory OT_State
  imports OT_Fullscrape
begin

text \<open>
  The saved state of the tracker: \<^verbatim>\<open>load_state\<close> of \<^verbatim>\<open>src/opentracker.c\<close> reads at start up the lines that a full scrape in the mode
  \<^verbatim>\<open>TASK_FULLSCRAPE_TRACKERSTATE\<close> has written.
\<close>

section \<open>Reading lines\<close>

text \<open>\<^verbatim>\<open>fgets\<close>: at most n-1 bytes, up to and with the line feed; None at the end of the file.\<close>

definition fgets :: "nat \<Rightarrow> bytes \<Rightarrow> (bytes \<times> bytes) option" where
  "fgets n src =
    (if src = [] then None
     else let k = min (n - 1) (length (takeWhile (\<lambda>c. c \<noteq> 0x0a) src) + 1) in Some (take k src, drop k src))"

text \<open>The buffer after \<^verbatim>\<open>fgets\<close>: the line, a NUL and what was there before.\<close>

definition line_buffer :: "bytes \<Rightarrow> bytes \<Rightarrow> bytes" where
  "line_buffer line inbuf = line @ 0 # drop (length line + 1) inbuf"

text \<open>
  The loop over the digits of the hash. \<^verbatim>\<open>continue\<close> ends only the round of this inner loop, so that a byte that is not hexadecimal keeps the byte of the line before.
\<close>

fun load_hash :: "bytes \<Rightarrow> bytes \<Rightarrow> bytes" where
  "load_hash inbuf [] = []"
| "load_hash inbuf (x # infohash) =
    (let eger = 16 * scan_fromhex (deref inbuf) + scan_fromhex (deref (drop 1 inbuf)) in
     (if eger < 0 then x else of_int eger) # load_hash (drop 2 inbuf) infohash)"

definition load_line :: "tenv \<Rightarrow> bytes \<Rightarrow> bytes \<Rightarrow> bucket_state \<Rightarrow> allocs \<Rightarrow> (bucket_state \<times> allocs) option" where
  "load_line env inbuf infohash s as =
    (if deref (drop 40 inbuf) \<noteq> 0x3a then Some (s, as)
     else
       case scan_ulonglong (drop 41 inbuf) of (consumed, bas) \<Rightarrow>
         if consumed = 0 then Some (s, as)
         else
           let i = 41 + consumed in
           if deref (drop i inbuf) \<noteq> 0x3a then Some (s, as)
           else
             case scan_ulonglong (drop (i + 1) inbuf) of (consumed, downcount) \<Rightarrow>
               if consumed = 0 then Some (s, as)
               else add_torrent_from_saved_state env infohash (sint (of_nat bas :: 64 word)) (of_nat downcount) s as)"

lemma fgets_shorter: "fgets 512 src = Some (line, rest) \<Longrightarrow> length rest < length src"
  by (auto simp: fgets_def Let_def split: if_splits)

function load_lines :: "tenv \<Rightarrow> bytes \<Rightarrow> bytes \<Rightarrow> bytes \<Rightarrow> bucket_state \<Rightarrow> allocs \<Rightarrow> (bucket_state \<times> allocs) option" where
  "load_lines env inbuf infohash src s as =
    (case fgets 512 src of
       None \<Rightarrow> Some (s, as)
     | Some (line, rest) \<Rightarrow>
         let inbuf = line_buffer line inbuf; infohash = load_hash inbuf infohash in
         case load_line env inbuf infohash s as of
           None \<Rightarrow> None
         | Some (s, as) \<Rightarrow> load_lines env inbuf infohash rest s as)"
  by pat_completeness auto
termination
  by (relation "measure (\<lambda>(env, inbuf, infohash, src, s, as). length src)") (auto dest: fgets_shorter)

declare load_lines.simps [simp del]

text \<open>\<^verbatim>\<open>src\<close> is the contents of the file, None if it cannot be opened; \<^verbatim>\<open>inbuf\<close> and \<^verbatim>\<open>infohash\<close> are what the variables hold before they are set.\<close>

definition load_state :: "tenv \<Rightarrow> bytes \<Rightarrow> bytes \<Rightarrow> bytes option \<Rightarrow> bucket_state \<Rightarrow> allocs \<Rightarrow> (bucket_state \<times> allocs) option" where
  "load_state env inbuf infohash state_file s as =
    (case state_file of None \<Rightarrow> Some (s, as) | Some src \<Rightarrow> load_lines env inbuf infohash src s as)"

section \<open>A line\<close>

lemma hex_upper_digit:
  assumes "n < 16"
  shows "scan_fromhex (hex_upper n) = int n \<and> hex_upper n \<noteq> 0x0a"
proof -
  have "list_all (\<lambda>n. scan_fromhex (hex_upper n) = int n \<and> hex_upper n \<noteq> 0x0a) [0..<16]" by code_simp
  then show ?thesis using assms by (simp add: list_all_iff)
qed

lemma hash_nibbles: "unat (drop_bit 4 (c :: byte)) < 16" "unat (c AND 15) < 16" "16 * unat (drop_bit 4 c) + unat (c AND 15) = unat c"
proof -
  have a: "c AND 15 = take_bit 4 c" using take_bit_eq_mask [of 4 c] by (simp add: mask_eq_exp_minus_1)
  have "unat c < 256" using unsigned_less [of c, where 'a = nat] by simp
  then show "unat (drop_bit 4 c) < 16" "unat (c AND 15) < 16" "16 * unat (drop_bit 4 c) + unat (c AND 15) = unat c"
    by (auto simp: a unsigned_drop_bit_eq unsigned_take_bit_eq drop_bit_eq_div take_bit_eq_mod unat_div unat_mod)
qed

lemma load_hash_to_hex: "length infohash = length h \<Longrightarrow> load_hash (to_hex h @ X) infohash = h"
proof (induction h arbitrary: infohash)
  case (Cons c h)
  then obtain x xs where i: "infohash = x # xs" "length xs = length h" by (cases infohash) auto
  have "16 * scan_fromhex (hex_upper (unat (drop_bit 4 c))) + scan_fromhex (hex_upper (unat (c AND 15))) = int (unat c)"
    using hex_upper_digit hash_nibbles [of c] by (metis of_nat_add of_nat_mult of_nat_numeral)
  then show ?case using Cons.IH [OF i(2)] i(1) by (simp add: to_hex_def deref_def Let_def)
qed simp

lemma to_hex_no_newline: "0x0a \<notin> set (to_hex h)"
  using hex_upper_digit hash_nibbles(1,2) by (fastforce simp: to_hex_def)

lemma fmt_zd_ulong:
  assumes "unat (w :: size_t) < 2 ^ 63"
  shows "fmt_zd w = fmt_ulong (unat w)"
proof -
  have "sint w = int (unat w)" using assms by (rule sint_small)
  then show ?thesis by (simp add: fmt_zd_def fmt_i_def fmt_ulong_eq)
qed

text \<open>What is saved of a torrent.\<close>

definition saved :: "ot_torrent \<Rightarrow> ot_torrent" where
  "saved t = \<lparr>t_hash = t_hash t, peer_list = new_peerlist\<lparr>pl_base := pl_base (peer_list t), down_count := down_count (peer_list t)\<rparr>\<rparr>"

definition savable :: "ot_torrent \<Rightarrow> bool" where
  "savable t \<longleftrightarrow> 0 \<le> pl_base (peer_list t) \<and> pl_base (peer_list t) < 2 ^ 63 \<and> unat (down_count (peer_list t)) < 2 ^ 63"

abbreviation state_line :: "ot_torrent \<Rightarrow> bytes" where
  "state_line t \<equiv> fullscrape_entry TASK_FULLSCRAPE_TRACKERSTATE t"

lemma state_line_eq:
  assumes "savable t"
  shows "state_line t = to_hex (t_hash t) @ 0x3a # fmt_ulong (nat (pl_base (peer_list t))) @ 0x3a # fmt_ulong (unat (down_count (peer_list t))) @ [0x0a]"
proof -
  have "unat (of_int (pl_base (peer_list t)) :: size_t) = nat (pl_base (peer_list t))"
    using assms by (cases "pl_base (peer_list t)") (auto simp: savable_def unat_of_nat)
  then show ?thesis
    using assms fmt_zd_ulong [of "of_int (pl_base (peer_list t))"] fmt_zd_ulong [of "down_count (peer_list t)"]
    by (simp add: savable_def fullscrape_entry_def Let_def lit_def nat_less_iff)
qed

lemma fmt_ulong_no_newline: "0x0a \<notin> set (fmt_ulong n)"
  using dec_digit_value [of n] by (force simp: fmt_ulong_eq)

lemma fgets_line:
  assumes "0x0a \<notin> set line" "length line < 511"
  shows "fgets 512 (line @ 0x0a # rest) = Some (line @ [0x0a], rest)"
proof -
  have "takeWhile (\<lambda>c. c \<noteq> 0x0a) (line @ 0x0a # rest) = line" using assms(1) by (subst takeWhile_append2) auto
  then show ?thesis using assms(2) by (simp add: fgets_def Let_def)
qed

lemma fgets_state_line:
  assumes "savable t" "length (t_hash t) = 20"
  shows "fgets 512 (state_line t @ rest) = Some (state_line t, rest)"
proof -
  define L where "L = to_hex (t_hash t) @ 0x3a # fmt_ulong (nat (pl_base (peer_list t))) @ 0x3a # fmt_ulong (unat (down_count (peer_list t)))"
  have l: "state_line t = L @ [0x0a]" using state_line_eq [OF assms(1)] by (simp add: L_def)
  have "0x0a \<notin> set L" using to_hex_no_newline fmt_ulong_no_newline by (auto simp: L_def)
  moreover have "length L < 511" using fullscrape_entry_short [OF assms(2), of TASK_FULLSCRAPE_TRACKERSTATE] l by (simp add: OT_SCRAPE_MAXENTRYLEN_def)
  ultimately show ?thesis using fgets_line [of L rest] by (simp add: l)
qed

lemma load_line_state:
  assumes "savable t" "length (t_hash t) = 20"
  shows "load_line env (state_line t @ X) (t_hash t) s as =
    add_torrent_from_saved_state env (t_hash t) (pl_base (peer_list t)) (down_count (peer_list t)) s as"
proof -
  define b where "b = nat (pl_base (peer_list t))"
  define d where "d = unat (down_count (peer_list t))"
  have bd: "b < 2 ^ 64" "d < 2 ^ 64" "b < 2 ^ 63" using assms(1) by (auto simp: savable_def b_def d_def nat_less_iff)
  define H where "H = to_hex (t_hash t)"
  have h: "length H = 40" using assms(2) by (simp add: H_def length_to_hex)
  have l: "state_line t @ X = H @ 0x3a # fmt_ulong b @ 0x3a # fmt_ulong d @ 0x0a # X"
    using state_line_eq [OF assms(1)] by (simp add: b_def d_def H_def)
  have u: "scan_ulonglong (fmt_ulong b @ 0x3a # fmt_ulong d @ 0x0a # X) = (length (fmt_ulong b), b)"
    "scan_ulonglong (fmt_ulong d @ 0x0a # X) = (length (fmt_ulong d), d)"
    using bd by (simp_all add: scan_ulonglong_def scan_dec_fmt not_digit_def)
  have "sint (of_nat b :: size_t) = int b" using bd by (subst sint_small) (simp_all add: unat_of_nat)
  then have v: "sint (of_nat b :: size_t) = pl_base (peer_list t)" "of_nat d = down_count (peer_list t)"
    using assms(1) by (simp_all add: b_def d_def savable_def)
  show ?thesis
    using u fmt_ulong_nonempty [of b] fmt_ulong_nonempty [of d] v
    by (simp add: load_line_def l h deref_def Let_def)
qed

lemma saved_lines_loaded:
  assumes "\<forall>t \<in> set ts. torrent_ok now t \<and> savable t \<and> hashisvalid env (t_hash t)"
    and "tracker_wf now s" "bucket_locklist s = []" "length infohash = 20"
  shows "\<exists>s'. load_lines env inbuf infohash (concat (map state_line ts)) s [] = Some (s', []) \<and> tracker_wf now s' \<and> bucket_locklist s' = [] \<and>
    (\<forall>h. torrent_lookup s' h = (case torrent_lookup s h of Some t \<Rightarrow> Some t | None \<Rightarrow> map_option saved (find (\<lambda>t. t_hash t = h) ts)))"
  using assms
proof (induction ts arbitrary: s inbuf infohash)
  case Nil
  then show ?case by (auto simp: load_lines.simps fgets_def split: option.splits)
next
  case (Cons t ts)
  have t: "savable t" "length (t_hash t) = 20" "pl_base (peer_list t) \<le> now" "hashisvalid env (t_hash t)"
    using Cons.prems(1) by (auto simp: torrent_ok_def)
  obtain s1 where "mutex_bucket_lock_by_hash (t_hash t) s = Some s1" using mutex_lock_free [OF Cons.prems(3)] by blast
  from saved_state_added [OF Cons.prems(2) this t(2-4), of "down_count (peer_list t)"] Cons.prems(3)
  obtain s2 where s2: "add_torrent_from_saved_state env (t_hash t) (pl_base (peer_list t)) (down_count (peer_list t)) s [] = Some (s2, [])"
    "tracker_wf now s2" "bucket_locklist s2 = []"
    "torrent_lookup s2 (t_hash t) = Some (case torrent_lookup s (t_hash t) of Some t \<Rightarrow> t | None \<Rightarrow> saved t)"
    "\<forall>h'. h' \<noteq> t_hash t \<longrightarrow> torrent_lookup s2 h' = torrent_lookup s h'"
    unfolding saved_def by auto
  define buf where "buf = line_buffer (state_line t) inbuf"
  have b: "buf = state_line t @ 0 # drop (length (state_line t) + 1) inbuf" by (simp add: buf_def line_buffer_def)
  have hash: "load_hash buf infohash = t_hash t"
    unfolding b using state_line_eq [OF t(1)] load_hash_to_hex [of infohash "t_hash t"] Cons.prems(4) t(2) by simp
  have "load_lines env inbuf infohash (concat (map state_line (t # ts))) s [] = load_lines env buf (t_hash t) (concat (map state_line ts)) s2 []"
    using fgets_state_line [OF t(1,2), of "concat (map state_line ts)"] load_line_state [OF t(1,2)] s2(1)
    by (simp add: load_lines.simps [of env inbuf] buf_def [symmetric] hash) (simp add: b)
  moreover obtain s' where s': "load_lines env buf (t_hash t) (concat (map state_line ts)) s2 [] = Some (s', [])" "tracker_wf now s'" "bucket_locklist s' = []"
    "\<forall>h. torrent_lookup s' h = (case torrent_lookup s2 h of Some t \<Rightarrow> Some t | None \<Rightarrow> map_option saved (find (\<lambda>t. t_hash t = h) ts))"
    using Cons.IH [OF _ s2(2,3) t(2), of buf] Cons.prems(1) by auto
  moreover have "torrent_lookup s' h = (case torrent_lookup s h of Some t \<Rightarrow> Some t | None \<Rightarrow> map_option saved (find (\<lambda>t. t_hash t = h) (t # ts)))" for h
    using s'(4) s2(4,5) by (cases "h = t_hash t") (auto split: option.splits)
  ultimately show ?case by auto
qed

lemma set_torrents_entries:
  assumes "tracker_wf now s"
  shows "set (torrents_entries (all_torrents s)) = (\<Union>b \<in> {0..<OT_BUCKET_COUNT}. set (vdata (torrents_at s b)))"
  unfolding bucket_entries [OF assms, symmetric] set_concat set_map set_upt image_image by (rule refl)

lemma lookup_entry:
  assumes "tracker_wf now s"
  shows "torrent_lookup s h = Some t \<longleftrightarrow> t \<in> set (torrents_entries (all_torrents s)) \<and> t_hash t = h"
proof
  note B = tracker_wf_bucket [OF assms bucket_of_hash_bound [of h]]
  assume "torrent_lookup s h = Some t"
  then have "t \<in> set (vdata (torrents_at s (bucket_of_hash h))) \<and> t_hash t = h"
    using torrent_vec.lookup_Some_iff [OF B(1), of h t] by (simp add: torrent_lookup_def)
  moreover have "bucket_of_hash h \<in> {0..<OT_BUCKET_COUNT}" using bucket_of_hash_bound [of h] by simp
  ultimately show "t \<in> set (torrents_entries (all_torrents s)) \<and> t_hash t = h" unfolding set_torrents_entries [OF assms] by blast
next
  assume a: "t \<in> set (torrents_entries (all_torrents s)) \<and> t_hash t = h"
  then obtain b where "b \<in> {0..<OT_BUCKET_COUNT}" and t: "t \<in> set (vdata (torrents_at s b))" unfolding set_torrents_entries [OF assms] by blast
  then have b: "b < OT_BUCKET_COUNT" by simp
  then have "b = bucket_of_hash h" using tracker_wf_bucket(2) [OF assms b] t a by auto
  then show "torrent_lookup s h = Some t"
    using torrent_vec.lookup_Some_iff [OF tracker_wf_bucket(1) [OF assms b], of h t] a t by (simp add: torrent_lookup_def)
qed

lemma lookup_find:
  assumes "tracker_wf now s"
  shows "find (\<lambda>t. t_hash t = h) (torrents_entries (all_torrents s)) = torrent_lookup s h"
proof (cases "find (\<lambda>t. t_hash t = h) (torrents_entries (all_torrents s))")
  case None
  then have "torrent_lookup s h \<noteq> Some t" for t using lookup_entry [OF assms, of h t] by (auto simp: find_None_iff)
  then have "torrent_lookup s h = None" by (cases "torrent_lookup s h") blast+
  then show ?thesis using None by simp
next
  case (Some t)
  then have "t \<in> set (torrents_entries (all_torrents s)) \<and> t_hash t = h" by (auto simp: find_Some_iff)
  then show ?thesis using Some lookup_entry [OF assms, of h t] by simp
qed

text \<open>
  C7: The saved state is read back. The lines that a full scrape in the mode of the tracker state writes for a tracker make \<^verbatim>\<open>load_state\<close> add to the new tracker exactly the
  torrents of the old one, with their base and their count of downloads and without peers; torrents that the new tracker knows already stay as they are. The counters must be
  printable as signed numbers, and the hashes accepted by the access list.
\<close>
theorem state_roundtrip:
  assumes "tracker_wf now s" "bucket_locklist s = []" "tracker_wf now s0" "bucket_locklist s0 = []" "length infohash = 20"
    and "\<forall>t \<in> set (torrents_entries (all_torrents s)). savable t \<and> hashisvalid env (t_hash t)"
  shows "\<exists>iov s'. fullscrape_make (\<lambda>_. True) TASK_FULLSCRAPE_TRACKERSTATE s [] = Some (s, iov, []) \<and>
    load_state env inbuf infohash (Some (iov_text iov)) s0 [] = Some (s', []) \<and> tracker_wf now s' \<and> bucket_locklist s' = [] \<and>
    (\<forall>h. torrent_lookup s' h = (case torrent_lookup s0 h of Some t \<Rightarrow> Some t | None \<Rightarrow> map_option saved (torrent_lookup s h)))"
proof -
  have ok: "\<forall>t \<in> set (torrents_entries (all_torrents s)). torrent_ok now t \<and> savable t \<and> hashisvalid env (t_hash t)"
    using assms(1,6) by (auto simp: tracker_wf_def)
  obtain iov where iov: "fullscrape_make (\<lambda>_. True) TASK_FULLSCRAPE_TRACKERSTATE s [] = Some (s, iov, [])"
    "iov_text iov = concat (map state_line (torrents_entries (all_torrents s)))"
    using fullscrape_text [OF assms(1,2), of TASK_FULLSCRAPE_TRACKERSTATE] by (auto simp: scrape_head_def scrape_tail_def)
  show ?thesis
    using saved_lines_loaded [OF ok assms(3-5), of inbuf] iov unfolding lookup_find [OF assms(1)] load_state_def by auto
qed

text \<open>The tracker with one torrent, loaded into an empty one.\<close>
theorem state_roundtrip_witness:
  "\<exists>iov s'. fullscrape_make (\<lambda>_. True) TASK_FULLSCRAPE_TRACKERSTATE example_tracker [] = Some (example_tracker, iov, []) \<and>
    load_state (example_env 120) [] (replicate 20 0) (Some (iov_text iov)) mutex_init [] = Some (s', []) \<and>
    torrent_lookup s' (replicate 20 7) = Some (saved example_torrent)"
proof -
  have wf: "tracker_wf 120 example_tracker" by (rule example_tracker_wf(1)) simp
  have "t = example_torrent" if "b \<in> {0..<OT_BUCKET_COUNT}" "t \<in> set (vdata (torrents_at example_tracker b))" for b t
    using that by (auto simp: example_tracker_def mutex_init_def nth_list_update split: if_splits)
  moreover have "savable example_torrent" by (simp add: savable_def example_torrent_def example_peerlist_def)
  ultimately have "\<forall>t \<in> set (torrents_entries (all_torrents example_tracker)). savable t \<and> hashisvalid (example_env 120) (t_hash t)"
    unfolding set_torrents_entries [OF wf] by fastforce
  moreover have "torrent_lookup mutex_init (replicate 20 7) = None"
    by (simp add: torrent_lookup_def mutex_init_def vector_find_eq_find vec_wf_def)
  ultimately show ?thesis
    using state_roundtrip [OF wf example_tracker_wf(2) tracker_wf_init, of "replicate 20 0" "example_env 120" "[]"] example_tracker_wf(3)
    by (auto simp: mutex_init_def)
qed

end
