(* ===== verification/OT_Config.thy ===== *)
theory OT_Config
  imports OW_Ip6 OT_State
begin

text \<open>
  The configuration file: \<^verbatim>\<open>parse_configfile\<close> of \<^verbatim>\<open>src/opentracker.c\<close> with the addresses it scans and the sockets it binds, in the build without options. A line
  is handled as the C string in the buffer; no keyword contains a NUL, so no comparison reads behind it. Messages to the console are left out.
\<close>

section \<open>Parsing\<close>

definition isspace :: "byte \<Rightarrow> bool" where
  "isspace c \<longleftrightarrow> c = 0x20 \<or> 0x09 \<le> c \<and> c \<le> 0x0d"

text \<open>A socket that was bound, with the number of worker threads started for it.\<close>

record bound_socket =
  b_proto :: PROTO_FLAG
  b_ip :: bytes
  b_port :: nat
  b_workers :: nat

record config =
  g_serverdir :: "bytes option"
  g_serveruser :: "bytes option"
  g_stats_path :: "bytes option"
  g_redirecturl :: "bytes option"
  g_udp_workers :: nat
  sockets :: "bound_socket list"

definition config_init :: config where
  "config_init = \<lparr>g_serverdir = None, g_serveruser = None, g_stats_path = None, g_redirecturl = None, g_udp_workers = 0, sockets = []\<rparr>"

text \<open>
  \<^verbatim>\<open>ot_try_bind\<close> ends the process (None) for an address that is not IPv4, and when the system refuses the address: \<^verbatim>\<open>can_bind\<close> is its answer.
\<close>

type_synonym bind_answers = "PROTO_FLAG \<Rightarrow> bytes \<Rightarrow> nat \<Rightarrow> bool"

definition ot_try_bind :: "bind_answers \<Rightarrow> bytes \<Rightarrow> nat \<Rightarrow> PROTO_FLAG \<Rightarrow> config \<Rightarrow> config option" where
  "ot_try_bind can_bind ip port proto c =
    (if \<not> ip6_isv4mapped ip \<or> \<not> can_bind proto ip port then None
     else Some (c\<lparr>sockets := sockets c @ [\<lparr>b_proto = proto, b_ip = ip, b_port = port,
       b_workers = if proto = FLAG_UDP then g_udp_workers c else 0\<rparr>]\<rparr>))"

definition set_config_option :: "bytes \<Rightarrow> allocs \<Rightarrow> bytes option \<times> allocs" where
  "set_config_option src as = (case alloc as of (ok, as) \<Rightarrow> (if ok then Some (dropWhile isspace src) else None, as))"

text \<open>The number of bytes that were read, the address and the port; None is the return value 0.\<close>

definition scan_ip6_port :: "bytes \<Rightarrow> nat \<Rightarrow> (nat \<times> bytes \<times> nat) option" where
  "scan_ip6_port src port =
    (let s = dropWhile isspace src;
         bracket = (deref s = 0x5b);
         s = (if bracket then drop 1 s else s) in
     case scan_ip6 s of
       None \<Rightarrow> None
     | Some (off, ip) \<Rightarrow>
         let s = drop off s;
             s = (if bracket \<and> deref s = 0x5d then drop 1 s else s) in
         if deref s = 0 \<or> isspace (deref s) then Some (length src - length s, ip, port)
         else if \<not> ip6_isv4mapped ip \<and> (deref s \<noteq> 0x3a \<and> deref s \<noteq> 0x2e \<or> \<not> bracket \<and> deref s = 0x3a) then None
         else if ip6_isv4mapped ip \<and> deref s \<noteq> 0x3a then None
         else
           let s = drop 1 s in
           case scan_ushort s of (off, port) \<Rightarrow> if off = 0 then None else Some (off + (length src - length s), ip, port))"

definition is_command :: "string \<Rightarrow> bytes \<Rightarrow> bool" where
  "is_command name p \<longleftrightarrow> take (length name) p = lit name \<and> isspace (deref (drop (length name) p))"

text \<open>
  One line. A parse error and an unknown command are only reported. \<^verbatim>\<open>++bound\<close> is counted by the sockets.
\<close>

definition listen_line :: "bind_answers \<Rightarrow> bytes \<Rightarrow> PROTO_FLAG list \<Rightarrow> config \<Rightarrow> config option" where
  "listen_line can_bind src protos c =
    (case scan_ip6_port src 6969 of
       None \<Rightarrow> Some c
     | Some (n, ip, port) \<Rightarrow> fold (\<lambda>proto r. case r of None \<Rightarrow> None | Some c \<Rightarrow> ot_try_bind can_bind ip port proto c) protos (Some c))"

definition config_command :: "bind_answers \<Rightarrow> bytes \<Rightarrow> config \<Rightarrow> allocs \<Rightarrow> (config \<times> allocs) option" where
  "config_command can_bind p c as =
    (if is_command ''tracker.rootdir'' p then (case set_config_option (drop 16 p) as of (v, as) \<Rightarrow> Some (c\<lparr>g_serverdir := v\<rparr>, as))
     else if is_command ''tracker.user'' p then (case set_config_option (drop 13 p) as of (v, as) \<Rightarrow> Some (c\<lparr>g_serveruser := v\<rparr>, as))
     else if is_command ''listen.tcp_udp'' p then map_option (\<lambda>c. (c, as)) (listen_line can_bind (drop 15 p) [FLAG_TCP, FLAG_UDP] c)
     else if is_command ''listen.tcp'' p then map_option (\<lambda>c. (c, as)) (listen_line can_bind (drop 11 p) [FLAG_TCP] c)
     else if is_command ''listen.udp'' p then map_option (\<lambda>c. (c, as)) (listen_line can_bind (drop 11 p) [FLAG_UDP] c)
     else if is_command ''listen.udp.workers'' p then
       (case scan_uint (dropWhile isspace (drop 18 p)) of (n, w) \<Rightarrow> Some (if n = 0 then c else c\<lparr>g_udp_workers := w\<rparr>, as))
     else if is_command ''access.stats_path'' p then (case set_config_option (drop 18 p) as of (v, as) \<Rightarrow> Some (c\<lparr>g_stats_path := v\<rparr>, as))
     else if is_command ''tracker.redirect_url'' p then (case set_config_option (drop 21 p) as of (v, as) \<Rightarrow> Some (c\<lparr>g_redirecturl := v\<rparr>, as))
     else Some (c, as))"

definition config_line :: "bind_answers \<Rightarrow> bytes \<Rightarrow> config \<Rightarrow> allocs \<Rightarrow> (config \<times> allocs) option" where
  "config_line can_bind inbuf c as =
    (let p = dropWhile isspace (takeWhile (\<lambda>c. c \<noteq> 0) inbuf) in
     if deref p = 0x23 \<or> deref p = 0x0a \<or> deref p = 0 then Some (c, as)
     else config_command can_bind (rev (dropWhile isspace (rev p))) c as)"

function config_lines :: "bind_answers \<Rightarrow> bytes \<Rightarrow> config \<Rightarrow> allocs \<Rightarrow> (config \<times> allocs) option" where
  "config_lines can_bind src c as =
    (case fgets 512 src of
       None \<Rightarrow> Some (c, as)
     | Some (line, rest) \<Rightarrow>
         (case config_line can_bind line c as of
            None \<Rightarrow> None
          | Some (c, as) \<Rightarrow> config_lines can_bind rest c as))"
  by pat_completeness auto
termination
  by (relation "measure (\<lambda>(can_bind, src, c, as). length src)") (auto dest: fgets_shorter)

declare config_lines.simps [simp del]

text \<open>The contents of the file, None if it cannot be opened; the result has the number of sockets that were bound.\<close>

definition parse_configfile :: "bind_answers \<Rightarrow> bytes option \<Rightarrow> config \<Rightarrow> allocs \<Rightarrow> (nat \<times> config \<times> allocs) option" where
  "parse_configfile can_bind config_file c as =
    (case config_file of
       None \<Rightarrow> Some (0, c, as)
     | Some src \<Rightarrow> map_option (\<lambda>(c', as). (length (sockets c') - length (sockets c), c', as)) (config_lines can_bind src c as))"

section \<open>Writing a configuration\<close>

datatype setting =
    Rootdir bytes
  | User bytes
  | Stats_path bytes
  | Redirect_url bytes
  | Workers nat
  | Listen "PROTO_FLAG list" bytes nat

text \<open>A listen address is four bytes, as IPv4 without the mapped prefix.\<close>

definition address :: "bytes \<Rightarrow> nat \<Rightarrow> bytes" where
  "address a port = fmt_ip4 a @ 0x3a # fmt_ulong port"

definition listen_name :: "PROTO_FLAG list \<Rightarrow> bytes" where
  "listen_name protos =
    (if protos = [FLAG_TCP] then lit ''listen.tcp '' else if protos = [FLAG_UDP] then lit ''listen.udp '' else lit ''listen.tcp_udp '')"

fun setting_text :: "setting \<Rightarrow> bytes" where
  "setting_text (Rootdir v) = lit ''tracker.rootdir '' @ v"
| "setting_text (User v) = lit ''tracker.user '' @ v"
| "setting_text (Stats_path v) = lit ''access.stats_path '' @ v"
| "setting_text (Redirect_url v) = lit ''tracker.redirect_url '' @ v"
| "setting_text (Workers n) = lit ''listen.udp.workers '' @ fmt_ulong n"
| "setting_text (Listen protos a port) = listen_name protos @ address a port"

fun apply_setting :: "setting \<Rightarrow> config \<Rightarrow> config" where
  "apply_setting (Rootdir v) c = c\<lparr>g_serverdir := Some v\<rparr>"
| "apply_setting (User v) c = c\<lparr>g_serveruser := Some v\<rparr>"
| "apply_setting (Stats_path v) c = c\<lparr>g_stats_path := Some v\<rparr>"
| "apply_setting (Redirect_url v) c = c\<lparr>g_redirecturl := Some v\<rparr>"
| "apply_setting (Workers n) c = c\<lparr>g_udp_workers := n\<rparr>"
| "apply_setting (Listen protos a port) c =
    c\<lparr>sockets := sockets c @ map (\<lambda>proto. \<lparr>b_proto = proto, b_ip = V4mappedprefix @ a, b_port = port,
      b_workers = if proto = FLAG_UDP then g_udp_workers c else 0\<rparr>) protos\<rparr>"

text \<open>A value that survives: not empty, one line, no blanks at its ends, and short enough for the line buffer.\<close>

definition plain_value :: "bytes \<Rightarrow> bool" where
  "plain_value v \<longleftrightarrow> v \<noteq> [] \<and> 0 \<notin> set v \<and> 0x0a \<notin> set v \<and> \<not> isspace (hd v) \<and> \<not> isspace (last v) \<and> length v < 480"

fun setting_ok :: "bind_answers \<Rightarrow> setting \<Rightarrow> bool" where
  "setting_ok can_bind (Rootdir v) = plain_value v"
| "setting_ok can_bind (User v) = plain_value v"
| "setting_ok can_bind (Stats_path v) = plain_value v"
| "setting_ok can_bind (Redirect_url v) = plain_value v"
| "setting_ok can_bind (Workers n) = (n < 2 ^ 32)"
| "setting_ok can_bind (Listen protos a port) =
    (protos \<in> {[FLAG_TCP], [FLAG_UDP], [FLAG_TCP, FLAG_UDP]} \<and> length a = 4 \<and> port < 2 ^ 16 \<and>
     list_all (\<lambda>proto. can_bind proto (V4mappedprefix @ a) port) protos)"

section \<open>Reading it back\<close>

definition address_char :: "byte \<Rightarrow> bool" where
  "address_char c \<longleftrightarrow> c = 0x2e \<or> c = 0x3a \<or> c - 0x30 < 10"

lemma digit_range:
  assumes "c - 0x30 < (10 :: byte)"
  shows "0x30 \<le> c \<and> c \<le> 0x39"
  using assms by unat_arith auto

lemma address_char_plain:
  assumes "address_char c"
  shows "\<not> isspace c \<and> c \<noteq> 0 \<and> c \<noteq> 0x0a \<and> c \<noteq> 0x5b"
proof -
  consider "c = 0x2e" | "c = 0x3a" | "0x30 \<le> c" "c \<le> 0x39" using assms digit_range by (auto simp: address_char_def)
  then show ?thesis by cases (auto simp: isspace_def word_le_nat_alt)
qed

lemma fmt_ulong_chars: "\<forall>c \<in> set (fmt_ulong n). address_char c"
  using dec_digit_value [of n] by (auto simp: fmt_ulong_eq address_char_def)

lemma fmt_ip4_chars: "\<forall>c \<in> set (fmt_ip4 a). address_char c"
proof (induction a rule: fmt_ip4.induct)
  case (3 b c bs)
  then show ?case using fmt_ulong_chars [of "unat b"] by (simp add: ball_Un) (simp add: address_char_def)
qed (simp_all add: fmt_ulong_chars)

lemma plain_value_chars:
  assumes "\<forall>c \<in> set v. address_char c" "v \<noteq> []" "length v < 480"
  shows "plain_value v"
proof -
  have "\<forall>c \<in> set v. \<not> isspace c \<and> c \<noteq> 0 \<and> c \<noteq> 0x0a" using assms(1) address_char_plain by blast
  then show ?thesis using assms(2,3) hd_in_set [OF assms(2)] last_in_set [OF assms(2)] unfolding plain_value_def by blast
qed

lemma length_fmt_ulong: "0 < k \<Longrightarrow> n < 10 ^ k \<Longrightarrow> length (fmt_ulong n) \<le> k"
  unfolding fmt_ulong_eq by (rule length_dec_of_nat)

lemma length_fmt_ip4: "length (fmt_ip4 a) \<le> 4 * length a"
proof (induction a rule: fmt_ip4.induct)
  case (2 b)
  have "unat b < 10 ^ 3" using unsigned_less [of b, where 'a = nat] by simp
  then show ?case using length_fmt_ulong [of 3 "unat b"] by simp
next
  case (3 b c bs)
  have "unat b < 10 ^ 3" using unsigned_less [of b, where 'a = nat] by simp
  then show ?case using length_fmt_ulong [of 3 "unat b"] 3 by simp
qed simp

lemma address_chars: "\<forall>c \<in> set (address a port). address_char c"
  using fmt_ip4_chars [of a] fmt_ulong_chars [of port] by (auto simp: address_def address_char_def)

lemma address_plain:
  assumes "length a = 4" "port < 2 ^ 16"
  shows "plain_value (address a port)"
proof (rule plain_value_chars)
  show "\<forall>c \<in> set (address a port). address_char c" by (rule address_chars)
  show "address a port \<noteq> []" by (simp add: address_def)
  have "length (fmt_ulong port) \<le> 5" using length_fmt_ulong [of 5 port] assms(2) by simp
  then show "length (address a port) < 480" using length_fmt_ip4 [of a] assms(1) by (simp add: address_def)
qed

lemma scan_address:
  assumes "length a = 4" "port < 2 ^ 16"
  shows "\<exists>n. scan_ip6_port (address a port) d = Some (n, V4mappedprefix @ a, port)"
proof -
  obtain c r where r: "address a port = c # r" by (cases "address a port") (simp_all add: address_def)
  then have c: "\<not> isspace c" "c \<noteq> 0x5b" using address_char_plain [of c] address_chars [of a port] by simp_all
  have s: "dropWhile isspace (address a port) = address a port" "deref (address a port) \<noteq> 0x5b" using c r by (simp_all add: deref_def)
  have "scan_ip4 (address a port) = Some (length (fmt_ip4 a), a)"
    unfolding address_def using scan_ip4_fmt [of a "0x3a # fmt_ulong port"] assms(1) by (simp add: not_digit_def)
  then have i: "scan_ip6 (address a port) = Some (length (fmt_ip4 a), V4mappedprefix @ a)" by (simp add: scan_ip6_def)
  have p: "scan_ushort (fmt_ulong port) = (length (fmt_ulong port), port)"
    using scan_dec_fmt [OF assms(2), of "[]"] by (simp add: scan_ushort_def not_digit_def)
  have m: "ip6_isv4mapped (V4mappedprefix @ a)" by (simp add: ip6_isv4mapped_def V4mappedprefix_def)
  have "drop (length (fmt_ip4 a)) (address a port) = 0x3a # fmt_ulong port" by (simp add: address_def)
  then show ?thesis
    using s i p m fmt_ulong_nonempty [of port] by (simp add: scan_ip6_port_def Let_def deref_def isspace_def)
qed

text \<open>What is left of a line after the blanks around it are gone, and the command it is.\<close>

lemma config_line_trimmed:
  assumes "plain_value v" "name = c # n" "\<not> isspace c" "c \<noteq> 0x23" "0 \<notin> set name"
  shows "config_line can_bind (name @ v @ [0x0a]) cf as = config_command can_bind (name @ v) cf as"
proof -
  have "takeWhile (\<lambda>c. c \<noteq> 0) (name @ v @ [0x0a]) = name @ v @ [0x0a]"
    using assms(1,5) by (subst takeWhile_eq_all_conv) (auto simp: plain_value_def)
  then have p: "dropWhile isspace (takeWhile (\<lambda>c. c \<noteq> 0) (name @ v @ [0x0a])) = name @ v @ [0x0a]"
    using assms(2,3) by simp
  have nl: "isspace 0x0a" by (simp add: isspace_def)
  obtain w l where v: "v = w @ [l]" "\<not> isspace l" using assms(1) by (cases v rule: rev_cases) (auto simp: plain_value_def)
  have "rev (dropWhile isspace (rev (name @ v @ [0x0a]))) = name @ v" using v nl by simp
  moreover have "deref (name @ v @ [0x0a]) = c" "c \<noteq> 0x0a" "c \<noteq> 0" using assms(2,3,5) nl by (auto simp: deref_def)
  ultimately show ?thesis unfolding config_line_def Let_def p using assms(4) by simp
qed

lemma dropWhile_plain: "plain_value v \<Longrightarrow> dropWhile isspace v = v"
  by (cases v) (simp_all add: plain_value_def)

lemma lit_inject: "lit a = lit b \<longleftrightarrow> a = b"
proof -
  have "unat (of_char c :: byte) = of_char c" for c
    using of_nat_of_char [of c, where 'a = "8 word", symmetric] by (simp add: unat_of_nat)
  then have "inj (of_char :: char \<Rightarrow> byte)" by (metis injI of_char_eq_iff)
  then show ?thesis by (simp add: lit_def inj_map_eq_map)
qed

lemma is_command_no:
  assumes "take (min (length name) (length full)) name \<noteq> take (min (length name) (length full)) full"
  shows "\<not> is_command name (lit full @ v)"
proof
  let ?m = "min (length name) (length full)"
  assume "is_command name (lit full @ v)"
  then have "take ?m (take (length name) (lit full @ v)) = take ?m (lit name)" by (simp add: is_command_def)
  then have "lit (take ?m full) = lit (take ?m name)" by (simp add: lit_def take_map min_def split: if_splits)
  then show False using assms by (simp add: lit_inject)
qed

lemma is_command_longer:
  assumes "length name < length full" "\<not> isspace (of_char (full ! length name))"
  shows "\<not> is_command name (lit full @ v)"
  using assms by (simp add: is_command_def deref_def lit_def drop_map Cons_nth_drop_Suc [symmetric])

lemma is_command_yes: "is_command name (lit (name @ '' '') @ v)"
  by (simp add: is_command_def deref_def lit_def isspace_def)

lemma command_options:
  assumes "plain_value v"
  shows "config_command can_bind (lit ''tracker.rootdir '' @ v) c [] = Some (c\<lparr>g_serverdir := Some v\<rparr>, [])"
    and "config_command can_bind (lit ''tracker.user '' @ v) c [] = Some (c\<lparr>g_serveruser := Some v\<rparr>, [])"
    and "config_command can_bind (lit ''access.stats_path '' @ v) c [] = Some (c\<lparr>g_stats_path := Some v\<rparr>, [])"
    and "config_command can_bind (lit ''tracker.redirect_url '' @ v) c [] = Some (c\<lparr>g_redirecturl := Some v\<rparr>, [])"
  using assms is_command_yes [of "''tracker.rootdir''" v] is_command_yes [of "''tracker.user''" v] is_command_yes [of "''access.stats_path''" v]
    is_command_yes [of "''tracker.redirect_url''" v]
  by (simp_all add: config_command_def is_command_no set_config_option_def dropWhile_plain)

lemma command_workers:
  assumes "n < 2 ^ 32"
  shows "config_command can_bind (lit ''listen.udp.workers '' @ fmt_ulong n) c [] = Some (c\<lparr>g_udp_workers := n\<rparr>, [])"
proof -
  have "dropWhile isspace (fmt_ulong n) = fmt_ulong n"
    using fmt_ulong_chars [of n] address_char_plain by (cases "fmt_ulong n") auto
  then have d: "dropWhile isspace (drop 18 (lit ''listen.udp.workers '' @ fmt_ulong n)) = fmt_ulong n" by (simp add: lit_def isspace_def)
  have "\<not> is_command ''listen.udp'' (lit ''listen.udp.workers '' @ fmt_ulong n)" by (rule is_command_longer) (simp_all add: isspace_def)
  then show ?thesis
    using d scan_dec_fmt [OF assms, of "[]"] fmt_ulong_nonempty [of n] is_command_yes [of "''listen.udp.workers''" "fmt_ulong n"]
    by (simp add: config_command_def is_command_no scan_uint_def not_digit_def)
qed

lemma listen_line_address:
  assumes "length a = 4" "port < 2 ^ 16" "list_all (\<lambda>proto. can_bind proto (V4mappedprefix @ a) port) protos"
  shows "listen_line can_bind (address a port) protos c = Some (apply_setting (Listen protos a port) c)"
proof -
  obtain n where n: "scan_ip6_port (address a port) 6969 = Some (n, V4mappedprefix @ a, port)" using scan_address [OF assms(1,2)] by blast
  have m: "ip6_isv4mapped (V4mappedprefix @ a)" by (simp add: ip6_isv4mapped_def V4mappedprefix_def)
  have "fold (\<lambda>proto r. case r of None \<Rightarrow> None | Some c \<Rightarrow> ot_try_bind can_bind (V4mappedprefix @ a) port proto c) protos (Some c)
    = Some (apply_setting (Listen protos a port) c)"
    using assms(3) by (induction protos arbitrary: c) (simp_all add: ot_try_bind_def m)
  then show ?thesis by (simp add: listen_line_def n)
qed

lemma command_listen:
  assumes "setting_ok can_bind (Listen protos a port)"
  shows "config_command can_bind (listen_name protos @ address a port) c [] = Some (apply_setting (Listen protos a port) c, [])"
proof -
  let ?v = "address a port"
  have l: "listen_line can_bind ?v protos c = Some (apply_setting (Listen protos a port) c)" using listen_line_address assms by simp
  have d: "drop 11 (lit ''listen.tcp '' @ ?v) = ?v" "drop 11 (lit ''listen.udp '' @ ?v) = ?v" "drop 15 (lit ''listen.tcp_udp '' @ ?v) = ?v" by simp_all
  consider "protos = [FLAG_TCP]" | "protos = [FLAG_UDP]" | "protos = [FLAG_TCP, FLAG_UDP]" using assms by auto
  then show ?thesis
  proof cases
    case 1
    then show ?thesis using l d is_command_yes [of "''listen.tcp''" ?v] by (simp add: config_command_def is_command_no listen_name_def)
  next
    case 2
    then show ?thesis using l d is_command_yes [of "''listen.udp''" ?v] by (simp add: config_command_def is_command_no listen_name_def)
  next
    case 3
    then show ?thesis using l d is_command_yes [of "''listen.tcp_udp''" ?v] by (simp add: config_command_def is_command_no listen_name_def)
  qed
qed

text \<open>Every setting is a command word, a blank and a plain value.\<close>

definition command_word :: "bytes \<Rightarrow> bool" where
  "command_word name \<longleftrightarrow> name \<noteq> [] \<and> \<not> isspace (hd name) \<and> hd name \<noteq> 0x23 \<and> 0 \<notin> set name \<and> 0x0a \<notin> set name \<and> length name \<le> 21"

lemma command_words:
  "command_word (lit ''tracker.rootdir '')" "command_word (lit ''tracker.user '')" "command_word (lit ''access.stats_path '')"
  "command_word (lit ''tracker.redirect_url '')" "command_word (lit ''listen.udp.workers '')" "command_word (listen_name protos)"
  by (simp_all add: command_word_def listen_name_def lit_def isspace_def word_le_nat_alt)

lemma setting_shape:
  assumes "setting_ok can_bind st"
  obtains name v where "setting_text st = name @ v" "plain_value v" "command_word name"
proof -
  have w: "plain_value (fmt_ulong n)" if "n < 2 ^ 32" for n
    using plain_value_chars [OF fmt_ulong_chars fmt_ulong_nonempty] length_fmt_ulong [of 10 n] that by simp
  show ?thesis
  proof (cases st)
    case (Rootdir v)
    then show ?thesis using that [of "lit ''tracker.rootdir ''" v] assms command_words by simp
  next
    case (User v)
    then show ?thesis using that [of "lit ''tracker.user ''" v] assms command_words by simp
  next
    case (Stats_path v)
    then show ?thesis using that [of "lit ''access.stats_path ''" v] assms command_words by simp
  next
    case (Redirect_url v)
    then show ?thesis using that [of "lit ''tracker.redirect_url ''" v] assms command_words by simp
  next
    case (Workers n)
    then show ?thesis using that [of "lit ''listen.udp.workers ''" "fmt_ulong n"] assms command_words w by simp
  next
    case (Listen protos a port)
    then show ?thesis using that [of "listen_name protos" "address a port"] assms command_words(6) [of protos] address_plain [of a port] by simp
  qed
qed

lemma config_setting:
  assumes "setting_ok can_bind st"
  shows "config_line can_bind (setting_text st @ [0x0a]) c [] = Some (apply_setting st c, [])"
proof -
  obtain name v where s: "setting_text st = name @ v" "plain_value v" "command_word name" by (rule setting_shape [OF assms])
  then obtain ch n where n: "name = ch # n" "\<not> isspace ch" "ch \<noteq> 0x23" "0 \<notin> set name" by (cases name) (auto simp: command_word_def)
  have "config_line can_bind (setting_text st @ [0x0a]) c [] = config_command can_bind (setting_text st) c []"
    using config_line_trimmed [OF s(2) n] s(1) by simp
  then show ?thesis using assms command_options command_workers command_listen by (cases st) simp_all
qed

lemma fgets_setting:
  assumes "setting_ok can_bind st"
  shows "fgets 512 (setting_text st @ 0x0a # rest) = Some (setting_text st @ [0x0a], rest)"
proof -
  obtain name v where s: "setting_text st = name @ v" "plain_value v" "command_word name" by (rule setting_shape [OF assms])
  then have "0x0a \<notin> set (setting_text st)" "length (setting_text st) < 511" by (auto simp: command_word_def plain_value_def)
  then show ?thesis by (rule fgets_line)
qed

lemma config_lines_settings:
  "list_all (setting_ok can_bind) sts \<Longrightarrow>
    config_lines can_bind (concat (map (\<lambda>st. setting_text st @ [0x0a]) sts)) c [] = Some (fold apply_setting sts c, [])"
proof (induction sts arbitrary: c)
  case Nil
  show ?case by (simp add: config_lines.simps fgets_def)
next
  case (Cons st sts)
  then have st: "setting_ok can_bind st" by simp
  show ?case using Cons fgets_setting [OF st] config_setting [OF st] by (simp add: config_lines.simps [of can_bind "setting_text st @ _"])
qed

text \<open>
  C21: A configuration file that is written as one line per setting is read as exactly these settings, in their order: the options take their values, and each listen line binds
  the sockets of its protocols to its address and port, with as many workers as the last line on workers before it says; the number of sockets is returned.
\<close>
theorem config_roundtrip:
  assumes "list_all (setting_ok can_bind) sts"
  shows "parse_configfile can_bind (Some (concat (map (\<lambda>st. setting_text st @ [0x0a]) sts))) config_init [] =
    Some (length (sockets (fold apply_setting sts config_init)), fold apply_setting sts config_init, [])"
  using config_lines_settings [OF assms] by (simp add: parse_configfile_def config_init_def)

text \<open>Four workers, a socket for both protocols, and a redirect.\<close>
theorem config_roundtrip_witness:
  "parse_configfile (\<lambda>_ _ _. True)
     (Some (concat (map (\<lambda>st. setting_text st @ [0x0a]) [Workers 4, Listen [FLAG_TCP, FLAG_UDP] [127, 0, 0, 1] 6881, Redirect_url (lit ''http://x/'')]))) config_init [] =
   Some (2, \<lparr>g_serverdir = None, g_serveruser = None, g_stats_path = None, g_redirecturl = Some (lit ''http://x/''), g_udp_workers = 4,
     sockets = [\<lparr>b_proto = FLAG_TCP, b_ip = V4mappedprefix @ [127, 0, 0, 1], b_port = 6881, b_workers = 0\<rparr>,
       \<lparr>b_proto = FLAG_UDP, b_ip = V4mappedprefix @ [127, 0, 0, 1], b_port = 6881, b_workers = 4\<rparr>]\<rparr>, [])"
proof -
  have "plain_value (lit ''http://x/'')" by (simp add: plain_value_def lit_def isspace_def word_le_nat_alt)
  then have "list_all (setting_ok (\<lambda>_ _ _. True)) [Workers 4, Listen [FLAG_TCP, FLAG_UDP] [127, 0, 0, 1] 6881, Redirect_url (lit ''http://x/'')]" by simp
  from config_roundtrip [OF this] show ?thesis by (simp add: config_init_def)
qed

end
