(* ===== verification/BT_Server.thy ===== *)
theory BT_Server
  imports BT_Packet OT_Config
begin

text \<open>
  The control server of \<^verbatim>\<open>src/main.c\<close>: it reads packets of a client piece by piece, hands a complete one to the handler of its command and answers with a JSON text.
  None is an access outside of a block or through a null pointer, or the use of a number that is too large for its buffer.
\<close>

section \<open>Answers\<close>

text \<open>
  What the handlers depend on: the floating point numbers, the byte behind the data of a packet, which is never set, and the memory behind it, the contents of local variables
  that are not set, and the functions of the torrent part, which is built on libtorrent.
\<close>

record 'd bt_env =
  e_double :: "'d double_ops"
  e_unset :: byte
  e_behind :: bytes
  e_ret :: int
  e_add_task :: "bytes option \<Rightarrow> bytes option \<Rightarrow> u32"
  e_make_torrent :: "bytes option \<Rightarrow> bytes option \<Rightarrow> bytes \<Rightarrow> int"

text \<open>The global variables, and the answers of the system: allocations and the results of \<^verbatim>\<open>send\<close>, with all that was sent.\<close>

record world =
  run_flag :: int
  track_ip :: "bytes option"
  bt_tracker :: bytes
  w_out :: bytes
  w_allocs :: allocs
  w_sends :: "int list"

abbreviation (input) track_port :: int where "track_port \<equiv> 50020"

abbreviation (input) SET_TRACKER :: u16 where "SET_TRACKER \<equiv> 2002"
abbreviation (input) ADD_TASK :: u16 where "ADD_TASK \<equiv> 2003"
abbreviation (input) DEL_TASK :: u16 where "DEL_TASK \<equiv> 2004"
abbreviation (input) MAKE_TORRETN :: u16 where "MAKE_TORRETN \<equiv> 2005"
abbreviation (input) GET_TASK_STATE :: u16 where "GET_TASK_STATE \<equiv> 2006"

type_synonym handled = "(int \<times> client \<times> world) option"

definition cJSON_AddNumberToObject :: "'d double_ops \<Rightarrow> string \<Rightarrow> 'd \<Rightarrow> 'd cJSON \<times> allocs \<Rightarrow> 'd cJSON \<times> allocs" where
  "cJSON_AddNumberToObject D name n = (\<lambda>(obj, as). case cJSON_CreateNumber D n as of (item, as) \<Rightarrow> cJSON_AddItemToObject obj (lit name) item as)"

definition cJSON_AddStringToObject :: "'d double_ops \<Rightarrow> string \<Rightarrow> bytes \<Rightarrow> 'd cJSON \<times> allocs \<Rightarrow> 'd cJSON \<times> allocs" where
  "cJSON_AddStringToObject D name s = (\<lambda>(obj, as). case cJSON_CreateString D s as of (item, as) \<Rightarrow> cJSON_AddItemToObject obj (lit name) item as)"

text \<open>
  The end of the functions that answer: the object is printed and sent. A missing object or a text that cannot be allocated is a null pointer for \<^verbatim>\<open>strlen\<close>.
\<close>

definition send_json :: "'d bt_env \<Rightarrow> ('d cJSON \<times> allocs \<Rightarrow> 'd cJSON \<times> allocs) \<Rightarrow> client \<Rightarrow> world \<Rightarrow> handled" where
  "send_json env fill cli w =
    (case create_item (e_double env) cJSON_Object (w_allocs w) of
       (None, as) \<Rightarrow> None
     | (Some root, as) \<Rightarrow>
         (case fill (root, as) of (root, as) \<Rightarrow>
            case cJSON_Print (e_double env) root as of
              (Text s, as) \<Rightarrow>
                let cli = cli\<lparr>data_buf := Some (s @ [0]), data_size := int (length s)\<rparr>;
                    cli = cli\<lparr>packet := set_packet_head (packet cli) (ucast (read_packet_order (packet cli))) (of_int (data_size cli)) 1 True\<rparr>
                in (case send_packet cli (w_sends w) of (status, out, ks) \<Rightarrow> Some (status, cli, w\<lparr>w_out := w_out w @ out, w_allocs := as, w_sends := ks\<rparr>))
            | (Null, as) \<Rightarrow> None
            | (Overrun, as) \<Rightarrow> None))"

definition send_code :: "'d bt_env \<Rightarrow> client \<Rightarrow> int \<Rightarrow> world \<Rightarrow> handled" where
  "send_code env cli code w =
    (let D = e_double env in
     send_json env (cJSON_AddStringToObject D ''msg'' (lit ''Success'') \<circ> cJSON_AddNumberToObject D ''code'' (d_int D code)) cli w)"

record task_info =
  ti_task_id :: u32
  ti_state :: bytes
  ti_progress :: u32
  ti_total_download :: "64 word"
  ti_download_rate :: "64 word"
  ti_total_size :: "64 word"

definition send_task_state :: "'d bt_env \<Rightarrow> client \<Rightarrow> task_info \<Rightarrow> world \<Rightarrow> handled" where
  "send_task_state env cli info w =
    (let D = e_double env in
     send_json env
       (cJSON_AddStringToObject D ''total_size'' (fmt_zd (ti_total_size info)) \<circ>
        cJSON_AddNumberToObject D ''download_rate'' (d_int D (uint (ti_download_rate info))) \<circ>
        cJSON_AddStringToObject D ''total_download'' (fmt_zd (ti_total_download info)) \<circ>
        cJSON_AddNumberToObject D ''progress'' (d_int D (uint (ti_progress info))) \<circ>
        cJSON_AddStringToObject D ''state'' (ti_state info) \<circ>
        cJSON_AddStringToObject D ''msg'' (lit ''Success'') \<circ>
        cJSON_AddNumberToObject D ''code'' (d_int D 0)) cli w)"

text \<open>The number is passed to \<^verbatim>\<open>%lld\<close> as an unsigned int, whose register has a zero upper half.\<close>

definition send_add_task :: "'d bt_env \<Rightarrow> client \<Rightarrow> u32 \<Rightarrow> world \<Rightarrow> handled" where
  "send_add_task env cli torrent_id w =
    (let D = e_double env in
     send_json env
       (cJSON_AddStringToObject D ''torrent_id'' (fmt_ulong (unat torrent_id)) \<circ>
        cJSON_AddStringToObject D ''msg'' (lit ''Success'') \<circ>
        cJSON_AddNumberToObject D ''code'' (d_int D 0)) cli w)"

section \<open>Commands\<close>

text \<open>The C string at \<^verbatim>\<open>data_buf\<close>: the data of the packet, and what is behind it up to a NUL.\<close>

definition data_text :: "'d bt_env \<Rightarrow> client \<Rightarrow> bytes" where
  "data_text env cli = c_str (case data_buf cli of None \<Rightarrow> [] | Some d \<Rightarrow> d @ e_behind env)"

text \<open>All handlers parse the data first.\<close>

definition with_json :: "'d bt_env \<Rightarrow> client \<Rightarrow> world \<Rightarrow> ('d cJSON \<Rightarrow> world \<Rightarrow> handled) \<Rightarrow> handled" where
  "with_json env cli w handler =
    (case cJSON_Parse (e_double env) (data_text env cli) (w_allocs w) of
       (Accept root r, as) \<Rightarrow> handler root (w\<lparr>w_allocs := as\<rparr>)
     | (Reject ep, as) \<Rightarrow> send_code env cli (-1) (w\<lparr>w_allocs := as\<rparr>)
     | (Fault, as) \<Rightarrow> None
     | (Stuck, as) \<Rightarrow> None)"

text \<open>\<^verbatim>\<open>sscanf\<close> with \<^verbatim>\<open>%lld\<close> stores eight bytes into a variable of four when it finds a number.\<close>

definition scans_lld :: "bytes \<Rightarrow> bool" where
  "scans_lld s =
    (let s = dropWhile isspace s; s = (if deref s = 0x2b \<or> deref s = 0x2d then drop 1 s else s) in num_char (deref s))"

definition recv_get_task_state :: "'d bt_env \<Rightarrow> client \<Rightarrow> world \<Rightarrow> handled" where
  "recv_get_task_state env cli w =
    (if run_flag w = 0 then
       with_json env cli w (\<lambda>root w.
         case cJSON_GetObjectItem root (lit ''torrent_id'') of
           None \<Rightarrow> None
         | Some item \<Rightarrow>
             (case valuestring item of
                None \<Rightarrow> None
              | Some s \<Rightarrow>
                  if scans_lld s then None
                  else send_task_state env cli \<lparr>ti_task_id = 0, ti_state = [], ti_progress = 0, ti_total_download = 0, ti_download_rate = 0, ti_total_size = 0\<rparr> w))
     else send_code env cli (-1) w)"

definition recv_make_torrent :: "'d bt_env \<Rightarrow> client \<Rightarrow> world \<Rightarrow> handled" where
  "recv_make_torrent env cli w =
    with_json env cli w (\<lambda>root w.
      case (cJSON_GetObjectItem root (lit ''file_path''), cJSON_GetObjectItem root (lit ''torrent_path'')) of
        (Some file_path, Some torrent_path) \<Rightarrow>
          if e_make_torrent env (valuestring file_path) (valuestring torrent_path) (bt_tracker w) = 0 then send_code env cli 0 w
          else send_code env cli (-1) w
      | _ \<Rightarrow> None)"

text \<open>The call that sets \<^verbatim>\<open>ret\<close> is commented out.\<close>

definition recv_del_task :: "'d bt_env \<Rightarrow> client \<Rightarrow> world \<Rightarrow> handled" where
  "recv_del_task env cli w =
    with_json env cli w (\<lambda>root w. if e_ret env = 0 then send_code env cli 0 w else send_code env cli (-1) w)"

definition recv_add_task :: "'d bt_env \<Rightarrow> client \<Rightarrow> world \<Rightarrow> handled" where
  "recv_add_task env cli w =
    with_json env cli w (\<lambda>root w.
      case (cJSON_GetObjectItem root (lit ''torrent''), cJSON_GetObjectItem root (lit ''save_path'')) of
        (Some torrent, Some save_path) \<Rightarrow> send_add_task env cli (e_add_task env (valuestring torrent) (valuestring save_path)) w
      | _ \<Rightarrow> send_code env cli (-1) w)"

text \<open>The array \<^verbatim>\<open>tracker\<close> has 128 bytes.\<close>

definition recv_set_tracker :: "'d bt_env \<Rightarrow> client \<Rightarrow> world \<Rightarrow> handled" where
  "recv_set_tracker env cli w =
    with_json env cli w (\<lambda>root w.
      case cJSON_GetObjectItem root (lit ''ip'') of
        None \<Rightarrow> send_code env cli 0 w
      | Some ip \<Rightarrow>
          (case valuestring ip of
             None \<Rightarrow> None
           | Some s \<Rightarrow>
               (case alloc (w_allocs w) of (ok, as) \<Rightarrow>
                  if \<not> ok then None
                  else
                    let url = s @ 0x3a # fmt_i track_port in
                    if length url \<ge> 128 then None
                    else send_code env cli 0 (w\<lparr>track_ip := Some s, bt_tracker := url, w_allocs := as\<rparr>))))"

definition process_msg :: "'d bt_env \<Rightarrow> client \<Rightarrow> world \<Rightarrow> handled" where
  "process_msg env cli w =
    (let order = read_packet_order (packet cli) in
     if order = SET_TRACKER then recv_set_tracker env cli w
     else if order = ADD_TASK then recv_add_task env cli w
     else if order = DEL_TASK then recv_del_task env cli w
     else if order = MAKE_TORRETN then recv_make_torrent env cli w
     else if order = GET_TASK_STATE then recv_get_task_state env cli w
     else Some (e_ret env, cli, w))"

section \<open>Reading packets\<close>

text \<open>
  A client that is ready in a round of \<^verbatim>\<open>tcp_loop\<close>. \<^verbatim>\<open>inq\<close> has the bytes that have arrived; when there is none left, \<^verbatim>\<open>recv\<close> reports that it would block, that the
  peer has closed the connection, or an error. The result is the client, None when it was closed, and the bytes that are left.
\<close>

datatype socket_end = Blocks | Eof | Failed

definition head_complete :: "'d bt_env \<Rightarrow> client \<Rightarrow> world \<Rightarrow> client option \<times> world" where
  "head_complete env cli w =
    (let size = sint (read_packet_size (packet cli) + ucast (read_packet_token (packet cli)));
         cli = cli\<lparr>has_read_head := True, data_size := size, pos := 0\<rparr> in
     if size \<ge> 0 \<and> size < CLIENT_BUF then
       case alloc (w_allocs w) of (ok, as) \<Rightarrow>
         (if ok then Some (cli\<lparr>data_buf := Some (replicate (nat size) 0 @ [e_unset env])\<rparr>) else None, w\<lparr>w_allocs := as\<rparr>)
     else (None, w))"

definition message_complete :: "'d bt_env \<Rightarrow> client \<Rightarrow> world \<Rightarrow> (client option \<times> world) option" where
  "message_complete env cli w =
    (if pos cli = data_size cli then
       case process_msg env cli w of
         None \<Rightarrow> None
       | Some (status, cli, w) \<Rightarrow>
           if status \<noteq> 0 then Some (None, w)
           else Some (Some (cli\<lparr>packet := replicate 24 0, data_size := PACKET_LEN, pos := 0, data_buf := None, has_read_head := False\<rparr>), w)
     else if pos cli > data_size cli then Some (None, w)
     else Some (Some cli, w))"

definition store :: "bytes \<Rightarrow> int \<Rightarrow> bytes \<Rightarrow> bytes" where
  "store buf i bs = take (nat i) buf @ bs @ drop (nat i + length bs) buf"

definition read_data :: "'d bt_env \<Rightarrow> socket_end \<Rightarrow> client \<Rightarrow> bytes \<Rightarrow> world \<Rightarrow> (client option \<times> bytes \<times> world) option" where
  "read_data env e cli inq w =
    (if pos cli < data_size cli then
       if inq = [] then
         case e of
           Blocks \<Rightarrow> Some (Some cli, [], w)
         | Failed \<Rightarrow> Some (None, [], w)
         | Eof \<Rightarrow> map_option (\<lambda>(cli, w). (cli, [], w)) (message_complete env cli w)
       else
         let bs = take (nat (data_size cli - pos cli)) inq;
             cli = cli\<lparr>data_buf := map_option (\<lambda>d. store d (pos cli) bs) (data_buf cli), pos := pos cli + int (length bs)\<rparr>
         in map_option (\<lambda>(cli, w). (cli, drop (length bs) inq, w)) (message_complete env cli w)
     else map_option (\<lambda>(cli, w). (cli, inq, w)) (message_complete env cli w))"

definition client_ready :: "'d bt_env \<Rightarrow> socket_end \<Rightarrow> client \<Rightarrow> bytes \<Rightarrow> world \<Rightarrow> (client option \<times> bytes \<times> world) option" where
  "client_ready env e cli inq w =
    (if \<not> has_read_head cli then
       if inq = [] then Some (if e = Blocks then Some cli else None, [], w)
       else
         let bs = take (nat (PACKET_LEN - pos cli)) inq;
             inq = drop (length bs) inq;
             cli = cli\<lparr>packet := store (packet cli) (pos cli) bs, pos := pos cli + int (length bs)\<rparr> in
         if pos cli \<noteq> PACKET_LEN then Some (Some cli, inq, w)
         else
           case head_complete env cli w of
             (None, w) \<Rightarrow> Some (None, inq, w)
           | (Some cli, w) \<Rightarrow> read_data env e cli inq w
     else read_data env e cli inq w)"

text \<open>
  \<^verbatim>\<open>select\<close> reports the client until nothing is left; each round takes a byte at least, so as many rounds as bytes are enough.
\<close>

fun drain :: "'d bt_env \<Rightarrow> nat \<Rightarrow> client \<Rightarrow> bytes \<Rightarrow> world \<Rightarrow> (client option \<times> world) option" where
  "drain env 0 cli inq w = Some (Some cli, w)"
| "drain env (Suc n) cli inq w =
    (if inq = [] then Some (Some cli, w)
     else
       case client_ready env Blocks cli inq w of
         None \<Rightarrow> None
       | Some (None, inq, w) \<Rightarrow> Some (None, w)
       | Some (Some cli, inq, w) \<Rightarrow> drain env n cli inq w)"

text \<open>Data that arrives piece by piece.\<close>

fun arrive :: "'d bt_env \<Rightarrow> bytes list \<Rightarrow> client \<Rightarrow> world \<Rightarrow> (client option \<times> world) option" where
  "arrive env [] cli w = Some (Some cli, w)"
| "arrive env (d # ds) cli w =
    (case drain env (length d) cli d w of
       None \<Rightarrow> None
     | Some (None, w) \<Rightarrow> Some (None, w)
     | Some (Some cli, w) \<Rightarrow> arrive env ds cli w)"

section \<open>Connections\<close>

text \<open>A client that was accepted; the loop over the slots breaks in its first round.\<close>

definition new_client :: "int \<Rightarrow> bytes \<Rightarrow> client" where
  "new_client connfd stale =
    \<lparr>fd = connfd, packet = stale, token = None, token_size = 0, has_read_head = False, data_buf = None, pos = 0, data_size = PACKET_LEN\<rparr>"

definition place_client :: "client \<Rightarrow> client option list \<Rightarrow> client option list" where
  "place_client cli clients =
    (case clients of [] \<Rightarrow> [] | c # cs \<Rightarrow> (if c = None then Some cli else c) # cs)"

end
