(* ===== verification/BT_Session.thy ===== *)
theory BT_Session
  imports BT_Server
begin

text \<open>
  The packet reader of \<^verbatim>\<open>src/main.c\<close> refines an automaton that takes one byte at a time, so it does not matter in which pieces the packets of a client arrive; and a complete
  exchange, from the text of a request in any pieces to the text of the answer.
\<close>

section \<open>One byte at a time\<close>

definition client_byte :: "'d bt_env \<Rightarrow> byte \<Rightarrow> client \<Rightarrow> world \<Rightarrow> (client option \<times> world) option" where
  "client_byte env b cli w =
    (if \<not> has_read_head cli then
       let cli = cli\<lparr>packet := store (packet cli) (pos cli) [b], pos := pos cli + 1\<rparr> in
       if pos cli \<noteq> PACKET_LEN then Some (Some cli, w)
       else
         case head_complete env cli w of
           (None, w) \<Rightarrow> Some (None, w)
         | (Some cli, w) \<Rightarrow> message_complete env cli w
     else message_complete env (cli\<lparr>data_buf := map_option (\<lambda>d. store d (pos cli) [b]) (data_buf cli), pos := pos cli + 1\<rparr>) w)"

fun client_bytes :: "'d bt_env \<Rightarrow> bytes \<Rightarrow> client \<Rightarrow> world \<Rightarrow> (client option \<times> world) option" where
  "client_bytes env [] cli w = Some (Some cli, w)"
| "client_bytes env (b # bs) cli w =
    (case client_byte env b cli w of
       None \<Rightarrow> None
     | Some (None, w) \<Rightarrow> Some (None, w)
     | Some (Some cli, w) \<Rightarrow> client_bytes env bs cli w)"

text \<open>A client between two rounds: it waits for the rest of a header, or for the rest of the data.\<close>

definition client_ok :: "client \<Rightarrow> bool" where
  "client_ok cli \<longleftrightarrow> 0 \<le> pos cli \<and> length (packet cli) = 24 \<and>
    (if has_read_head cli then pos cli < data_size cli \<and> (case data_buf cli of None \<Rightarrow> False | Some d \<Rightarrow> int (length d) = data_size cli + 1)
     else pos cli < PACKET_LEN)"

lemma client_bytes_append:
  "client_bytes env (xs @ ys) cli w =
    (case client_bytes env xs cli w of
       None \<Rightarrow> None
     | Some (None, w) \<Rightarrow> Some (None, w)
     | Some (Some cli, w) \<Rightarrow> client_bytes env ys cli w)"
  by (induction xs arbitrary: cli w) (auto split: option.splits)

lemma store_simps:
  "store buf i [] = buf"
  "0 \<le> i \<Longrightarrow> nat i + length bs < length buf \<Longrightarrow> store (store buf i [b]) (i + 1) bs = store buf i (b # bs)"
  "nat i + length bs \<le> length buf \<Longrightarrow> length (store buf i bs) = length buf"
  by (simp_all add: store_def nat_add_distrib add.commute)

lemma header_bytes:
  "\<not> has_read_head cli \<Longrightarrow> 0 \<le> pos cli \<Longrightarrow> length (packet cli) = 24 \<Longrightarrow> pos cli + int (length bs) < PACKET_LEN \<Longrightarrow>
    client_bytes env bs cli w = Some (Some (cli\<lparr>packet := store (packet cli) (pos cli) bs, pos := pos cli + int (length bs)\<rparr>), w)"
proof (induction bs arbitrary: cli)
  case Nil
  then show ?case by (simp add: store_simps)
next
  case (Cons b bs)
  let ?cli = "cli\<lparr>packet := store (packet cli) (pos cli) [b], pos := pos cli + 1\<rparr>"
  have "client_byte env b cli w = Some (Some ?cli, w)" using Cons.prems by (simp add: client_byte_def)
  moreover have "client_bytes env bs ?cli w = Some (Some (?cli\<lparr>packet := store (packet ?cli) (pos ?cli) bs, pos := pos ?cli + int (length bs)\<rparr>), w)"
    using Cons.prems by (intro Cons.IH) (simp_all add: store_simps)
  moreover have "store (store (packet cli) (pos cli) [b]) (pos cli + 1) bs = store (packet cli) (pos cli) (b # bs)"
    using Cons.prems by (intro store_simps(2)) simp_all
  ultimately show ?case by (simp add: add.assoc)
qed

lemma data_bytes:
  "has_read_head cli \<Longrightarrow> 0 \<le> pos cli \<Longrightarrow> data_buf cli = Some d \<Longrightarrow> int (length d) = data_size cli + 1 \<Longrightarrow> pos cli + int (length bs) < data_size cli \<Longrightarrow>
    client_bytes env bs cli w = Some (Some (cli\<lparr>data_buf := Some (store d (pos cli) bs), pos := pos cli + int (length bs)\<rparr>), w)"
proof (induction bs arbitrary: cli d)
  case Nil
  then show ?case by (simp add: store_simps)
next
  case (Cons b bs)
  let ?cli = "cli\<lparr>data_buf := Some (store d (pos cli) [b]), pos := pos cli + 1\<rparr>"
  have l: "nat (pos cli) + length bs < length d" "nat (pos cli) + 1 \<le> length d" using Cons.prems by simp_all
  have "client_byte env b cli w = Some (Some ?cli, w)" using Cons.prems by (simp add: client_byte_def message_complete_def)
  moreover have "client_bytes env bs ?cli w = Some (Some (?cli\<lparr>data_buf := Some (store (store d (pos cli) [b]) (pos ?cli) bs), pos := pos ?cli + int (length bs)\<rparr>), w)"
    using Cons.prems l(2) by (intro Cons.IH) (simp_all add: store_simps)
  ultimately show ?case using store_simps(2) [OF Cons.prems(2) l(1)] by (simp add: add.assoc)
qed

text \<open>The last byte of a header, and the last byte of the data.\<close>

lemma header_end:
  assumes "\<not> has_read_head cli" "0 \<le> pos cli" "length (packet cli) = 24" "pos cli + int (length bs) = PACKET_LEN" "bs \<noteq> []"
  shows "client_bytes env bs cli w =
    (case head_complete env (cli\<lparr>packet := store (packet cli) (pos cli) bs, pos := PACKET_LEN\<rparr>) w of
       (None, w) \<Rightarrow> Some (None, w)
     | (Some cli, w) \<Rightarrow> message_complete env cli w)"
proof -
  obtain xs b where bs: "bs = xs @ [b]" using assms(5) by (cases bs rule: rev_cases) auto
  have "client_bytes env xs cli w = Some (Some (cli\<lparr>packet := store (packet cli) (pos cli) xs, pos := pos cli + int (length xs)\<rparr>), w)"
    using assms bs by (intro header_bytes) simp_all
  moreover have "store (store (packet cli) (pos cli) xs) (pos cli + int (length xs)) [b] = store (packet cli) (pos cli) bs"
    using assms bs by (simp add: store_def nat_add_distrib add.commute)
  moreover have "pos cli + int (length xs) + 1 = PACKET_LEN" using assms(4) bs by simp
  ultimately show ?thesis
    using assms bs by (auto simp: client_bytes_append client_byte_def split: option.splits prod.splits)
qed

lemma data_end:
  assumes "has_read_head cli" "0 \<le> pos cli" "data_buf cli = Some d" "int (length d) = data_size cli + 1" "pos cli + int (length bs) = data_size cli" "bs \<noteq> []"
  shows "client_bytes env bs cli w = message_complete env (cli\<lparr>data_buf := Some (store d (pos cli) bs), pos := data_size cli\<rparr>) w"
proof -
  obtain xs b where bs: "bs = xs @ [b]" using assms(6) by (cases bs rule: rev_cases) auto
  have "client_bytes env xs cli w = Some (Some (cli\<lparr>data_buf := Some (store d (pos cli) xs), pos := pos cli + int (length xs)\<rparr>), w)"
    using assms bs by (intro data_bytes) simp_all
  moreover have "store (store d (pos cli) xs) (pos cli + int (length xs)) [b] = store d (pos cli) bs"
    using assms bs by (simp add: store_def nat_add_distrib add.commute)
  moreover have "pos cli + int (length xs) + 1 = data_size cli" using assms(5) bs by simp
  ultimately show ?thesis
    using assms bs by (auto simp: client_bytes_append client_byte_def split: option.splits)
qed

section \<open>Rounds\<close>

lemma message_complete_ok:
  assumes "message_complete env cli w = Some (Some cli', w')"
    and "has_read_head cli" "0 \<le> pos cli" "length (packet cli) = 24" "data_buf cli = Some d" "int (length d) = data_size cli + 1"
  shows "client_ok cli'"
  using assms by (auto simp: message_complete_def client_ok_def split: if_splits option.splits prod.splits)

lemma head_complete_Some:
  assumes "head_complete env cli w = (Some cli', w')"
  obtains d where "has_read_head cli'" "pos cli' = 0" "packet cli' = packet cli" "0 \<le> data_size cli'" "data_buf cli' = Some d" "int (length d) = data_size cli' + 1"
  using assms that by (auto simp: head_complete_def Let_def split: if_splits prod.splits)

lemma client_byte_ok:
  assumes "client_ok cli" "client_byte env b cli w = Some (Some cli', w')"
  shows "client_ok cli'"
proof (cases "has_read_head cli")
  case True
  then obtain d where d: "data_buf cli = Some d" "int (length d) = data_size cli + 1" "pos cli < data_size cli" "0 \<le> pos cli" "length (packet cli) = 24"
    using assms(1) by (auto simp: client_ok_def split: option.splits)
  then have "nat (pos cli) + length [b] \<le> length d" by simp
  then show ?thesis
    using assms(2) True d message_complete_ok [of env "cli\<lparr>data_buf := Some (store d (pos cli) [b]), pos := pos cli + 1\<rparr>" w cli' w' "store d (pos cli) [b]"]
    by (simp add: client_byte_def store_simps(3))
next
  case False
  let ?cli = "cli\<lparr>packet := store (packet cli) (pos cli) [b], pos := pos cli + 1\<rparr>"
  have c: "0 \<le> pos cli" "pos cli < PACKET_LEN" "length (packet cli) = 24" using assms(1) False by (simp_all add: client_ok_def)
  then have l: "length (store (packet cli) (pos cli) [b]) = 24" by (subst store_simps(3)) simp_all
  show ?thesis
  proof (cases "pos cli + 1 = PACKET_LEN")
    case True
    then obtain c1 w1 where h: "head_complete env ?cli w = (Some c1, w1)" and m: "message_complete env c1 w1 = Some (Some cli', w')"
      using assms(2) False by (auto simp: client_byte_def split: prod.splits option.splits)
    from head_complete_Some [OF h] obtain d where d: "has_read_head c1" "pos c1 = 0" "packet c1 = packet ?cli" "data_buf c1 = Some d" "int (length d) = data_size c1 + 1"
      by blast
    show ?thesis using l d by (intro message_complete_ok [OF m]) simp_all
  next
    case n: False
    then show ?thesis using assms(2) False c l by (auto simp: client_byte_def client_ok_def)
  qed
qed

lemma client_bytes_ok: "client_ok cli \<Longrightarrow> client_bytes env bs cli w = Some (Some cli', w') \<Longrightarrow> client_ok cli'"
proof (induction bs arbitrary: cli w)
  case (Cons b bs)
  then obtain c1 w1 where "client_byte env b cli w = Some (Some c1, w1)" "client_bytes env bs c1 w1 = Some (Some cli', w')"
    by (auto split: option.splits)
  then show ?case using Cons.IH Cons.prems(1) client_byte_ok by blast
qed simp

abbreviation rest_of :: "nat \<Rightarrow> bytes \<Rightarrow> (client option \<times> world) option \<Rightarrow> (client option \<times> bytes \<times> world) option" where
  "rest_of k inq \<equiv> map_option (\<lambda>(cli, w). (cli, drop k inq, w))"

lemma read_data_bytes:
  fixes inq :: bytes
  assumes "client_ok cli" "has_read_head cli"
  defines "k \<equiv> min (nat (data_size cli - pos cli)) (length inq)"
  shows "read_data env Blocks cli inq w = rest_of k inq (client_bytes env (take k inq) cli w)"
proof -
  obtain d where d: "data_buf cli = Some d" "int (length d) = data_size cli + 1" "pos cli < data_size cli" "0 \<le> pos cli"
    using assms(1,2) by (auto simp: client_ok_def split: option.splits)
  let ?bs = "take (nat (data_size cli - pos cli)) inq"
  have k: "take k inq = ?bs" "length ?bs = k" by (simp_all add: k_def min_def)
  show ?thesis
  proof (cases "inq = []")
    case True
    then show ?thesis using d(3) by (simp add: read_data_def)
  next
    case False
    then have bs: "?bs \<noteq> []" using d(3) by simp
    have r: "read_data env Blocks cli inq w = rest_of k inq (message_complete env (cli\<lparr>data_buf := Some (store d (pos cli) ?bs), pos := pos cli + int k\<rparr>) w)"
      using False d(1,3) k(2) by (simp add: read_data_def Let_def)
    show ?thesis
    proof (cases "pos cli + int k = data_size cli")
      case True
      then show ?thesis unfolding r k(1) using data_end [OF assms(2) d(4,1,2) _ bs, of env w] k(2) by simp
    next
      case False
      then have lt: "pos cli + int k < data_size cli" using d(3,4) by (auto simp: k_def min_def)
      then have b: "client_bytes env ?bs cli w = Some (Some (cli\<lparr>data_buf := Some (store d (pos cli) ?bs), pos := pos cli + int k\<rparr>), w)"
        using data_bytes [OF assms(2) d(4,1,2), of ?bs env w] by (simp only: k(2))
      have m: "message_complete env (cli\<lparr>data_buf := Some (store d (pos cli) ?bs), pos := pos cli + int k\<rparr>) w =
          Some (Some (cli\<lparr>data_buf := Some (store d (pos cli) ?bs), pos := pos cli + int k\<rparr>), w)"
        using lt by (simp add: message_complete_def)
      show ?thesis unfolding r k(1) b m ..
    qed
  qed
qed

lemma client_ready_bytes:
  assumes "client_ok cli" "inq \<noteq> []"
  shows "\<exists>k. 0 < k \<and> client_ready env Blocks cli inq w = rest_of k inq (client_bytes env (take k inq) cli w)"
proof (cases "has_read_head cli")
  case True
  then have "pos cli < data_size cli" using assms(1) by (simp add: client_ok_def)
  then show ?thesis using read_data_bytes [OF assms(1) True, of env inq w] True assms(2)
    by (intro exI [of _ "min (nat (data_size cli - pos cli)) (length inq)"]) (simp add: client_ready_def)
next
  case False
  then have c: "0 \<le> pos cli" "pos cli < PACKET_LEN" "length (packet cli) = 24" using assms(1) by (simp_all add: client_ok_def)
  let ?bs = "take (nat (PACKET_LEN - pos cli)) inq"
  define k where "k = length ?bs"
  let ?cli = "cli\<lparr>packet := store (packet cli) (pos cli) ?bs, pos := pos cli + int k\<rparr>"
  have k: "take k inq = ?bs" "0 < k" "?bs \<noteq> []" using c(2) assms(2) by (auto simp: k_def min_def)
  show ?thesis
  proof (cases "pos cli + int k = PACKET_LEN")
    case n: False
    have "k = min (length inq) (nat (PACKET_LEN - pos cli))" by (simp add: k_def)
    then have "pos cli + int k < PACKET_LEN" using n c(1,2) by (auto simp: min_def split: if_splits)
    then have "client_bytes env ?bs cli w = Some (Some ?cli, w)" using header_bytes [OF False c(1,3), of ?bs env w] by (simp only: k_def)
    moreover have "client_ready env Blocks cli inq w = Some (Some ?cli, drop k inq, w)"
      using False assms(2) n by (simp add: client_ready_def Let_def k_def)
    ultimately show ?thesis using k by (intro exI [of _ k]) simp
  next
    case True
    then have e: "client_bytes env ?bs cli w = (case head_complete env ?cli w of (None, w) \<Rightarrow> Some (None, w) | (Some cli, w) \<Rightarrow> message_complete env cli w)"
      using header_end [OF False c(1,3) _ k(3), of env w] by (simp add: k_def)
    have r: "client_ready env Blocks cli inq w =
        (case head_complete env ?cli w of (None, w) \<Rightarrow> Some (None, drop k inq, w) | (Some cli, w) \<Rightarrow> read_data env Blocks cli (drop k inq) w)"
      unfolding client_ready_def Let_def k_def [symmetric] using False assms(2) True by simp
    obtain oc w1 where h: "head_complete env ?cli w = (oc, w1)" by fastforce
    have l: "length (packet ?cli) = 24" using c(1,3) True by (simp add: store_simps(3) k_def)
    consider "oc = None" | c1 where "oc = Some c1" "data_size c1 = 0" | c1 where "oc = Some c1" "data_size c1 \<noteq> 0" by (cases oc) auto
    then show ?thesis
    proof cases
      case 1
      then show ?thesis using e r h k by (intro exI [of _ k]) simp
    next
      case 2
      then have "pos c1 = 0" using head_complete_Some [of env ?cli w c1 w1] h by metis
      then show ?thesis using 2 e r h k by (intro exI [of _ k]) (simp add: read_data_def)
    next
      case (3 c1)
      then obtain d where d: "has_read_head c1" "pos c1 = 0" "packet c1 = packet ?cli" "0 \<le> data_size c1" "data_buf c1 = Some d" "int (length d) = data_size c1 + 1"
        using head_complete_Some [of env ?cli w c1 w1] h by metis
      have ok: "client_ok c1" using d l 3(2) by (simp add: client_ok_def)
      define k' where "k' = min (nat (data_size c1 - pos c1)) (length (drop k inq))"
      have "client_bytes env ?bs cli w = Some (Some c1, w1)" using e h 3 d(2,4) by (simp add: message_complete_def)
      then have "client_bytes env (take (k + k') inq) cli w = client_bytes env (take k' (drop k inq)) c1 w1"
        by (simp add: take_add k(1) client_bytes_append)
      moreover have "client_ready env Blocks cli inq w = rest_of k' (drop k inq) (client_bytes env (take k' (drop k inq)) c1 w1)"
        using r h 3(1) read_data_bytes [OF ok d(1), of env "drop k inq" w1] by (simp add: k'_def)
      ultimately show ?thesis using k(2) by (intro exI [of _ "k + k'"]) (simp add: add.commute)
    qed
  qed
qed

text \<open>As many rounds as there are bytes take them all, and do what the bytes do one by one.\<close>

lemma drain_bytes:
  "client_ok cli \<Longrightarrow> length inq \<le> n \<Longrightarrow> drain env n cli inq w = client_bytes env inq cli w"
proof (induction n arbitrary: cli inq w)
  case (Suc n)
  show ?case
  proof (cases "inq = []")
    case False
    obtain k where k: "0 < k" "client_ready env Blocks cli inq w = rest_of k inq (client_bytes env (take k inq) cli w)"
      using client_ready_bytes [OF Suc.prems(1) False] by blast
    have a: "client_bytes env inq cli w = client_bytes env (take k inq @ drop k inq) cli w" by simp
    have l: "length (drop k inq) \<le> n" using k(1) Suc.prems(2) by simp
    show ?thesis unfolding a client_bytes_append
      using False k(2) client_bytes_ok [OF Suc.prems(1), of env "take k inq" w] Suc.IH [OF _ l]
      by (auto split: option.splits)
  qed simp
qed simp

lemma arrive_bytes: "client_ok cli \<Longrightarrow> arrive env ds cli w = client_bytes env (concat ds) cli w"
proof (induction ds arbitrary: cli w)
  case (Cons d ds)
  then show ?case using drain_bytes [OF Cons.prems, of d "length d" env w] client_bytes_ok [OF Cons.prems, of env d w]
    by (auto simp: client_bytes_append split: option.splits)
qed simp

text \<open>
  C12: It does not matter in which pieces the packets of a client arrive. Whatever rounds of the loop of \<^verbatim>\<open>tcp_loop\<close> read them, the client, the answers and the state are those of a
  single read of all the data, and as many rounds as there are bytes take everything that has arrived.
\<close>
theorem packets_in_pieces:
  assumes "client_ok cli" "concat ds = data" "length data \<le> n"
  shows "arrive env ds cli w = drain env n cli data w"
  using arrive_bytes [OF assms(1), of env ds w] drain_bytes [OF assms(1,3), of env w] assms(2) by simp

section \<open>An exchange\<close>

lemma escape_nonzero:
  assumes "c \<noteq> 0"
  shows "0 \<notin> set (escape c)"
proof -
  have "unat c < 256" using unsigned_less [of c, where 'a = nat] by simp
  then have "unat c div 16 < 16" "unat c mod 16 < 16" using less_mult_imp_div_less [of "unat c" 16 16] by simp_all
  then show ?thesis
    using assms tohex_plain [of "unat c div 16"] tohex_plain [of "unat c mod 16"] by (auto simp: escape_def)
qed

lemma quoted_nonzero: "0 \<notin> set s \<Longrightarrow> 0 \<notin> set (quoted s)"
proof -
  assume "0 \<notin> set s"
  then have "0 \<notin> set (concat (map escape s))" by (induction s) (auto simp: escape_nonzero)
  then show ?thesis by (simp add: quoted_def)
qed

lemma array_body_nonzero: "\<forall>e \<in> set es. 0 \<notin> set e \<Longrightarrow> 0 \<notin> set (array_body fmt es)"
  by (induction es) auto

lemma object_body_nonzero: "\<forall>(n, e) \<in> set ms. 0 \<notin> set n \<and> 0 \<notin> set e \<Longrightarrow> 0 \<notin> set (object_body depth fmt ms)"
  by (induction ms) (auto split: if_splits)

lemma fmt_i_nonzero: "0 \<notin> set (fmt_i n)"
proof -
  have "0 \<notin> set (fmt_ulong m)" for m using fmt_ulong_chars [of m] address_char_plain by blast
  then show ?thesis by (simp add: fmt_i_def fmt_ulong_eq)
qed

lemma text_nonzero: "json_wf j \<Longrightarrow> 0 \<notin> set (text_of depth fmt j)"
proof (induction j arbitrary: depth)
  case (JNum n)
  show ?case using fmt_i_nonzero by simp
next
  case (JArr js)
  then have "0 \<notin> set (array_body fmt (map (text_of (depth + 1) fmt) js))" by (intro array_body_nonzero) (auto simp: list_all_iff)
  then show ?case by (simp add: array_text_def)
next
  case (JObj ms)
  then have "0 \<notin> set (object_body (depth + 1) fmt (map (\<lambda>(n, j). (quoted n, text_of (depth + 1) fmt j)) ms))"
    by (intro object_body_nonzero) (fastforce simp: list_all_iff quoted_nonzero)
  then show ?case by (auto simp: object_text_def empty_object_def)
qed (auto simp: quoted_nonzero lit_def)

text \<open>The answer of \<^verbatim>\<open>send_code\<close>.\<close>

definition reply_json :: "int \<Rightarrow> json" where
  "reply_json code = JObj [(lit ''code'', JNum code), (lit ''msg'', JStr (lit ''Success''))]"

abbreviation reply_text :: "int \<Rightarrow> bytes" where
  "reply_text code \<equiv> text_of 0 True (reply_json code)"

definition reply_head :: "bytes \<Rightarrow> int \<Rightarrow> bytes" where
  "reply_head pkt code = set_packet_head pkt (ucast (read_packet_order pkt)) (of_nat (length (reply_text code))) 1 True"

lemma reply_json_wf: "code \<in> {0, -1} \<Longrightarrow> json_wf (reply_json code)"
  by (auto simp: reply_json_def lit_def)

lemma reply_text_short: "code \<in> {0, -1} \<Longrightarrow> 0 < length (reply_text code) \<and> length (reply_text code) < 100"
  by (auto simp: reply_json_def object_text_def quoted_def fmt_i_def dec_of_nat.simps [of 0] dec_of_nat.simps [of "Suc 0"] escape_def lit_def word_less_nat_alt)

lemma send_msg_free: "send_msg [] buf = (0, buf, [])"
  by (cases buf) simp_all

lemma send_code_reply:
  assumes D: "exact_ints (e_double env)" and "code \<in> {0, -1}" "fd cli \<noteq> 0" "token cli = None" "w_allocs w = []" "w_sends w = []"
  shows "\<exists>cli'. send_code env cli code w = Some (0, cli', w\<lparr>w_out := w_out w @ reply_head (packet cli) code @ reply_text code\<rparr>) \<and> fd cli' = fd cli \<and> token cli' = token cli \<and> token_size cli' = token_size cli"
proof -
  let ?D = "e_double env"
  have tr: "d_trunc ?D (d_int ?D code) = of_int code" using D assms(2) by (auto simp: exact_ints_def)
  have root: "(cJSON_AddStringToObject ?D ''msg'' (lit ''Success'') \<circ> cJSON_AddNumberToObject ?D ''code'' (d_int ?D code))
      (set_type cJSON_Object (cJSON_New_Item ?D), []) = (item_of ?D None (reply_json code), [])"
    by (simp add: cJSON_AddStringToObject_def cJSON_AddNumberToObject_def cJSON_CreateNumber_def cJSON_CreateString_def create_item_def
        cJSON_New_Item_def cJSON_AddItemToObject_def cJSON_AddItemToArray_def reply_json_def tr)
  have "json_of ?D (item_of ?D None (reply_json code)) = Some (reply_json code)" by (rule json_of_item_of) (rule reply_json_wf [OF assms(2)])
  then have print: "cJSON_Print ?D (item_of ?D None (reply_json code)) [] = (Text (reply_text code), [])"
    using D by (simp add: cJSON_Print_def print_value_text)
  have "send_code env cli code w = (let cli = cli\<lparr>data_buf := Some (reply_text code @ [0]), data_size := int (length (reply_text code))\<rparr>;
      cli = cli\<lparr>packet := reply_head (packet cli) code\<rparr>
    in (case send_packet cli (w_sends w) of (status, out, ks) \<Rightarrow> Some (status, cli, w\<lparr>w_out := w_out w @ out, w_allocs := [], w_sends := ks\<rparr>)))"
    unfolding send_code_def send_json_def Let_def assms(5) create_item_def alloc.simps prod.case if_True option.case root print printed.case
    by (simp add: reply_head_def)
  moreover have "w\<lparr>w_out := out, w_allocs := [], w_sends := []\<rparr> = w\<lparr>w_out := out\<rparr>" for out using assms(5,6) by (cases w) simp
  ultimately show ?thesis using reply_text_short [OF assms(2)] assms(3-) by (simp add: send_packet_def send_msg_free)
qed

text \<open>A packet with its data on a fresh connection reaches the handler of its command with the data as text.\<close>

definition request_head :: "u16 \<Rightarrow> bytes \<Rightarrow> bytes \<Rightarrow> bool" where
  "request_head order body p \<longleftrightarrow>
    length p = 24 \<and> read_packet_order p = order \<and> read_packet_size p = of_nat (length body) \<and> read_packet_token p = 0"

lemma new_client_ok: "length stale = 24 \<Longrightarrow> client_ok (new_client connfd stale)"
  by (simp add: client_ok_def new_client_def)

lemma packet_received:
  assumes "request_head order body p" "body \<noteq> []" "length body < 1024 * 1024" "length stale = 24" "w_allocs w = []"
  shows "client_bytes env (p @ body) (new_client connfd stale) w =
    message_complete env ((new_client connfd stale)\<lparr>packet := p, has_read_head := True, data_buf := Some (body @ [e_unset env]),
      pos := int (length body), data_size := int (length body)\<rparr>) w"
proof -
  let ?c = "new_client connfd stale" and ?n = "length body"
  let ?h = "?c\<lparr>packet := p, has_read_head := True, data_size := int ?n, pos := 0, data_buf := Some (replicate ?n 0 @ [e_unset env])\<rparr>"
  have p: "length p = 24" "read_packet_size p = of_nat ?n" "read_packet_token p = 0" "p \<noteq> []" using assms(1) by (auto simp: request_head_def)
  have "unat (of_nat ?n :: u32) = ?n" using assms(3) by (simp add: unat_of_nat)
  then have "uint (of_nat ?n :: u32) = int ?n" by (simp only: uint_nat)
  then have "sint (of_nat ?n :: u32) = int ?n" using assms(3) by (simp add: sint_uint signed_take_bit_int_eq_self)
  then have "head_complete env (?c\<lparr>packet := p, pos := PACKET_LEN\<rparr>) w = (Some ?h, w)"
    using p assms(3,5) by (cases w) (simp add: head_complete_def Let_def new_client_def)
  moreover have "store stale 0 p = p" using p(1) assms(4) by (simp add: store_def)
  ultimately have "client_bytes env p ?c w = message_complete env ?h w"
    using header_end [of ?c p env w] p assms(4) by (simp add: new_client_def)
  also have "\<dots> = Some (Some ?h, w)" using assms(2) by (simp add: message_complete_def)
  finally have "client_bytes env (p @ body) ?c w = client_bytes env body ?h w" by (simp add: client_bytes_append)
  also have "\<dots> = message_complete env (?h\<lparr>data_buf := Some (store (replicate ?n 0 @ [e_unset env]) 0 body), pos := int ?n\<rparr>) w"
    using data_end [of ?h "replicate ?n 0 @ [e_unset env]" body env w] assms(2) by simp
  finally show ?thesis by (simp add: store_def new_client_def)
qed

text \<open>The text of an object is read whatever lies behind it.\<close>

lemma cJSON_Parse_object:
  assumes "exact_ints D" "json_wf (JObj ms)"
  shows "cJSON_Parse D (text_of 0 fmt (JObj ms) @ X) [] = (Accept (item_of D None (JObj ms)) X, [])"
proof -
  let ?src = "text_of 0 fmt (JObj ms) @ X"
  have "reads D (0 + 1) fmt (length ?src) (parse_value D (length ?src)) (snd ` set ms)"
    using parse_value_reads [OF assms(1)] assms(2) by (fastforce simp: reads_def list_all_iff)
  moreover have "list_all (\<lambda>(n, j). 0 \<notin> set n) ms" using assms(2) by (auto simp: list_all_iff)
  ultimately have o: "parse_object D (parse_value D (length ?src)) (length ?src) (cJSON_New_Item D) ?src [] = (Accept (item_of D None (JObj ms)) X, [])"
    unfolding cJSON_New_Item_def by (intro parse_object_reads) simp_all
  have "\<exists>s. ?src = 0x7b # s" by (simp add: object_text_def empty_object_def)
  then obtain s where s: "?src = 0x7b # s" by blast
  have "parse_value D (Suc (length ?src)) (cJSON_New_Item D) ?src [] = (Accept (item_of D None (JObj ms)) X, [])"
    using o unfolding s by (simp add: deref_def num_char_def lit_def)
  then show ?thesis
    using skip_text [of 0 fmt "JObj ms" X] by (simp add: cJSON_Parse_def cJSON_ParseWithOpts_def del: parse_value.simps text_of.simps)
qed

lemma get_object_item_of:
  assumes "json_wf (JObj (pre @ (n, j) # post))" "0 \<notin> set k" "casefold n = casefold k" "\<forall>m \<in> fst ` set pre. casefold m \<noteq> casefold k"
  shows "cJSON_GetObjectItem (item_of D None (JObj (pre @ (n, j) # post))) k = Some (item_of D (Some n) j)"
proof -
  let ?cs = "map (\<lambda>(n, j). item_of D (Some n) j) (pre @ (n, j) # post)"
  have "names_ok ?cs" using assms(1) by (fastforce simp: names_ok_def list_all_iff item_string_item_of)
  moreover have "find (\<lambda>c. name_key c = casefold k) (map (\<lambda>(n, j). item_of D (Some n) j) pre) = None"
    using assms(4) by (auto simp: find_None_iff name_key_def item_string_item_of)
  then have "find (\<lambda>c. name_key c = casefold k) ?cs = Some (item_of D (Some n) j)"
    using assms(3) by (simp add: find_append_key name_key_def item_string_item_of)
  ultimately show ?thesis
    using find_has_name [of ?cs k] assms(2) by (simp add: cJSON_GetObjectItem_def)
qed

lemma data_text_body: "0 \<notin> set body \<Longrightarrow> data_buf cli = Some (body @ [e_unset env]) \<Longrightarrow> \<exists>X. data_text env cli = body @ X"
  by (auto simp: data_text_def c_str_def takeWhile_append)

lemma set_tracker_handled:
  fixes x :: bytes
  assumes "exact_ints (e_double env)" "json_wf (JObj (pre @ (n, JStr x) # post))" "casefold n = lit ''ip''" "\<forall>m \<in> fst ` set pre. casefold m \<noteq> lit ''ip''"
    and "data_buf cli = Some (text_of 0 fmt (JObj (pre @ (n, JStr x) # post)) @ [e_unset env])" "w_allocs w = []"
  shows "recv_set_tracker env cli w =
    (if length x \<le> 121 then send_code env cli 0 (w\<lparr>track_ip := Some x, bt_tracker := x @ lit '':50020''\<rparr>) else None)"
proof -
  let ?root = "item_of (e_double env) None (JObj (pre @ (n, JStr x) # post))"
  obtain X where "data_text env cli = text_of 0 fmt (JObj (pre @ (n, JStr x) # post)) @ X"
    using data_text_body [OF text_nonzero [OF assms(2)] assms(5)] by blast
  then have p: "cJSON_Parse (e_double env) (data_text env cli) [] = (Accept ?root X, [])" using cJSON_Parse_object [OF assms(1,2)] by simp
  have ip: "casefold (lit ''ip'') = lit ''ip''" "0 \<notin> set (lit ''ip'')" by (simp_all add: casefold_def lit_def tolower_def)
  have g: "cJSON_GetObjectItem ?root (lit ''ip'') = Some (item_of (e_double env) (Some n) (JStr x))"
    using get_object_item_of [OF assms(2) ip(2)] assms(3,4) ip(1) by simp
  have u: "fmt_i track_port = [0x35, 0x30, 0x30, 0x32, 0x30]" by (simp add: fmt_i_def dec_of_nat.simps)
  have w: "w\<lparr>track_ip := a, bt_tracker := b, w_allocs := []\<rparr> = w\<lparr>track_ip := a, bt_tracker := b\<rparr>" for a b using assms(6) by (cases w) simp
  show ?thesis
    unfolding recv_set_tracker_def with_json_def assms(6) p prod.case parse.case g option.case Let_def by (simp add: u w lit_def)
qed

text \<open>A handler that succeeds leaves the client as a fresh one, with an empty header.\<close>

lemma message_answered:
  assumes "process_msg env cli w = Some (0, cli', w')" "pos cli = data_size cli" "fd cli' = connfd" "token cli' = None" "token_size cli' = 0"
  shows "message_complete env cli w = Some (Some (new_client connfd (replicate 24 0)), w')"
  using assms by (cases cli') (simp add: message_complete_def new_client_def)

lemma reply_head_fields:
  assumes "length p = 24"
  shows "read_packet_order (reply_head p code) = read_packet_order p" "read_packet_size (reply_head p code) = of_nat (length (reply_text code))"
  using set_packet_head_fields(2,3) [OF assms, where X = "[]"] by (simp_all add: reply_head_def unsigned_ucast_eq take_bit_word_eq_self)

text \<open>
  C4: Setting the tracker. The JSON text of an object whose first member with the name \<^verbatim>\<open>ip\<close>, in any case, is a string, sent behind a header with the order \<^verbatim>\<open>SET_TRACKER\<close> and in any
  pieces, sets \<^verbatim>\<open>track_ip\<close> to the string and \<^verbatim>\<open>tracker\<close> to the address with the port 50020, whatever lies behind the data in memory. The answer is a header with the order
  of the request and the length of the text that follows, which cJSON parses to the code 0, and the client is ready for the next packet. An address of more than 121 bytes
  does not fit.
\<close>
theorem set_tracker_served:
  fixes x :: bytes
  assumes "exact_ints (e_double env)" "json_wf (JObj (pre @ (n, JStr x) # post))" "casefold n = lit ''ip''" "\<forall>m \<in> fst ` set pre. casefold m \<noteq> lit ''ip''"
    and "body = text_of 0 fmt (JObj (pre @ (n, JStr x) # post))" "request_head 2002 body p" "length body < 1024 * 1024" "concat ds = p @ body"
    and "connfd \<noteq> 0" "length stale = 24" "w_allocs w = []" "w_sends w = []"
  shows "arrive env ds (new_client connfd stale) w =
      (if length x \<le> 121 then
         Some (Some (new_client connfd (replicate 24 0)),
           w\<lparr>track_ip := Some x, bt_tracker := x @ lit '':50020'', w_out := w_out w @ reply_head p 0 @ reply_text 0\<rparr>)
       else None) \<and>
    read_packet_order (reply_head p 0) = 2002 \<and> read_packet_size (reply_head p 0) = of_nat (length (reply_text 0)) \<and>
    (\<exists>item. cJSON_Parse (e_double env) (reply_text 0) [] = (Accept item [], []) \<and> json_of (e_double env) item = Some (reply_json 0))"
proof -
  let ?c = "(new_client connfd stale)\<lparr>packet := p, has_read_head := True, data_buf := Some (body @ [e_unset env]),
      pos := int (length body), data_size := int (length body)\<rparr>"
  let ?w = "w\<lparr>track_ip := Some x, bt_tracker := x @ lit '':50020''\<rparr>"
  have "body \<noteq> []" using assms(5) by (simp add: object_text_def)
  then have a: "arrive env ds (new_client connfd stale) w = message_complete env ?c w"
    using arrive_bytes [OF new_client_ok [OF assms(10)], of env ds connfd w] packet_received [OF assms(6) _ assms(7,10,11)] assms(8) by simp
  have p: "length p = 24" "read_packet_order p = 2002" using assms(6) by (simp_all add: request_head_def)
  have h: "process_msg env ?c w = (if length x \<le> 121 then send_code env ?c 0 ?w else None)"
    using set_tracker_handled [OF assms(1-4), of ?c fmt w] assms(5,11) p(2) by (simp add: process_msg_def)
  obtain c' where "send_code env ?c 0 ?w = Some (0, c', ?w\<lparr>w_out := w_out w @ reply_head p 0 @ reply_text 0\<rparr>)"
      "fd c' = connfd" "token c' = None" "token_size c' = 0"
    using send_code_reply [OF assms(1), of 0 ?c ?w] assms(9,11,12) by (auto simp: new_client_def)
  then have "arrive env ds (new_client connfd stale) w =
      (if length x \<le> 121 then Some (Some (new_client connfd (replicate 24 0)), ?w\<lparr>w_out := w_out w @ reply_head p 0 @ reply_text 0\<rparr>) else None)"
    using a h message_answered [of env ?c w c' _ connfd] by (simp add: message_complete_def)
  moreover have "cJSON_Parse (e_double env) (reply_text 0 @ []) [] = (Accept (item_of (e_double env) None (reply_json 0)) [], [])"
    using cJSON_Parse_object [OF assms(1)] reply_json_wf [of 0] unfolding reply_json_def by blast
  moreover have "json_of (e_double env) (item_of (e_double env) None (reply_json 0)) = Some (reply_json 0)" using json_of_item_of reply_json_wf [of 0] by blast
  ultimately show ?thesis using reply_head_fields [OF p(1), of 0] p(2) by simp
qed

text \<open>A request, with digits behind the data in memory.\<close>

definition session_env :: "int bt_env" where
  "session_env = \<lparr>e_double = int_ops, e_unset = 0x31, e_behind = [0x32], e_ret = 7, e_add_task = \<lambda>_ _. 5, e_make_torrent = \<lambda>_ _ _. 0\<rparr>"

definition session_world :: world where
  "session_world = \<lparr>run_flag = 0, track_ip = None, bt_tracker = [], w_out = [], w_allocs = [], w_sends = []\<rparr>"

definition tracker_request :: bytes where
  "tracker_request = text_of 0 False (JObj ([(lit ''time_out'', JNum 30)] @ (lit ''IP'', JStr (lit ''10.0.0.1'')) # []))"

definition tracker_header :: bytes where
  "tracker_header = set_packet_head (replicate 24 0) 2002 (of_nat (length tracker_request)) 1 False"

lemma tracker_header_ok: "request_head 2002 tracker_request tracker_header"
  using set_packet_head_fields(1) [of "replicate 24 0"] set_packet_head_fields(2-) [of "replicate 24 0", where X = "[]"]
  by (simp add: request_head_def tracker_header_def read_packet_token_def get16_def rd16_def)

lemma tracker_request_short: "length tracker_request < 1024 * 1024"
  by (simp add: tracker_request_def object_text_def quoted_def escape_def lit_def word_less_nat_alt fmt_i_def dec_of_nat.simps)

theorem set_tracker_served_witness:
  "\<exists>w. arrive session_env [take 7 tracker_header, drop 7 tracker_header @ take 3 tracker_request, drop 3 tracker_request] (new_client 4 (replicate 24 9)) session_world =
      Some (Some (new_client 4 (replicate 24 0)), w) \<and>
    track_ip w = Some (lit ''10.0.0.1'') \<and> bt_tracker w = lit ''10.0.0.1:50020'' \<and> w_out w = reply_head tracker_header 0 @ reply_text 0"
proof -
  let ?ds = "[take 7 tracker_header, drop 7 tracker_header @ take 3 tracker_request, drop 3 tracker_request]"
  have "json_wf (JObj ([(lit ''time_out'', JNum 30)] @ (lit ''IP'', JStr (lit ''10.0.0.1'')) # []))" by (simp add: lit_def)
  moreover have "casefold (lit ''IP'') = lit ''ip''" "\<forall>m \<in> fst ` set [(lit ''time_out'', JNum 30)]. casefold m \<noteq> lit ''ip''"
    by (simp_all add: casefold_def tolower_def lit_def)
  moreover have "exact_ints (e_double session_env)" by (simp add: session_env_def int_ops_exact)
  ultimately have "arrive session_env ?ds (new_client 4 (replicate 24 9)) session_world =
      (if length (lit ''10.0.0.1'') \<le> 121 then Some (Some (new_client 4 (replicate 24 0)),
         session_world\<lparr>track_ip := Some (lit ''10.0.0.1''), bt_tracker := lit ''10.0.0.1'' @ lit '':50020'',
           w_out := w_out session_world @ reply_head tracker_header 0 @ reply_text 0\<rparr>) else None)"
    using set_tracker_served [OF _ _ _ _ tracker_request_def tracker_header_ok tracker_request_short, of session_env ?ds 4 "replicate 24 9" session_world]
    by (simp add: session_world_def del: arrive.simps json_wf.simps)
  then show ?thesis by (simp add: session_world_def lit_def del: arrive.simps)
qed

theorem packets_in_pieces_witness:
  "arrive session_env [take 7 tracker_header, drop 7 tracker_header @ take 3 tracker_request, drop 3 tracker_request] (new_client 4 (replicate 24 9)) session_world =
    drain session_env (length (tracker_header @ tracker_request)) (new_client 4 (replicate 24 9)) (tracker_header @ tracker_request) session_world"
  by (rule packets_in_pieces [OF new_client_ok]) simp_all

end
