(* ===== verification/Spec2Isabelle.thy ===== *)
theory Spec2Isabelle
  imports OT_Announce OT_Main BT_Session
begin

text \<open>
  A model of the \<^verbatim>\<open>bt_server\<close> repository: the BitTorrent tracker under \<^verbatim>\<open>src/\<close> and its service shell.
\<close>

end
